theory Spec2Isabelle
  imports Main
begin

section \<open>Data model (src/python/day12/simulator.py)\<close>

text \<open>
  The Dancing Links structure is an arena of nodes addressed by Python integers.
  Python list indexing accepts negative indices (counted from the end) and raises
  IndexError outside \<open>[-len, len)\<close>; every list access of the source is modelled
  through \<open>py_index\<close>, so that both behaviours are branches of the model.
\<close>

datatype error = IndexError

definition py_index :: "'a list \<Rightarrow> int \<Rightarrow> nat option" where
  "py_index xs i =
     (if 0 \<le> i \<and> i < int (length xs) then Some (nat i)
      else if i < 0 \<and> - int (length xs) \<le> i then Some (nat (int (length xs) + i))
      else None)"

record DLXNode =
  left :: int
  right :: int
  up :: int
  down :: int
  column :: int
  row :: int

text \<open>The fields of \<open>DLXColumn\<close> carry the prefix \<open>c_\<close> (\<open>size\<close>, \<open>left\<close>, \<open>right\<close> are taken).\<close>

record DLXColumn =
  c_size :: int
  c_left :: int
  c_right :: int
  c_first :: int
  c_name :: int

record Matrix =
  num_columns :: int
  nodes :: "DLXNode list"
  columns :: "DLXColumn list"
  header_idx :: int

definition new_node :: DLXNode where
  "new_node = \<lparr>left = -1, right = -1, up = -1, down = -1, column = -1, row = -1\<rparr>"

definition new_column :: DLXColumn where
  "new_column = \<lparr>c_size = 0, c_left = -1, c_right = -1, c_first = -1, c_name = 0\<rparr>"

subsection \<open>Indexed access with Python semantics\<close>

definition nodes_get :: "Matrix \<Rightarrow> int \<Rightarrow> error + DLXNode" where
  "nodes_get m i =
     (case py_index (nodes m) i of None \<Rightarrow> Inl IndexError | Some k \<Rightarrow> Inr (nodes m ! k))"

definition nodes_set :: "int \<Rightarrow> (DLXNode \<Rightarrow> DLXNode) \<Rightarrow> Matrix \<Rightarrow> error + Matrix" where
  "nodes_set i f m =
     (case py_index (nodes m) i of None \<Rightarrow> Inl IndexError
      | Some k \<Rightarrow> Inr (m\<lparr>nodes := (nodes m)[k := f (nodes m ! k)]\<rparr>))"

definition columns_get :: "Matrix \<Rightarrow> int \<Rightarrow> error + DLXColumn" where
  "columns_get m i =
     (case py_index (columns m) i of None \<Rightarrow> Inl IndexError | Some k \<Rightarrow> Inr (columns m ! k))"

definition columns_set :: "int \<Rightarrow> (DLXColumn \<Rightarrow> DLXColumn) \<Rightarrow> Matrix \<Rightarrow> error + Matrix" where
  "columns_set i f m =
     (case py_index (columns m) i of None \<Rightarrow> Inl IndexError
      | Some k \<Rightarrow> Inr (m\<lparr>columns := (columns m)[k := f (columns m ! k)]\<rparr>))"

definition ebind :: "error + 'a \<Rightarrow> ('a \<Rightarrow> error + 'b) \<Rightarrow> error + 'b" where
  "ebind r f = (case r of Inl e \<Rightarrow> Inl e | Inr x \<Rightarrow> f x)"

fun efold :: "('a \<Rightarrow> 's \<Rightarrow> error + 's) \<Rightarrow> 'a list \<Rightarrow> 's \<Rightarrow> error + 's" where
  "efold f [] s = Inr s"
| "efold f (x # xs) s = ebind (f x s) (efold f xs)"

section \<open>DancingLinksMatrix.__init__\<close>

text \<open>First loop: one header node and one column record per column.\<close>

definition add_header :: "nat \<Rightarrow> Matrix \<Rightarrow> Matrix" where
  "add_header i m =
     m\<lparr>nodes := nodes m @ [new_node\<lparr>column := int (length (nodes m)), row := -1\<rparr>],
       columns := columns m @ [new_column\<lparr>c_name := int i\<rparr>]\<rparr>"

text \<open>Second loop (\<open>for i, col in enumerate(self.columns)\<close>): horizontal links of header \<open>i\<close>.\<close>

definition link_header :: "int \<Rightarrow> nat \<Rightarrow> Matrix \<Rightarrow> error + Matrix" where
  "link_header n i m =
     (let node_idx = int i + 1;
          l = (if int i > 0 then (int i - 1) mod n + 1 else n);
          r = (if int i < n - 1 then (int i + 1) mod n + 1 else 1);
          m1 = m\<lparr>columns := (columns m)[i := (columns m ! i)
                  \<lparr>c_left := l, c_right := r, c_first := node_idx\<rparr>]\<rparr>
      in ebind (nodes_set node_idx (\<lambda>x. x\<lparr>left := l\<rparr>) m1) (\<lambda>m2.
         ebind (nodes_set node_idx (\<lambda>x. x\<lparr>right := r\<rparr>) m2) (\<lambda>m3.
         ebind (nodes_set node_idx (\<lambda>x. x\<lparr>up := node_idx\<rparr>) m3) (\<lambda>m4.
         nodes_set node_idx (\<lambda>x. x\<lparr>down := node_idx\<rparr>) m4))))"

definition create :: "int \<Rightarrow> error + Matrix" where
  "create n =
     (let m0 = \<lparr>num_columns = n, nodes = [new_node], columns = [], header_idx = 0\<rparr>;
          m1 = fold add_header [0 ..< nat n] m0
      in ebind (efold (link_header n) [0 ..< length (columns m1)] m1) (\<lambda>m2.
         ebind (nodes_set 0 (\<lambda>x. x\<lparr>right := 1\<rparr>) m2) (\<lambda>m3.
         ebind (nodes_set 0 (\<lambda>x. x\<lparr>left := n\<rparr>) m3) (\<lambda>m4.
         ebind (nodes_set 1 (\<lambda>x. x\<lparr>left := 0\<rparr>) m4) (\<lambda>m5.
         nodes_set n (\<lambda>x. x\<lparr>right := 0\<rparr>) m5)))))"

section \<open>DancingLinksMatrix.add_row\<close>

text \<open>
  \<open>add_row\<close> mutates the matrix in place, so an exception leaves the matrix as it is at
  the raise. The model returns the outcome (\<open>None\<close>: returned normally) together with the
  matrix as the call leaves it. The loop state is the pair
  \<open>(first_node_idx, prev_node_idx)\<close>; the source assigns both together, so one option
  holds both.
\<close>

definition add_row_node ::
  "int \<Rightarrow> int \<Rightarrow> (int \<times> int) option \<Rightarrow> Matrix \<Rightarrow> (error + (int \<times> int) option) \<times> Matrix" where
  "add_row_node row_id col_idx fp m =
     (let node_idx = int (length (nodes m));
          k = length (nodes m);
          m1 = m\<lparr>nodes := nodes m @ [new_node\<lparr>column := col_idx + 1, row := row_id\<rparr>]\<rparr>;
          col_header_idx = col_idx + 1
      in case py_index (columns m1) col_idx of None \<Rightarrow> (Inl IndexError, m1) | Some ci \<Rightarrow>
         (case nodes_get m1 col_header_idx of Inl e \<Rightarrow> (Inl e, m1) | Inr hd_node \<Rightarrow>
         (let last_in_col = up hd_node;
              m2 = m1\<lparr>nodes := (nodes m1)[k := (nodes m1 ! k)
                     \<lparr>up := last_in_col, down := col_header_idx\<rparr>]\<rparr>
          in case nodes_set last_in_col (\<lambda>x. x\<lparr>down := node_idx\<rparr>) m2 of
               Inl e \<Rightarrow> (Inl e, m2) | Inr m3 \<Rightarrow>
             (case nodes_set col_header_idx (\<lambda>x. x\<lparr>up := node_idx\<rparr>) m3 of
               Inl e \<Rightarrow> (Inl e, m3) | Inr m4 \<Rightarrow>
             (let m5 = m4\<lparr>columns := (columns m4)[ci := (columns m4 ! ci)
                          \<lparr>c_size := c_size (columns m4 ! ci) + 1\<rparr>]\<rparr>
              in case fp of
                   None \<Rightarrow> (Inr (Some (node_idx, node_idx)), m5)
                 | Some (first_node_idx, prev_node_idx) \<Rightarrow>
                     (case nodes_set prev_node_idx (\<lambda>x. x\<lparr>right := node_idx\<rparr>) m5 of
                        Inl e \<Rightarrow> (Inl e, m5)
                      | Inr m6 \<Rightarrow>
                          (Inr (Some (first_node_idx, node_idx)),
                           m6\<lparr>nodes := (nodes m6)[k := (nodes m6 ! k)
                                \<lparr>left := prev_node_idx\<rparr>]\<rparr>)))))))"

fun add_row_loop ::
  "int \<Rightarrow> int list \<Rightarrow> (int \<times> int) option \<Rightarrow> Matrix \<Rightarrow> (error + (int \<times> int) option) \<times> Matrix" where
  "add_row_loop row_id [] fp m = (Inr fp, m)"
| "add_row_loop row_id (c # cs) fp m =
     (case add_row_node row_id c fp m of
        (Inl e, m') \<Rightarrow> (Inl e, m')
      | (Inr fp', m') \<Rightarrow> add_row_loop row_id cs fp' m')"

definition add_row :: "int \<Rightarrow> int list \<Rightarrow> Matrix \<Rightarrow> error option \<times> Matrix" where
  "add_row row_id cols m =
     (if cols = [] then (None, m)
      else case add_row_loop row_id cols None m of
             (Inl e, m') \<Rightarrow> (Some e, m')
           | (Inr None, m') \<Rightarrow> (None, m')
           | (Inr (Some (first_node_idx, prev_node_idx)), m') \<Rightarrow>
               (case nodes_set prev_node_idx (\<lambda>x. x\<lparr>right := first_node_idx\<rparr>) m' of
                  Inl e \<Rightarrow> (Some e, m')
                | Inr m1 \<Rightarrow>
                    (case nodes_set first_node_idx (\<lambda>x. x\<lparr>left := prev_node_idx\<rparr>) m1 of
                       Inl e \<Rightarrow> (Some e, m1)
                     | Inr m2 \<Rightarrow> (None, m2))))"

text \<open>A sequence of \<open>add_row\<close> calls, stopping at the first one that raises.\<close>

fun add_rows :: "(int \<times> int list) list \<Rightarrow> Matrix \<Rightarrow> error + Matrix" where
  "add_rows [] m = Inr m"
| "add_rows ((row_id, cols) # rs) m =
     (case add_row row_id cols m of
        (Some e, m') \<Rightarrow> Inl e
      | (None, m') \<Rightarrow> add_rows rs m')"

section \<open>DLXSolver\<close>

text \<open>
  The solver holds the matrix it mutates, the current partial selection, the solutions
  found so far and an operation counter. The \<open>trace\<close> flag only prints and is left out.
\<close>

record DLXSolver =
  matrix :: Matrix
  solution :: "int list"
  solutions :: "int list list"
  operations :: int

text \<open>
  A \<open>while\<close> loop over links need not terminate on an arbitrary arena, so each loop is a
  partial function into \<open>option\<close>: \<open>None\<close> is a loop that never returns,
  \<open>Some (Inl e)\<close> a raised exception, \<open>Some (Inr x)\<close> a normal result.
  A local such as \<open>node = self.matrix.nodes[node_idx]\<close> is a reference to a mutable
  object: the model resolves the index once to a position and reads the fields of that
  position in the current state.
\<close>

subsection \<open>cover\<close>

text \<open>Body of the inner loop of \<open>cover\<close> for the node at position \<open>k\<close>.\<close>

definition unlink_node :: "nat \<Rightarrow> Matrix \<Rightarrow> error + Matrix" where
  "unlink_node k m =
     ebind (nodes_set (up (nodes m ! k)) (\<lambda>x. x\<lparr>down := down (nodes m ! k)\<rparr>) m) (\<lambda>m1.
     ebind (nodes_set (down (nodes m1 ! k)) (\<lambda>x. x\<lparr>up := up (nodes m1 ! k)\<rparr>) m1) (\<lambda>m2.
     columns_set (column (nodes m2 ! k) - 1) (\<lambda>c. c\<lparr>c_size := c_size c - 1\<rparr>) m2))"

partial_function (option) cover_row_loop ::
  "int \<Rightarrow> int \<Rightarrow> DLXSolver \<Rightarrow> (error + DLXSolver) option" where
  "cover_row_loop row_node_idx node_idx s =
     (if node_idx = row_node_idx then Some (Inr s)
      else case py_index (nodes (matrix s)) node_idx of
             None \<Rightarrow> Some (Inl IndexError)
           | Some k \<Rightarrow>
               (case unlink_node k (matrix s) of
                  Inl e \<Rightarrow> Some (Inl e)
                | Inr m' \<Rightarrow>
                    cover_row_loop row_node_idx (right (nodes m' ! k))
                      (s\<lparr>matrix := m', operations := operations s + 1\<rparr>)))"

declare cover_row_loop.simps [code]

partial_function (option) cover_col_loop ::
  "int \<Rightarrow> int \<Rightarrow> DLXSolver \<Rightarrow> (error + DLXSolver) option" where
  "cover_col_loop col_node_idx row_node_idx s =
     (if row_node_idx = col_node_idx then Some (Inr s)
      else case py_index (nodes (matrix s)) row_node_idx of
             None \<Rightarrow> Some (Inl IndexError)
           | Some r \<Rightarrow>
               Option.bind (cover_row_loop row_node_idx (right (nodes (matrix s) ! r)) s)
                 (\<lambda>res. case res of
                    Inl e \<Rightarrow> Some (Inl e)
                  | Inr s' \<Rightarrow> cover_col_loop col_node_idx (down (nodes (matrix s') ! r)) s'))"

declare cover_col_loop.simps [code]

definition unlink_header :: "nat \<Rightarrow> Matrix \<Rightarrow> error + Matrix" where
  "unlink_header k m =
     ebind (nodes_set (left (nodes m ! k)) (\<lambda>x. x\<lparr>right := right (nodes m ! k)\<rparr>) m) (\<lambda>m1.
     nodes_set (right (nodes m1 ! k)) (\<lambda>x. x\<lparr>left := left (nodes m1 ! k)\<rparr>) m1)"

definition cover :: "int \<Rightarrow> DLXSolver \<Rightarrow> (error + DLXSolver) option" where
  "cover col_idx s =
     (let s1 = s\<lparr>operations := operations s + 1\<rparr>;
          col_node_idx = col_idx + 1
      in case columns_get (matrix s1) col_idx of
           Inl e \<Rightarrow> Some (Inl e)
         | Inr col \<Rightarrow>
             (case py_index (nodes (matrix s1)) col_node_idx of
                None \<Rightarrow> Some (Inl IndexError)
              | Some k \<Rightarrow>
                  (case unlink_header k (matrix s1) of
                     Inl e \<Rightarrow> Some (Inl e)
                   | Inr m' \<Rightarrow>
                       cover_col_loop col_node_idx (down (nodes m' ! k)) (s1\<lparr>matrix := m'\<rparr>))))"

subsection \<open>uncover\<close>

definition relink_node :: "int \<Rightarrow> nat \<Rightarrow> Matrix \<Rightarrow> error + Matrix" where
  "relink_node node_idx k m =
     ebind (nodes_set (up (nodes m ! k)) (\<lambda>x. x\<lparr>down := node_idx\<rparr>) m) (\<lambda>m1.
     ebind (nodes_set (down (nodes m1 ! k)) (\<lambda>x. x\<lparr>up := node_idx\<rparr>) m1) (\<lambda>m2.
     columns_set (column (nodes m2 ! k) - 1) (\<lambda>c. c\<lparr>c_size := c_size c + 1\<rparr>) m2))"

partial_function (option) uncover_row_loop ::
  "int \<Rightarrow> int \<Rightarrow> DLXSolver \<Rightarrow> (error + DLXSolver) option" where
  "uncover_row_loop row_node_idx node_idx s =
     (if node_idx = row_node_idx then Some (Inr s)
      else case py_index (nodes (matrix s)) node_idx of
             None \<Rightarrow> Some (Inl IndexError)
           | Some k \<Rightarrow>
               (case relink_node node_idx k (matrix s) of
                  Inl e \<Rightarrow> Some (Inl e)
                | Inr m' \<Rightarrow>
                    uncover_row_loop row_node_idx (left (nodes m' ! k))
                      (s\<lparr>matrix := m', operations := operations s + 1\<rparr>)))"

declare uncover_row_loop.simps [code]

partial_function (option) uncover_col_loop ::
  "int \<Rightarrow> int \<Rightarrow> DLXSolver \<Rightarrow> (error + DLXSolver) option" where
  "uncover_col_loop col_node_idx row_node_idx s =
     (if row_node_idx = col_node_idx then Some (Inr s)
      else case py_index (nodes (matrix s)) row_node_idx of
             None \<Rightarrow> Some (Inl IndexError)
           | Some r \<Rightarrow>
               Option.bind (uncover_row_loop row_node_idx (left (nodes (matrix s) ! r)) s)
                 (\<lambda>res. case res of
                    Inl e \<Rightarrow> Some (Inl e)
                  | Inr s' \<Rightarrow> uncover_col_loop col_node_idx (up (nodes (matrix s') ! r)) s'))"

declare uncover_col_loop.simps [code]

definition relink_header :: "int \<Rightarrow> nat \<Rightarrow> Matrix \<Rightarrow> error + Matrix" where
  "relink_header col_node_idx k m =
     ebind (nodes_set (left (nodes m ! k)) (\<lambda>x. x\<lparr>right := col_node_idx\<rparr>) m) (\<lambda>m1.
     nodes_set (right (nodes m1 ! k)) (\<lambda>x. x\<lparr>left := col_node_idx\<rparr>) m1)"

definition uncover :: "int \<Rightarrow> DLXSolver \<Rightarrow> (error + DLXSolver) option" where
  "uncover col_idx s =
     (let s1 = s\<lparr>operations := operations s + 1\<rparr>;
          col_node_idx = col_idx + 1
      in case columns_get (matrix s1) col_idx of
           Inl e \<Rightarrow> Some (Inl e)
         | Inr col \<Rightarrow>
             (case py_index (nodes (matrix s1)) col_node_idx of
                None \<Rightarrow> Some (Inl IndexError)
              | Some k \<Rightarrow>
                  Option.bind (uncover_col_loop col_node_idx (up (nodes (matrix s1) ! k)) s1)
                    (\<lambda>res. case res of
                       Inl e \<Rightarrow> Some (Inl e)
                     | Inr s2 \<Rightarrow>
                         (case relink_header col_node_idx k (matrix s2) of
                            Inl e \<Rightarrow> Some (Inl e)
                          | Inr m' \<Rightarrow> Some (Inr (s2\<lparr>matrix := m'\<rparr>))))))"

subsection \<open>choose_column\<close>

text \<open>
  \<open>min_size\<close> starts as \<open>float('inf')\<close>: \<open>None\<close> here, below which every size lies.
  The loop state is \<open>(min_size, best_col)\<close>.
\<close>

partial_function (option) choose_loop ::
  "Matrix \<Rightarrow> int \<Rightarrow> int option \<times> int option \<Rightarrow> (error + int option) option" where
  "choose_loop m col_node_idx mb =
     (if col_node_idx = 0 then Some (Inr (snd mb))
      else
        let col_idx = col_node_idx - 1 in
        case (if col_idx < int (length (columns m))
              then (case columns_get m col_idx of
                      Inl e \<Rightarrow> Inl e
                    | Inr col \<Rightarrow>
                        (if (case fst mb of None \<Rightarrow> True | Some ms \<Rightarrow> c_size col < ms)
                         then Inr (Some (c_size col), Some col_idx)
                         else Inr mb))
              else Inr mb) of
          Inl e \<Rightarrow> Some (Inl e)
        | Inr mb' \<Rightarrow>
            (case nodes_get m col_node_idx of
               Inl e \<Rightarrow> Some (Inl e)
             | Inr nd \<Rightarrow> choose_loop m (right nd) mb'))"

declare choose_loop.simps [code]

definition choose_column :: "DLXSolver \<Rightarrow> (error + int option \<times> DLXSolver) option" where
  "choose_column s =
     (let s1 = s\<lparr>operations := operations s + 1\<rparr> in
      case nodes_get (matrix s1) 0 of
        Inl e \<Rightarrow> Some (Inl e)
      | Inr header \<Rightarrow>
          (if right header = 0 then Some (Inr (None, s1))
           else Option.bind (choose_loop (matrix s1) (right header) (None, None))
                  (\<lambda>res. case res of
                     Inl e \<Rightarrow> Some (Inl e)
                   | Inr best_col \<Rightarrow> Some (Inr (best_col, s1)))))"

subsection \<open>search\<close>

text \<open>The two inner loops of \<open>search\<close>: cover, then uncover, the other columns of a row.\<close>

partial_function (option) cover_row_columns ::
  "int \<Rightarrow> int \<Rightarrow> DLXSolver \<Rightarrow> (error + DLXSolver) option" where
  "cover_row_columns row_node_idx node_idx s =
     (if node_idx = row_node_idx then Some (Inr s)
      else case py_index (nodes (matrix s)) node_idx of
             None \<Rightarrow> Some (Inl IndexError)
           | Some k \<Rightarrow>
               Option.bind (cover (column (nodes (matrix s) ! k) - 1) s)
                 (\<lambda>res. case res of
                    Inl e \<Rightarrow> Some (Inl e)
                  | Inr s' \<Rightarrow> cover_row_columns row_node_idx (right (nodes (matrix s') ! k)) s'))"

declare cover_row_columns.simps [code]

partial_function (option) uncover_row_columns ::
  "int \<Rightarrow> int \<Rightarrow> DLXSolver \<Rightarrow> (error + DLXSolver) option" where
  "uncover_row_columns row_node_idx node_idx s =
     (if node_idx = row_node_idx then Some (Inr s)
      else case py_index (nodes (matrix s)) node_idx of
             None \<Rightarrow> Some (Inl IndexError)
           | Some k \<Rightarrow>
               Option.bind (uncover (column (nodes (matrix s) ! k) - 1) s)
                 (\<lambda>res. case res of
                    Inl e \<Rightarrow> Some (Inl e)
                  | Inr s' \<Rightarrow> uncover_row_columns row_node_idx (left (nodes (matrix s') ! k)) s'))"

declare uncover_row_columns.simps [code]

text \<open>
  The row loop of \<open>search\<close> leaves either through \<open>return True\<close> in its body or through
  its condition, with the current value of \<open>found\<close>.
\<close>

datatype loop_exit = Return_True | Loop_End bool

text \<open>\<open>rec\<close> is the recursive call \<open>self.search(depth + 1, find_all)\<close>.\<close>

partial_function (option) try_rows ::
  "(DLXSolver \<Rightarrow> (error + bool \<times> DLXSolver) option) \<Rightarrow> bool \<Rightarrow> int \<Rightarrow> int \<Rightarrow> bool
     \<Rightarrow> DLXSolver \<Rightarrow> (error + loop_exit \<times> DLXSolver) option" where
  "try_rows rec find_all col_node_idx row_node_idx found s =
     (if row_node_idx = col_node_idx then Some (Inr (Loop_End found, s))
      else case py_index (nodes (matrix s)) row_node_idx of
             None \<Rightarrow> Some (Inl IndexError)
           | Some r \<Rightarrow>
               (let s1 = s\<lparr>solution := solution s @ [row (nodes (matrix s) ! r)]\<rparr> in
                Option.bind (cover_row_columns row_node_idx (right (nodes (matrix s1) ! r)) s1)
                  (\<lambda>res. case res of
                     Inl e \<Rightarrow> Some (Inl e)
                   | Inr s2 \<Rightarrow>
                       Option.bind (rec s2)
                         (\<lambda>res. case res of
                            Inl e \<Rightarrow> Some (Inl e)
                          | Inr (b, s3) \<Rightarrow>
                              (if b \<and> \<not> find_all then Some (Inr (Return_True, s3))
                               else if solution s3 = [] then Some (Inl IndexError)
                               else
                                 (let s4 = s3\<lparr>solution := butlast (solution s3)\<rparr> in
                                  Option.bind
                                    (uncover_row_columns row_node_idx
                                       (left (nodes (matrix s4) ! r)) s4)
                                    (\<lambda>res. case res of
                                       Inl e \<Rightarrow> Some (Inl e)
                                     | Inr s5 \<Rightarrow>
                                         try_rows rec find_all col_node_idx
                                           (down (nodes (matrix s5) ! r)) (found \<or> b) s5)))))))"

declare try_rows.simps [code]

text \<open>
  \<open>search\<close> is recursive through the row loop. Its first argument bounds the number of
  nested activations of \<open>search\<close>: with budget \<open>0\<close> no activation is possible and the
  result is \<open>None\<close>.
\<close>

primrec search :: "nat \<Rightarrow> int \<Rightarrow> bool \<Rightarrow> DLXSolver \<Rightarrow> (error + bool \<times> DLXSolver) option" where
  "search 0 depth find_all s = None"
| "search (Suc d) depth find_all s =
     (case nodes_get (matrix s) 0 of
        Inl e \<Rightarrow> Some (Inl e)
      | Inr header \<Rightarrow>
          (if right header = 0
           then Some (Inr (True, s\<lparr>solutions := solutions s @ [solution s]\<rparr>))
           else Option.bind (choose_column s)
             (\<lambda>res. case res of
                Inl e \<Rightarrow> Some (Inl e)
              | Inr (None, s1) \<Rightarrow> Some (Inr (False, s1))
              | Inr (Some col_idx, s1) \<Rightarrow>
                  (case columns_get (matrix s1) col_idx of
                     Inl e \<Rightarrow> Some (Inl e)
                   | Inr col \<Rightarrow>
                       (if c_size col = 0 then Some (Inr (False, s1))
                        else Option.bind (cover col_idx s1)
                          (\<lambda>res. case res of
                             Inl e \<Rightarrow> Some (Inl e)
                           | Inr s2 \<Rightarrow>
                               (let col_node_idx = col_idx + 1 in
                                case nodes_get (matrix s2) col_node_idx of
                                  Inl e \<Rightarrow> Some (Inl e)
                                | Inr col_node \<Rightarrow>
                                    Option.bind
                                      (try_rows (search d (depth + 1) find_all) find_all
                                         col_node_idx (down col_node) False s2)
                                      (\<lambda>res. case res of
                                         Inl e \<Rightarrow> Some (Inl e)
                                       | Inr (Return_True, s3) \<Rightarrow> Some (Inr (True, s3))
                                       | Inr (Loop_End found, s3) \<Rightarrow>
                                           Option.bind (uncover col_idx s3)
                                             (\<lambda>res. case res of
                                                Inl e \<Rightarrow> Some (Inl e)
                                              | Inr s4 \<Rightarrow> Some (Inr (found, s4)))))))))))"

definition new_solver :: "Matrix \<Rightarrow> DLXSolver" where
  "new_solver m = \<lparr>matrix = m, solution = [], solutions = [], operations = 0\<rparr>"

text \<open>\<open>solve\<close> returns the list of solutions; the solver it leaves behind comes with it.\<close>

definition solve :: "nat \<Rightarrow> bool \<Rightarrow> DLXSolver \<Rightarrow> (error + int list list \<times> DLXSolver) option" where
  "solve d find_all s =
     (let s0 = s\<lparr>solutions := [], solution := [], operations := 0\<rparr> in
      case search d 0 find_all s0 of
        None \<Rightarrow> None
      | Some (Inl e) \<Rightarrow> Some (Inl e)
      | Some (Inr (b, s')) \<Rightarrow> Some (Inr (solutions s', s')))"

text \<open>The header node of column index i (node i + 1) as __init__ leaves it before the fix-up.\<close>

definition hdr_left :: "int \<Rightarrow> nat \<Rightarrow> int" where
  "hdr_left n i = (if i = 0 then n else int i)"
definition hdr_right :: "int \<Rightarrow> nat \<Rightarrow> int" where
  "hdr_right n i = (if int i < n - 1 then int i + 2 else 1)"

definition linked_prefix :: "int \<Rightarrow> nat \<Rightarrow> nat \<Rightarrow> Matrix" where
  "linked_prefix n k j =
     \<lparr>num_columns = n,
      nodes = new_node # map (\<lambda>i. if i < j
                then \<lparr>left = hdr_left n i, right = hdr_right n i, up = int i + 1, down = int i + 1,
                      column = int i + 1, row = -1\<rparr>
                else new_node\<lparr>column := int i + 1, row := -1\<rparr>) [0 ..< k],
      columns = map (\<lambda>i. if i < j
                then \<lparr>c_size = 0, c_left = hdr_left n i, c_right = hdr_right n i,
                      c_first = int i + 1, c_name = int i\<rparr>
                else new_column\<lparr>c_name := int i\<rparr>) [0 ..< k], header_idx = 0\<rparr>"

definition fix_root :: "int \<Rightarrow> Matrix \<Rightarrow> Matrix" where
  "fix_root n m =
     m\<lparr>nodes := ((nodes m)[0 := (nodes m ! 0)\<lparr>right := 1, left := n\<rparr>])
                  [1 := (nodes m ! 1)\<lparr>left := 0\<rparr>]\<rparr>"

definition fix_last :: "nat \<Rightarrow> Matrix \<Rightarrow> Matrix" where
  "fix_last k m = m\<lparr>nodes := (nodes m)[k := (nodes m ! k)\<lparr>right := 0\<rparr>]\<rparr>"

definition init_matrix :: "nat \<Rightarrow> Matrix" where
  "init_matrix k = fix_last k (fix_root (int k) (linked_prefix (int k) k k))"

definition ups_ok :: "DLXNode list \<Rightarrow> bool" where
  "ups_ok xs \<longleftrightarrow> (\<forall>i < length xs. -1 \<le> up (xs ! i) \<and> up (xs ! i) < int (length xs))"

definition arena_ok :: "Matrix \<Rightarrow> bool" where
  "arena_ok m \<longleftrightarrow>
     0 < length (columns m) \<and> num_columns m = int (length (columns m)) \<and>
     length (columns m) < length (nodes m) \<and> ups_ok (nodes m)"

definition col_pos :: "int \<Rightarrow> int \<Rightarrow> nat" where
  "col_pos n c = nat (if c < 0 then n + c else c)"

text \<open>The first statement of the loop body: the node is appended before anything is checked.\<close>

definition append_node :: "int \<Rightarrow> int \<Rightarrow> Matrix \<Rightarrow> Matrix" where
  "append_node row_id col_idx m =
     m\<lparr>nodes := nodes m @ [new_node\<lparr>column := col_idx + 1, row := row_id\<rparr>]\<rparr>"

definition in_range :: "int \<Rightarrow> int \<Rightarrow> bool" where
  "in_range n c \<longleftrightarrow> - n \<le> c \<and> c < n"

definition fp_ok :: "Matrix \<Rightarrow> (int \<times> int) option \<Rightarrow> bool" where
  "fp_ok m fp \<longleftrightarrow> (case fp of None \<Rightarrow> True
     | Some (f, p) \<Rightarrow> 0 \<le> f \<and> f < int (length (nodes m)) \<and> 0 \<le> p \<and> p < int (length (nodes m)))"

definition bump :: "int \<Rightarrow> int \<Rightarrow> int list \<Rightarrow> int list" where
  "bump n c szs = szs[col_pos n c := szs ! col_pos n c + 1]"

text \<open>The position that Python's \<open>xs[i]\<close> denotes in a list of length \<open>len\<close>.\<close>

definition py_pos :: "nat \<Rightarrow> int \<Rightarrow> nat" where
  "py_pos len i = nat (if 0 \<le> i then i else int len + i)"

text \<open>
  The effect of one iteration of the loop of \<open>add_row\<close> for the column index \<open>c\<close>, taking
  the matrix \<open>a\<close> to \<open>b\<close>, field by field. \<open>x\<close> is the position of the node the iteration
  appends; \<open>h\<close> is the position of \<open>nodes[c + 1]\<close> and \<open>u\<close> the \<open>up\<close> link read there, both
  after the append; \<open>l\<close> is the position of \<open>nodes[u]\<close>. The node is linked between
  \<open>l\<close> and \<open>h\<close>, the size counter of \<open>columns[c]\<close> is incremented, and unless
  the node is the first of its row (\<open>first\<close>) it is linked after the node before it.
\<close>

definition spliced_node :: "int \<Rightarrow> int \<Rightarrow> nat \<Rightarrow> Matrix \<Rightarrow> Matrix \<Rightarrow> bool" where
  "spliced_node row_id c first a b \<longleftrightarrow>
     (let x = length (nodes a);
          h = py_pos (Suc x) (c + 1);
          u = (if h = x then -1 else up (nodes a ! h));
          l = py_pos (Suc x) u;
          j = py_pos (length (columns a)) c
      in length (nodes b) = Suc x \<and> length (columns b) = length (columns a) \<and>
         (\<forall>y \<le> x.
            column (nodes b ! y) = (if y = x then c + 1 else column (nodes a ! y)) \<and>
            row (nodes b ! y) = (if y = x then row_id else row (nodes a ! y)) \<and>
            up (nodes b ! y) = (if y = h then int x else if y = x then u else up (nodes a ! y)) \<and>
            down (nodes b ! y) =
              (if y = l then int x else if y = x then c + 1 else down (nodes a ! y)) \<and>
            right (nodes b ! y) =
              (if y = x then -1 else if first < x \<and> Suc y = x then int x else right (nodes a ! y)) \<and>
            left (nodes b ! y) =
              (if y = x then (if first < x then int x - 1 else -1) else left (nodes a ! y))) \<and>
         (\<forall>i < length (columns a).
            c_size (columns b ! i) =
              (if i = j then c_size (columns a ! i) + 1 else c_size (columns a ! i))))"

text \<open>
  The matrices a caller can hold: the result of \<open>create\<close>, and what any \<open>add_row\<close> call
  (returning or raising) leaves of such a matrix.
\<close>

inductive constructed :: "Matrix \<Rightarrow> bool" where
  constructed_create: "create n = Inr m \<Longrightarrow> constructed m"
| constructed_add_row: "constructed m \<Longrightarrow> add_row row_id cols m = (r, m') \<Longrightarrow> constructed m'"

text \<open>
  \<open>chain f a xs b\<close>: following the link \<open>f\<close> from position \<open>a\<close> visits the positions \<open>xs\<close>
  in order and then arrives at \<open>b\<close>.
\<close>

fun chain :: "(nat \<Rightarrow> int) \<Rightarrow> nat \<Rightarrow> nat list \<Rightarrow> nat \<Rightarrow> bool" where
  "chain f a [] b = (f a = int b)"
| "chain f a (x # xs) b = (f a = int x \<and> chain f x xs b)"

text \<open>
  \<open>linkable m y\<close>: the node at position \<open>y\<close> records two neighbours in its own column,
  different from itself; \<open>linked m y\<close>: these neighbours also point at \<open>y\<close>.
\<close>

definition linkable :: "Matrix \<Rightarrow> nat \<Rightarrow> bool" where
  "linkable m y \<longleftrightarrow>
     (let u = up (nodes m ! y); d = down (nodes m ! y); c = column (nodes m ! y) in
      y < length (nodes m) \<and> 0 \<le> u \<and> u < int (length (nodes m)) \<and>
      0 \<le> d \<and> d < int (length (nodes m)) \<and> nat u \<noteq> y \<and> nat d \<noteq> y \<and>
      column (nodes m ! nat u) = c \<and> column (nodes m ! nat d) = c \<and>
      1 \<le> c \<and> c \<le> int (length (columns m)))"

definition linked :: "Matrix \<Rightarrow> nat \<Rightarrow> bool" where
  "linked m y \<longleftrightarrow>
     linkable m y \<and> down (nodes m ! nat (up (nodes m ! y))) = int y \<and>
     up (nodes m ! nat (down (nodes m ! y))) = int y"

text \<open>The effect of the body of the inner loop of \<open>cover\<close> (of \<open>uncover\<close>) when no index is out of range.\<close>

definition unl :: "nat \<Rightarrow> Matrix \<Rightarrow> Matrix" where
  "unl y m =
     (let p = nat (up (nodes m ! y)); q = nat (down (nodes m ! y));
          c = nat (column (nodes m ! y) - 1);
          ns1 = (nodes m)[p := (nodes m ! p)\<lparr>down := down (nodes m ! y)\<rparr>];
          ns2 = ns1[q := (ns1 ! q)\<lparr>up := up (nodes m ! y)\<rparr>]
      in m\<lparr>nodes := ns2,
           columns := (columns m)[c := (columns m ! c)\<lparr>c_size := c_size (columns m ! c) - 1\<rparr>]\<rparr>)"

definition rel :: "nat \<Rightarrow> Matrix \<Rightarrow> Matrix" where
  "rel y m =
     (let p = nat (up (nodes m ! y)); q = nat (down (nodes m ! y));
          c = nat (column (nodes m ! y) - 1);
          ns1 = (nodes m)[p := (nodes m ! p)\<lparr>down := int y\<rparr>];
          ns2 = ns1[q := (ns1 ! q)\<lparr>up := int y\<rparr>]
      in m\<lparr>nodes := ns2,
           columns := (columns m)[c := (columns m ! c)\<lparr>c_size := c_size (columns m ! c) + 1\<rparr>]\<rparr>)"

fun unl_ok :: "nat list \<Rightarrow> Matrix \<Rightarrow> bool" where
  "unl_ok [] m = True"
| "unl_ok (y # ys) m = (linked m y \<and> unl_ok ys (unl y m))"

fun rel_ok :: "nat list \<Rightarrow> Matrix \<Rightarrow> bool" where
  "rel_ok [] m = True"
| "rel_ok (y # ys) m = (linkable m y \<and> rel_ok ys (rel y m))"

definition hlinkable :: "Matrix \<Rightarrow> nat \<Rightarrow> bool" where
  "hlinkable m h \<longleftrightarrow>
     (let l = left (nodes m ! h); r = right (nodes m ! h) in
      h < length (nodes m) \<and> 0 \<le> l \<and> l < int (length (nodes m)) \<and>
      0 \<le> r \<and> r < int (length (nodes m)) \<and> nat l \<noteq> h \<and> nat r \<noteq> h)"

definition unlh :: "nat \<Rightarrow> Matrix \<Rightarrow> Matrix" where
  "unlh h m =
     (let l = nat (left (nodes m ! h)); r = nat (right (nodes m ! h));
          ns1 = (nodes m)[l := (nodes m ! l)\<lparr>right := right (nodes m ! h)\<rparr>];
          ns2 = ns1[r := (ns1 ! r)\<lparr>left := left (nodes m ! h)\<rparr>]
      in m\<lparr>nodes := ns2\<rparr>)"

definition relh :: "nat \<Rightarrow> Matrix \<Rightarrow> Matrix" where
  "relh h m =
     (let l = nat (left (nodes m ! h)); r = nat (right (nodes m ! h));
          ns1 = (nodes m)[l := (nodes m ! l)\<lparr>right := int h\<rparr>];
          ns2 = ns1[r := (ns1 ! r)\<lparr>left := int h\<rparr>]
      in m\<lparr>nodes := ns2\<rparr>)"

text \<open>
  The invariant is stated relative to three descriptions of the structure: \<open>rows\<close>, the
  node positions of every inserted row in insertion (left-to-right) order; \<open>hs\<close>, the
  header positions of the uncovered columns in header-list order; and \<open>vl h\<close>, the node
  positions threaded into the vertical list of header \<open>h\<close>, top to bottom.
\<close>

definition wf_arena :: "Matrix \<Rightarrow> bool" where
  "wf_arena m \<longleftrightarrow>
     0 < length (columns m) \<and> length (columns m) < length (nodes m) \<and>
     num_columns m = int (length (columns m)) \<and> column (nodes m ! 0) = -1 \<and>
     (\<forall>h. 1 \<le> h \<and> h \<le> length (columns m) \<longrightarrow> column (nodes m ! h) = int h)"

definition wf_rows :: "Matrix \<Rightarrow> nat list list \<Rightarrow> bool" where
  "wf_rows m rows \<longleftrightarrow>
     distinct (concat rows) \<and>
     (\<forall>R \<in> set rows. R \<noteq> [] \<and>
        chain (\<lambda>i. right (nodes m ! i)) (hd R) (tl R) (hd R) \<and>
        chain (\<lambda>i. left (nodes m ! i)) (hd R) (rev (tl R)) (hd R) \<and>
        distinct (map (\<lambda>x. column (nodes m ! x)) R) \<and>
        (\<forall>x \<in> set R. length (columns m) < x \<and> x < length (nodes m) \<and>
           1 \<le> column (nodes m ! x) \<and> column (nodes m ! x) \<le> int (length (columns m))))"

definition vcol :: "Matrix \<Rightarrow> nat list list \<Rightarrow> nat \<Rightarrow> nat list \<Rightarrow> bool" where
  "vcol m rows h L \<longleftrightarrow>
     chain (\<lambda>i. down (nodes m ! i)) h L h \<and> chain (\<lambda>i. up (nodes m ! i)) h (rev L) h \<and>
     distinct L \<and> (\<forall>x \<in> set L. column (nodes m ! x) = int h \<and> x \<in> set (concat rows)) \<and>
     c_size (columns m ! (h - 1)) = int (length L)"

definition hlist :: "Matrix \<Rightarrow> nat list \<Rightarrow> bool" where
  "hlist m hs \<longleftrightarrow>
     chain (\<lambda>i. right (nodes m ! i)) 0 hs 0 \<and> chain (\<lambda>i. left (nodes m ! i)) 0 (rev hs) 0 \<and>
     sorted_wrt (<) hs \<and> (\<forall>h \<in> set hs. 1 \<le> h \<and> h \<le> length (columns m))"

definition row_live :: "Matrix \<Rightarrow> nat list \<Rightarrow> (nat \<Rightarrow> nat list) \<Rightarrow> nat list \<Rightarrow> bool" where
  "row_live m hs vl R \<longleftrightarrow>
     (\<forall>y \<in> set R. nat (column (nodes m ! y)) \<in> set hs \<and> y \<in> set (vl (nat (column (nodes m ! y)))))"

definition row_dead :: "Matrix \<Rightarrow> nat list \<Rightarrow> (nat \<Rightarrow> nat list) \<Rightarrow> nat list \<Rightarrow> bool" where
  "row_dead m hs vl R \<longleftrightarrow>
     (\<forall>y \<in> set R. nat (column (nodes m ! y)) \<in> set hs \<longrightarrow> y \<notin> set (vl (nat (column (nodes m ! y)))))"

definition dlx_inv :: "Matrix \<Rightarrow> nat list list \<Rightarrow> nat list \<Rightarrow> (nat \<Rightarrow> nat list) \<Rightarrow> bool" where
  "dlx_inv m rows hs vl \<longleftrightarrow>
     wf_arena m \<and> wf_rows m rows \<and> hlist m hs \<and>
     (\<forall>h. 1 \<le> h \<and> h \<le> length (columns m) \<longrightarrow> vcol m rows h (vl h)) \<and>
     (\<forall>R \<in> set rows. row_live m hs vl R \<or> row_dead m hs vl R)"

text \<open>The other nodes of the row of \<open>x\<close>, in the order in which the \<open>right\<close> links visit them from \<open>x\<close>.\<close>

definition others :: "nat list list \<Rightarrow> nat \<Rightarrow> nat list" where
  "others rows x =
     (case filter (\<lambda>R. x \<in> set R) rows of
        [] \<Rightarrow> []
      | R # _ \<Rightarrow> tl (dropWhile (\<lambda>z. z \<noteq> x) R) @ takeWhile (\<lambda>z. z \<noteq> x) R)"

text \<open>The nodes that \<open>cover\<close> of header \<open>h\<close> unlinks, in the order in which it unlinks them.\<close>

definition cover_nodes :: "nat list list \<Rightarrow> (nat \<Rightarrow> nat list) \<Rightarrow> nat \<Rightarrow> nat list" where
  "cover_nodes rows vl h = concat (map (others rows) (vl h))"

definition cover_m :: "nat list list \<Rightarrow> (nat \<Rightarrow> nat list) \<Rightarrow> nat \<Rightarrow> Matrix \<Rightarrow> Matrix" where
  "cover_m rows vl h m = fold unl (cover_nodes rows vl h) (unlh h m)"

text \<open>
  The state of the matrix in the middle of an \<open>add_row\<close> call that has spliced the columns
  \<open>cs\<close> so far, creating the nodes \<open>N0, N0 + 1, \<dots>\<close>: all columns are uncovered, every
  node of every row is threaded into its column, and the new nodes are linked
  left-to-right but not yet closed into a cycle.
\<close>

definition building ::
  "Matrix \<Rightarrow> nat list list \<Rightarrow> (nat \<Rightarrow> nat list) \<Rightarrow> int \<Rightarrow> int list \<Rightarrow> nat \<Rightarrow> bool" where
  "building m rows vl row_id cs N0 \<longleftrightarrow>
     length (nodes m) = N0 + length cs \<and> wf_arena m \<and> wf_rows m rows \<and>
     (\<forall>x \<in> set (concat rows). x < N0) \<and> length (columns m) < N0 \<and>
     hlist m [1 ..< length (columns m) + 1] \<and>
     (\<forall>h. 1 \<le> h \<and> h \<le> length (columns m) \<longrightarrow>
        vcol m (rows @ [[N0 ..< N0 + length cs]]) h (vl h)) \<and>
     (\<forall>R \<in> set rows. \<forall>y \<in> set R. y \<in> set (vl (nat (column (nodes m ! y))))) \<and>
     (\<forall>i < length cs. column (nodes m ! (N0 + i)) = cs ! i + 1 \<and>
        row (nodes m ! (N0 + i)) = row_id \<and> N0 + i \<in> set (vl (nat (cs ! i + 1)))) \<and>
     (\<forall>i. i + 1 < length cs \<longrightarrow>
        right (nodes m ! (N0 + i)) = int (N0 + i + 1) \<and>
        left (nodes m ! (N0 + i + 1)) = int (N0 + i)) \<and>
     distinct cs \<and> (\<forall>c \<in> set cs. 0 \<le> c \<and> c < int (length (columns m)))"

text \<open>The loop state of \<open>add_row\<close> after the columns \<open>cs\<close> have been spliced.\<close>

definition fp_of :: "nat \<Rightarrow> int list \<Rightarrow> (int \<times> int) option" where
  "fp_of N0 cs = (if cs = [] then None else Some (int N0, int (N0 + length cs - 1)))"

text \<open>The two assignments after the loop of \<open>add_row\<close>, which close the row into a cycle.\<close>

definition close_row :: "nat \<Rightarrow> nat \<Rightarrow> Matrix \<Rightarrow> Matrix" where
  "close_row N0 P m =
     (let m1 = m\<lparr>nodes := (nodes m)[P := (nodes m ! P)\<lparr>right := int N0\<rparr>]\<rparr>
      in m1\<lparr>nodes := (nodes m1)[N0 := (nodes m1 ! N0)\<lparr>left := int P\<rparr>]\<rparr>)"

text \<open>
  The node rows of the matrix correspond, in order, to the non-empty rows passed to
  \<open>add_row\<close>: the same columns in the same order, and the row identifier in every node.
\<close>

definition rows_match :: "Matrix \<Rightarrow> nat list list \<Rightarrow> (int \<times> int list) list \<Rightarrow> bool" where
  "rows_match m rows rs \<longleftrightarrow>
     list_all2 (\<lambda>R rc. map (\<lambda>x. column (nodes m ! x)) R = map (\<lambda>c. c + 1) (snd rc) \<and>
                       (\<forall>x \<in> set R. row (nodes m ! x) = fst rc))
       rows (filter (\<lambda>rc. snd rc \<noteq> []) rs)"

text \<open>A matrix as the caller builds it: \<open>create\<close>, then a sequence of \<open>add_row\<close> calls.\<close>

definition build :: "int \<Rightarrow> (int \<times> int list) list \<Rightarrow> error + Matrix" where
  "build n rs = ebind (create n) (add_rows rs)"

text \<open>The precondition of \<open>add_row\<close>: column indices in range and no column twice in a row.\<close>

definition valid_rows :: "int \<Rightarrow> (int \<times> int list) list \<Rightarrow> bool" where
  "valid_rows n rs \<longleftrightarrow>
     (\<forall>rc \<in> set rs. distinct (snd rc) \<and> (\<forall>c \<in> set (snd rc). 0 \<le> c \<and> c < n))"

text \<open>
  The positions met by following a link field \<open>nxt\<close> from \<open>i\<close> until \<open>stop\<close>, as the
  \<open>while\<close> loops of the solver visit them; the third argument bounds the number of steps.
\<close>

fun walk :: "(nat \<Rightarrow> int) \<Rightarrow> int \<Rightarrow> nat \<Rightarrow> int \<Rightarrow> int list" where
  "walk nxt stop 0 i = []"
| "walk nxt stop (Suc f) i = (if i = stop then [] else i # walk nxt stop f (nxt (nat i)))"

text \<open>The header list: the headers reached from the root through \<open>right\<close> links.\<close>

definition header_list :: "Matrix \<Rightarrow> int list" where
  "header_list m = walk (\<lambda>k. right (nodes m ! k)) 0 (length (nodes m)) (right (nodes m ! 0))"


text \<open>Column \<open>c\<close> is uncovered: its header is in the header list.\<close>

definition uncovered :: "Matrix \<Rightarrow> int \<Rightarrow> bool" where
  "uncovered m c \<longleftrightarrow> c + 1 \<in> set (header_list m)"

text \<open>
  The matrix states of the claims about \<open>cover\<close>: a matrix built by \<open>create\<close> and
  \<open>add_row\<close> calls with in-range, duplicate-free column lists, and what any sequence of
  nested \<open>cover\<close> calls, each on a column uncovered at that moment, makes of it.
\<close>

inductive reachable :: "Matrix \<Rightarrow> bool" where
  reachable_built: "build n rs = Inr m \<Longrightarrow> valid_rows n rs \<Longrightarrow> reachable m"
| reachable_cover: "reachable m \<Longrightarrow> uncovered m c \<Longrightarrow> matrix s = m \<Longrightarrow>
                    cover c s = Some (Inr s') \<Longrightarrow> reachable (matrix s')"

text \<open>An example: three columns and the rows \<open>0:[0,1]\<close>, \<open>1:[1,2]\<close>, \<open>2:[0]\<close>.\<close>

abbreviation example_matrix :: Matrix where
  "example_matrix \<equiv> projr (build 3 [(0, [0, 1]), (1, [1, 2]), (2, [0])])"

text \<open>
  One iteration of the loop of \<open>choose_column\<close> at the header at position \<open>x\<close>, on the
  loop state \<open>(min_size, best_col)\<close>.
\<close>

definition pick :: "Matrix \<Rightarrow> nat \<Rightarrow> int option \<times> int option \<Rightarrow> int option \<times> int option" where
  "pick m x mb =
     (if (case fst mb of None \<Rightarrow> True | Some ms \<Rightarrow> c_size (columns m ! (x - 1)) < ms)
      then (Some (c_size (columns m ! (x - 1))), Some (int x - 1)) else mb)"

text \<open>
  A list \<open>e\<close> of row identifiers is an exact cover of the columns with headers \<open>hs\<close>:
  it names, one by one, rows of the matrix whose column fields together contain every
  header of \<open>hs\<close> exactly once and nothing else.
\<close>

definition exact_for :: "Matrix \<Rightarrow> nat list list \<Rightarrow> nat list \<Rightarrow> int list \<Rightarrow> bool" where
  "exact_for m rows hs e \<longleftrightarrow>
     (\<exists>Rs. list_all2 (\<lambda>R rid. R \<in> set rows \<and> (\<exists>x \<in> set R. row (nodes m ! x) = rid)) Rs e \<and>
           distinct (concat (map (map (\<lambda>x. column (nodes m ! x))) Rs)) \<and>
           set (concat (map (map (\<lambda>x. column (nodes m ! x))) Rs)) = int ` set hs)"

text \<open>
  What a call of \<open>search\<close> on the solver \<open>s\<close>, whose matrix has the uncovered headers
  \<open>hs\<close>, is to return: it returns normally, it has appended to \<open>solutions\<close> only
  selections that extend the current one by an exact cover of \<open>hs\<close>, and unless it
  returned \<open>True\<close> in first-solution mode it has restored the matrix and the selection.
\<close>

definition search_post ::
  "nat list list \<Rightarrow> nat list \<Rightarrow> bool \<Rightarrow> DLXSolver \<Rightarrow> (error + bool \<times> DLXSolver) option \<Rightarrow> bool" where
  "search_post rows hs fa s res \<longleftrightarrow>
     (\<exists>b s' new. res = Some (Inr (b, s')) \<and>
        solutions s' = solutions s @ map (\<lambda>e. solution s @ e) new \<and>
        (\<forall>e \<in> set new. exact_for (matrix s) rows hs e) \<and>
        (\<not> (b \<and> \<not> fa) \<longrightarrow> matrix s' = matrix s \<and> solution s' = solution s))"

section \<open>Evaluation at concrete matrices\<close>

text \<open>
  C4 (creation accepts every \<open>numColumns \<ge> 0\<close>, in particular \<open>0\<close>).
  \<open>DancingLinksMatrix(0)\<close> does not return a matrix: after the two (empty) loops the
  constructor assigns \<open>self.nodes[1].left = 0\<close> while \<open>nodes\<close> holds the root only, and
  the assignment raises IndexError.
\<close>

theorem create_zero_raises: "create 0 = Inl IndexError"
  by code_simp

text \<open>
  C1 (the matrix is restored when \<open>solve\<close> returns, also for \<open>find_all = False\<close>).
  Three columns, rows \<open>0:[0,1]\<close> and \<open>1:[2]\<close>: \<open>solve(find_all=False)\<close> returns the
  solution \<open>[0, 1]\<close> through \<open>return True\<close> inside the row loop, above every \<open>uncover\<close>,
  and leaves the matrix with all columns covered (the root's \<open>right\<close> link is the root),
  not in its initial state.
\<close>

theorem solve_first_leaves_matrix_covered:
  "(case create 3 of Inl e \<Rightarrow> False | Inr m0 \<Rightarrow>
    (case add_rows [(0, [0, 1]), (1, [2])] m0 of Inl e \<Rightarrow> False | Inr m \<Rightarrow>
    (case solve 4 False (new_solver m) of
       Some (Inr (sols, s)) \<Rightarrow>
         sols = [[0, 1]] \<and> matrix s \<noteq> m \<and>
         right (nodes m ! 0) = 1 \<and> right (nodes (matrix s) ! 0) = 0
     | _ \<Rightarrow> False)))"
  by code_simp

text \<open>
  C2 (a second \<open>solve\<close> with the same argument returns the same result).
  On the same matrix, the first \<open>solve(find_all=False)\<close> returns \<open>[[0, 1]]\<close> and the
  second one, run on the matrix the first call left covered, returns \<open>[[]]\<close>.
\<close>

theorem solve_first_twice_differs:
  "(case create 3 of Inl e \<Rightarrow> False | Inr m0 \<Rightarrow>
    (case add_rows [(0, [0, 1]), (1, [2])] m0 of Inl e \<Rightarrow> False | Inr m \<Rightarrow>
    (case solve 4 False (new_solver m) of
       Some (Inr (sols, s)) \<Rightarrow>
         sols = [[0, 1]] \<and>
         (case solve 4 False s of
            Some (Inr (sols', s')) \<Rightarrow> sols' = [[]] \<and> sols' \<noteq> sols
          | _ \<Rightarrow> False)
     | _ \<Rightarrow> False)))"
  by code_simp

lemma ebind_simps [simp]: "ebind (Inr x) f = f x" "ebind (Inl e) f = Inl e"
  by (simp_all add: ebind_def)

lemma py_index_nonneg: "0 \<le> i \<Longrightarrow> i < int (length xs) \<Longrightarrow> py_index xs i = Some (nat i)"
  by (simp add: py_index_def)

lemma py_index_neg: "i < 0 \<Longrightarrow> - int (length xs) \<le> i \<Longrightarrow> py_index xs i = Some (nat (int (length xs) + i))"
  by (simp add: py_index_def)

lemma py_index_None: "i < - int (length xs) \<or> int (length xs) \<le> i \<Longrightarrow> py_index xs i = None"
  by (auto simp add: py_index_def)

lemma py_index_less: "py_index xs i = Some k \<Longrightarrow> k < length xs"
  by (auto simp add: py_index_def split: if_splits)

lemma nodes_set_nonneg:
  "0 \<le> i \<Longrightarrow> i < int (length (nodes m)) \<Longrightarrow>
   nodes_set i f m = Inr (m\<lparr>nodes := (nodes m)[nat i := f (nodes m ! nat i)]\<rparr>)"
  by (simp add: nodes_set_def py_index_nonneg)

lemma nodes_get_nonneg:
  "0 \<le> i \<Longrightarrow> i < int (length (nodes m)) \<Longrightarrow> nodes_get m i = Inr (nodes m ! nat i)"
  by (simp add: nodes_get_def py_index_nonneg)

lemma columns_get_nonneg:
  "0 \<le> i \<Longrightarrow> i < int (length (columns m)) \<Longrightarrow> columns_get m i = Inr (columns m ! nat i)"
  by (simp add: columns_get_def py_index_nonneg)

lemma columns_set_nonneg:
  "0 \<le> i \<Longrightarrow> i < int (length (columns m)) \<Longrightarrow>
   columns_set i f m = Inr (m\<lparr>columns := (columns m)[nat i := f (columns m ! nat i)]\<rparr>)"
  by (simp add: columns_set_def py_index_nonneg)

lemma efold_append: "efold f (xs @ ys) s = ebind (efold f xs s) (efold f ys)"
  by (induction xs arbitrary: s) (auto simp: ebind_def split: sum.splits)

lemma fold_add_header:
  "fold add_header [0 ..< k] \<lparr>num_columns = n, nodes = [new_node], columns = [], header_idx = 0\<rparr>
   = \<lparr>num_columns = n,
      nodes = new_node # map (\<lambda>j. new_node\<lparr>column := int j + 1, row := -1\<rparr>) [0 ..< k],
      columns = map (\<lambda>i. new_column\<lparr>c_name := int i\<rparr>) [0 ..< k], header_idx = 0\<rparr>"
  by (induction k) (simp_all add: add_header_def)

lemma link_header_nat:
  assumes "Suc i < length (nodes m)" "0 < n" "int i < n"
  shows "link_header n i m =
    Inr (m\<lparr>columns := (columns m)[i := (columns m ! i)
              \<lparr>c_left := hdr_left n i, c_right := hdr_right n i, c_first := int i + 1\<rparr>],
           nodes := (nodes m)[Suc i := (nodes m ! Suc i)
              \<lparr>left := hdr_left n i, right := hdr_right n i, up := int i + 1, down := int i + 1\<rparr>]\<rparr>)"
proof -
  have l: "(if int i > 0 then (int i - 1) mod n + 1 else n) = hdr_left n i"
    using assms by (auto simp: hdr_left_def)
  have r: "(if int i < n - 1 then (int i + 1) mod n + 1 else 1) = hdr_right n i"
    using assms by (auto simp: hdr_right_def)
  have nat: "nat (int i + 1) = Suc i" by simp
  show ?thesis
    unfolding link_header_def l r Let_def using assms(1)
    by (simp add: nodes_set_nonneg nat)
qed

lemma efold_link_header:
  assumes "j \<le> k" "int k = n"
  shows "efold (link_header n) [0 ..< j] (linked_prefix n k 0) = Inr (linked_prefix n k j)"
  using assms(1)
proof (induction j)
  case 0
  then show ?case by simp
next
  case (Suc j)
  then have j: "j < k" by simp
  have step: "link_header n j (linked_prefix n k j) = Inr (linked_prefix n k (Suc j))"
  proof -
    have "link_header n j (linked_prefix n k j) = Inr ((linked_prefix n k j)\<lparr>columns := (columns (linked_prefix n k j))[j := (columns (linked_prefix n k j) ! j)
              \<lparr>c_left := hdr_left n j, c_right := hdr_right n j, c_first := int j + 1\<rparr>],
           nodes := (nodes (linked_prefix n k j))[Suc j := (nodes (linked_prefix n k j) ! Suc j)
              \<lparr>left := hdr_left n j, right := hdr_right n j, up := int j + 1, down := int j + 1\<rparr>]\<rparr>)"
      using j assms(2) by (intro link_header_nat) (auto simp: linked_prefix_def)
    also have "\<dots> = Inr (linked_prefix n k (Suc j))"
      using j
      by (auto simp: linked_prefix_def new_node_def new_column_def intro!: nth_equalityI simp: nth_list_update less_Suc_eq nth_Cons')
    finally show ?thesis .
  qed
  show ?case using Suc j by (simp add: efold_append step)
qed

lemma create_pos:
  assumes "0 < n"
  shows "create n = Inr (init_matrix (nat n))"
proof -
  define k where "k = nat n"
  have kn: "int k = n" "0 < k" using assms by (simp_all add: k_def)
  have natn: "nat n = k" by (simp add: k_def)
  have m1: "fold add_header [0 ..< k] \<lparr>num_columns = n, nodes = [new_node], columns = [], header_idx = 0\<rparr>
      = linked_prefix n k 0"
    by (simp add: fold_add_header linked_prefix_def)
  have len: "length (columns (linked_prefix n k 0)) = k" by (simp add: linked_prefix_def)
  define L where "L = linked_prefix n k k"
  have lnodes: "length (nodes L) = Suc k" by (simp add: linked_prefix_def L_def)
  have e: "efold (link_header n) [0 ..< k] (linked_prefix n k 0) = Inr L"
    unfolding L_def using kn by (intro efold_link_header) simp_all
  have s1: "nodes_set 0 (\<lambda>x. x\<lparr>right := 1\<rparr>) L = Inr (L\<lparr>nodes := (nodes L)[0 := (nodes L ! 0)\<lparr>right := 1\<rparr>]\<rparr>)"
    using lnodes by (simp add: nodes_set_def py_index_def)
  have s2: "nodes_set 0 (\<lambda>x. x\<lparr>left := n\<rparr>) (L\<lparr>nodes := (nodes L)[0 := (nodes L ! 0)\<lparr>right := 1\<rparr>]\<rparr>)
       = Inr (L\<lparr>nodes := (nodes L)[0 := (nodes L ! 0)\<lparr>right := 1, left := n\<rparr>]\<rparr>)"
    using lnodes by (simp add: nodes_set_def py_index_def)
  have s3: "nodes_set 1 (\<lambda>x. x\<lparr>left := 0\<rparr>) (L\<lparr>nodes := (nodes L)[0 := (nodes L ! 0)\<lparr>right := 1, left := n\<rparr>]\<rparr>)
       = Inr (fix_root n L)"
    using lnodes kn by (simp add: nodes_set_def py_index_def fix_root_def)
  have lfr: "length (nodes (fix_root n L)) = Suc k" using lnodes by (simp add: fix_root_def)
  have s4: "nodes_set n (\<lambda>x. x\<lparr>right := 0\<rparr>) (fix_root n L) = Inr (fix_last k (fix_root n L))"
    using lfr kn by (simp add: nodes_set_def py_index_def fix_last_def natn)
  have im: "init_matrix k = fix_last k (fix_root n L)"
    by (simp add: init_matrix_def L_def kn)
  show ?thesis
    unfolding create_def Let_def natn m1 len e im
    by (simp add: s1 s2 s3 s4)
qed

lemma create_nonpos:
  assumes "n \<le> 0"
  shows "create n = Inl IndexError"
proof -
  have "nat n = 0" using assms by simp
  then show ?thesis
    by (simp add: create_def nodes_set_def py_index_def)
qed

lemma linked_prefix_lengths [simp]:
  "length (nodes (linked_prefix n k j)) = Suc k" "length (columns (linked_prefix n k j)) = k"
  "num_columns (linked_prefix n k j) = n"
  by (simp_all add: linked_prefix_def)

lemma init_matrix_lengths [simp]:
  "length (nodes (init_matrix k)) = Suc k" "length (columns (init_matrix k)) = k"
  "num_columns (init_matrix k) = int k"
  by (simp_all add: init_matrix_def fix_last_def fix_root_def)

lemma linked_prefix_root: "nodes (linked_prefix n k j) ! 0 = new_node"
  by (simp add: linked_prefix_def)

lemma init_matrix_root:
  "0 < k \<Longrightarrow> nodes (init_matrix k) ! 0 = \<lparr>left = int k, right = 1, up = -1, down = -1, column = -1, row = -1\<rparr>"
  by (simp add: init_matrix_def fix_last_def fix_root_def linked_prefix_root new_node_def nth_list_update)

lemma init_matrix_header:
  assumes "j < k"
  shows "nodes (init_matrix k) ! Suc j =
     \<lparr>left = int j, right = (if Suc j = k then 0 else int j + 2),
      up = int j + 1, down = int j + 1, column = int j + 1, row = -1\<rparr>"
proof -
  have a: "nodes (linked_prefix (int k) k k) ! Suc j =
     \<lparr>left = hdr_left (int k) j, right = hdr_right (int k) j,
      up = int j + 1, down = int j + 1, column = int j + 1, row = -1\<rparr>"
    using assms by (simp add: linked_prefix_def)
  have l: "length (nodes (linked_prefix (int k) k k)) = Suc k" by simp
  show ?thesis
  proof (cases "j = 0")
    case True
    then show ?thesis using assms a l
      by (simp add: init_matrix_def fix_last_def fix_root_def nth_list_update hdr_right_def hdr_left_def)
  next
    case False
    then show ?thesis using assms a l
      by (auto simp add: init_matrix_def fix_last_def fix_root_def nth_list_update hdr_right_def hdr_left_def)
  qed
qed

lemma linked_prefix_sizes: "i < k \<Longrightarrow> c_size (columns (linked_prefix n k k) ! i) = 0"
  by (simp add: linked_prefix_def)

lemma init_matrix_sizes: "i < k \<Longrightarrow> c_size (columns (init_matrix k) ! i) = 0"
  by (simp add: init_matrix_def fix_last_def fix_root_def linked_prefix_sizes)

lemma py_index_ex:
  "- int (length xs) \<le> i \<Longrightarrow> i < int (length xs) \<Longrightarrow> \<exists>k < length xs. py_index xs i = Some k"
  by (auto simp: py_index_def)

lemma py_index_col_pos:
  "- int (length xs) \<le> c \<Longrightarrow> c < int (length xs) \<Longrightarrow>
   py_index xs c = Some (col_pos (int (length xs)) c) \<and> col_pos (int (length xs)) c < length xs"
  by (auto simp: py_index_def col_pos_def)

lemma nodes_set_ex:
  "- int (length (nodes m)) \<le> i \<Longrightarrow> i < int (length (nodes m)) \<Longrightarrow>
   \<exists>k < length (nodes m). nodes_set i f m = Inr (m\<lparr>nodes := (nodes m)[k := f (nodes m ! k)]\<rparr>)"
  using py_index_ex[of "nodes m" i] by (auto simp: nodes_set_def)

lemma nodes_get_ex:
  "- int (length (nodes m)) \<le> i \<Longrightarrow> i < int (length (nodes m)) \<Longrightarrow>
   \<exists>k < length (nodes m). nodes_get m i = Inr (nodes m ! k)"
  using py_index_ex[of "nodes m" i] by (auto simp: nodes_get_def)

lemma ups_ok_update:
  "ups_ok xs \<Longrightarrow> -1 \<le> up v \<Longrightarrow> up v < int (length xs) \<Longrightarrow> ups_ok (xs[k := v])"
  by (cases "k < length xs") (auto simp: ups_ok_def nth_list_update)

lemma ups_ok_append:
  "ups_ok xs \<Longrightarrow> up v = -1 \<Longrightarrow> ups_ok (xs @ [v])"
  by (auto simp: ups_ok_def nth_append)

lemma ups_ok_nth: "ups_ok xs \<Longrightarrow> i < length xs \<Longrightarrow> -1 \<le> up (xs ! i) \<and> up (xs ! i) < int (length xs)"
  by (simp add: ups_ok_def)

lemma arena_ok_append_node: "arena_ok m \<Longrightarrow> arena_ok (append_node row_id c m)"
  by (auto simp: arena_ok_def append_node_def new_node_def intro!: ups_ok_append)

lemma add_row_node_out_of_range:
  assumes "c < - int (length (columns m)) \<or> int (length (columns m)) \<le> c"
  shows "add_row_node row_id c fp m = (Inl IndexError, append_node row_id c m)"
  using assms by (simp add: add_row_node_def Let_def py_index_None append_node_def)

lemma add_row_node_in_range:
  assumes ok: "arena_ok m"
    and c: "- num_columns m \<le> c" "c < num_columns m"
    and fp: "case fp of None \<Rightarrow> True | Some (f, p) \<Rightarrow> 0 \<le> p \<and> p < int (length (nodes m))"
  shows "\<exists>m'. add_row_node row_id c fp m =
            (Inr (Some (case fp of None \<Rightarrow> int (length (nodes m)) | Some (f, p) \<Rightarrow> f,
                        int (length (nodes m)))), m') \<and>
          arena_ok m' \<and> length (nodes m') = Suc (length (nodes m)) \<and>
          num_columns m' = num_columns m \<and>
          map c_size (columns m') =
            (map c_size (columns m))[col_pos (num_columns m) c :=
               c_size (columns m ! col_pos (num_columns m) c) + 1]"
proof -
  define N where "N = length (nodes m)"
  define n where "n = length (columns m)"
  have nn: "num_columns m = int n" "0 < n" "n < N" and ups: "ups_ok (nodes m)"
    using ok by (simp_all add: arena_ok_def n_def N_def)
  define m1 where "m1 = append_node row_id c m"
  have m1: "length (nodes m1) = Suc N" "columns m1 = columns m" "num_columns m1 = num_columns m"
    "ups_ok (nodes m1)" "nodes m1 ! N = new_node\<lparr>column := c + 1, row := row_id\<rparr>"
    using ups by (simp_all add: m1_def append_node_def N_def ups_ok_append new_node_def)
  have ci: "py_index (columns m1) c = Some (col_pos (int n) c)" "col_pos (int n) c < n"
    using py_index_col_pos[of "columns m" c] c nn by (simp_all add: m1 n_def)
  obtain hi where hi: "hi < Suc N" "nodes_get m1 (c + 1) = Inr (nodes m1 ! hi)"
    using nodes_get_ex[of m1 "c + 1"] c nn m1 by auto
  define lst where "lst = up (nodes m1 ! hi)"
  have lst: "-1 \<le> lst" "lst < int (Suc N)"
    using ups_ok_nth[OF m1(4), of hi] hi m1 by (simp_all add: lst_def)
  define m2 where "m2 = m1\<lparr>nodes := (nodes m1)[N := (nodes m1 ! N)\<lparr>up := lst, down := c + 1\<rparr>]\<rparr>"
  have m2: "length (nodes m2) = Suc N" "columns m2 = columns m" "num_columns m2 = num_columns m"
    "ups_ok (nodes m2)"
    using m1 lst by (simp_all add: m2_def ups_ok_update)
  obtain li where li: "li < Suc N"
    "nodes_set lst (\<lambda>x. x\<lparr>down := int N\<rparr>) m2 = Inr (m2\<lparr>nodes := (nodes m2)[li := (nodes m2 ! li)\<lparr>down := int N\<rparr>]\<rparr>)"
    using nodes_set_ex[of m2 lst] lst m2 by auto
  define m3 where "m3 = m2\<lparr>nodes := (nodes m2)[li := (nodes m2 ! li)\<lparr>down := int N\<rparr>]\<rparr>"
  have m3: "length (nodes m3) = Suc N" "columns m3 = columns m" "num_columns m3 = num_columns m"
    "ups_ok (nodes m3)"
    using m2 li ups_ok_nth[OF m2(4), of li] by (simp_all add: m3_def ups_ok_update)
  obtain hj where hj: "hj < Suc N"
    "nodes_set (c + 1) (\<lambda>x. x\<lparr>up := int N\<rparr>) m3 = Inr (m3\<lparr>nodes := (nodes m3)[hj := (nodes m3 ! hj)\<lparr>up := int N\<rparr>]\<rparr>)"
    using nodes_set_ex[of m3 "c + 1"] c nn m3 by auto
  define m4 where "m4 = m3\<lparr>nodes := (nodes m3)[hj := (nodes m3 ! hj)\<lparr>up := int N\<rparr>]\<rparr>"
  have m4: "length (nodes m4) = Suc N" "columns m4 = columns m" "num_columns m4 = num_columns m"
    "ups_ok (nodes m4)"
    using m3 hj by (simp_all add: m4_def ups_ok_update)
  define m5 where "m5 = m4\<lparr>columns := (columns m4)[col_pos (int n) c :=
       (columns m4 ! col_pos (int n) c)\<lparr>c_size := c_size (columns m4 ! col_pos (int n) c) + 1\<rparr>]\<rparr>"
  have m5: "length (nodes m5) = Suc N" "length (columns m5) = n" "num_columns m5 = num_columns m"
    "ups_ok (nodes m5)"
    "map c_size (columns m5) = (map c_size (columns m))[col_pos (int n) c :=
               c_size (columns m ! col_pos (int n) c) + 1]"
    using m4 ci by (simp_all add: m5_def n_def map_update)
  have ok5: "arena_ok m5" using m5 nn by (simp add: arena_ok_def)
  have li': "nodes_set lst (\<lambda>x. x\<lparr>down := int N\<rparr>) m2 = Inr m3"
    using li by (simp add: m3_def)
  have hj': "nodes_set (c + 1) (\<lambda>x. x\<lparr>up := int N\<rparr>) m3 = Inr m4"
    using hj by (simp add: m4_def)
  have unf: "add_row_node row_id c fp m =
     (case fp of
        None \<Rightarrow> (Inr (Some (int N, int N)), m5)
      | Some (first_node_idx, prev_node_idx) \<Rightarrow>
          (case nodes_set prev_node_idx (\<lambda>x. x\<lparr>right := int N\<rparr>) m5 of
             Inl e \<Rightarrow> (Inl e, m5)
           | Inr m6 \<Rightarrow>
               (Inr (Some (first_node_idx, int N)),
                m6\<lparr>nodes := (nodes m6)[N := (nodes m6 ! N)\<lparr>left := prev_node_idx\<rparr>]\<rparr>)))"
    unfolding add_row_node_def Let_def N_def[symmetric] append_node_def[symmetric]
      m1_def[symmetric] ci(1) option.case hi(2) sum.case lst_def[symmetric] m2_def[symmetric]
      li' hj' m5_def[symmetric]
    by (rule refl)
  show ?thesis
  proof (cases fp)
    case None
    have "add_row_node row_id c fp m = (Inr (Some (int N, int N)), m5)"
      using unf None by simp
    then show ?thesis using None ok5 m5 by (simp add: N_def nn)
  next
    case (Some a)
    obtain f p where a: "a = (f, p)" by (cases a)
    have p: "0 \<le> p" "p < int N" using fp Some a by (simp_all add: N_def)
    define m6 where "m6 = m5\<lparr>nodes := (nodes m5)[nat p := (nodes m5 ! nat p)\<lparr>right := int N\<rparr>]\<rparr>"
    have s6: "nodes_set p (\<lambda>x. x\<lparr>right := int N\<rparr>) m5 = Inr m6"
      using p m5 by (simp add: nodes_set_nonneg m6_def)
    have m6: "length (nodes m6) = Suc N" "columns m6 = columns m5" "num_columns m6 = num_columns m"
      "ups_ok (nodes m6)"
      using m5 p ups_ok_nth[OF m5(4), of "nat p"] by (simp_all add: m6_def ups_ok_update)
    define m7 where "m7 = m6\<lparr>nodes := (nodes m6)[N := (nodes m6 ! N)\<lparr>left := p\<rparr>]\<rparr>"
    have m7: "length (nodes m7) = Suc N" "columns m7 = columns m5" "num_columns m7 = num_columns m"
      "ups_ok (nodes m7)"
      using m6 ups_ok_nth[OF m6(4), of N] by (simp_all add: m7_def ups_ok_update)
    have ok7: "arena_ok m7" using m7 m5 nn by (simp add: arena_ok_def)
    have "add_row_node row_id c fp m = (Inr (Some (f, int N)), m7)"
      using unf Some a by (simp add: s6 m7_def)
    then show ?thesis using ok7 m7 m5 Some a by (simp add: N_def nn)
  qed
qed

lemma add_row_node_step:
  assumes ok: "arena_ok m" and c: "in_range (num_columns m) c" and fp: "fp_ok m fp"
  shows "\<exists>m' fp'. add_row_node row_id c fp m = (Inr (Some fp'), m') \<and>
          arena_ok m' \<and> fp_ok m' (Some fp') \<and> length (nodes m') = Suc (length (nodes m)) \<and>
          num_columns m' = num_columns m \<and>
          map c_size (columns m') = bump (num_columns m) c (map c_size (columns m))"
proof -
  have fp': "case fp of None \<Rightarrow> True | Some (f, p) \<Rightarrow> 0 \<le> p \<and> p < int (length (nodes m))"
    using fp by (auto simp: fp_ok_def split: option.splits)
  have cp: "col_pos (num_columns m) c < length (columns m)"
    using ok c by (auto simp: arena_ok_def in_range_def col_pos_def)
  obtain m' where m': "add_row_node row_id c fp m =
            (Inr (Some (case fp of None \<Rightarrow> int (length (nodes m)) | Some (f, p) \<Rightarrow> f,
                        int (length (nodes m)))), m')"
     "arena_ok m'" "length (nodes m') = Suc (length (nodes m))"
     "num_columns m' = num_columns m"
     "map c_size (columns m') =
            (map c_size (columns m))[col_pos (num_columns m) c :=
               c_size (columns m ! col_pos (num_columns m) c) + 1]"
    using add_row_node_in_range[OF ok _ _ fp', of c row_id] c by (auto simp: in_range_def)
  have "fp_ok m' (Some (case fp of None \<Rightarrow> int (length (nodes m)) | Some (f, p) \<Rightarrow> f,
                        int (length (nodes m))))"
    using fp m'(3) by (auto simp: fp_ok_def split: option.splits)
  moreover have "map c_size (columns m') = bump (num_columns m) c (map c_size (columns m))"
    using m'(5) cp by (simp add: bump_def)
  ultimately show ?thesis using m' by blast
qed

lemma add_row_loop_result:
  assumes "arena_ok m" "fp_ok m fp"
  shows "\<exists>r m'. add_row_loop row_id cols fp m = (r, m') \<and> arena_ok m' \<and>
           num_columns m' = num_columns m \<and>
           (if \<forall>c \<in> set cols. in_range (num_columns m) c
            then (\<exists>fp'. r = Inr fp' \<and> fp_ok m' fp' \<and> (cols \<noteq> [] \<longrightarrow> fp' \<noteq> None) \<and>
                    length (nodes m') = length (nodes m) + length cols \<and>
                    map c_size (columns m') = fold (bump (num_columns m)) cols (map c_size (columns m)))
            else r = Inl IndexError \<and>
                 length (nodes m') =
                   length (nodes m) + length (takeWhile (in_range (num_columns m)) cols) + 1)"
  using assms
proof (induction cols arbitrary: m fp)
  case Nil
  then show ?case by simp
next
  case (Cons c cs)
  show ?case
  proof (cases "in_range (num_columns m) c")
    case True
    obtain m1 fp1 where s: "add_row_node row_id c fp m = (Inr (Some fp1), m1)"
      "arena_ok m1" "fp_ok m1 (Some fp1)" "length (nodes m1) = Suc (length (nodes m))"
      "num_columns m1 = num_columns m"
      "map c_size (columns m1) = bump (num_columns m) c (map c_size (columns m))"
      using add_row_node_step[OF Cons.prems(1) True Cons.prems(2)] by blast
    obtain r m' where ih: "add_row_loop row_id cs (Some fp1) m1 = (r, m')" "arena_ok m'"
      "num_columns m' = num_columns m1"
      "(if \<forall>c \<in> set cs. in_range (num_columns m1) c
            then (\<exists>fp'. r = Inr fp' \<and> fp_ok m' fp' \<and> (cs \<noteq> [] \<longrightarrow> fp' \<noteq> None) \<and>
                    length (nodes m') = length (nodes m1) + length cs \<and>
                    map c_size (columns m') = fold (bump (num_columns m1)) cs (map c_size (columns m1)))
            else r = Inl IndexError \<and>
                 length (nodes m') =
                   length (nodes m1) + length (takeWhile (in_range (num_columns m1)) cs) + 1)"
      using Cons.IH[OF s(2) s(3)] by blast
    have loop: "add_row_loop row_id (c # cs) fp m = (r, m')"
      using s(1) ih(1) by simp
    show ?thesis
    proof (cases "\<forall>c \<in> set cs. in_range (num_columns m) c")
      case all: True
      then obtain fp' where "r = Inr fp'" "fp_ok m' fp'" "cs \<noteq> [] \<longrightarrow> fp' \<noteq> None"
        "length (nodes m') = length (nodes m1) + length cs"
        "map c_size (columns m') = fold (bump (num_columns m1)) cs (map c_size (columns m1))"
        using ih(4) s(5) by auto
      moreover have "fp' \<noteq> None"
      proof (cases cs)
        case Nil
        then show ?thesis using ih(1) \<open>r = Inr fp'\<close> by auto
      next
        case (Cons a list)
        then show ?thesis using \<open>cs \<noteq> [] \<longrightarrow> fp' \<noteq> None\<close> by simp
      qed
      ultimately show ?thesis
        using loop ih(2,3) s(4,5,6) all True by simp
    next
      case False
      then show ?thesis
        using loop ih(2,3,4) s(4,5) True by simp
    qed
  next
    case False
    have "c < - int (length (columns m)) \<or> int (length (columns m)) \<le> c"
      using False Cons.prems(1) by (auto simp: in_range_def arena_ok_def)
    then have "add_row_node row_id c fp m = (Inl IndexError, append_node row_id c m)"
      by (rule add_row_node_out_of_range)
    then have "add_row_loop row_id (c # cs) fp m = (Inl IndexError, append_node row_id c m)"
      by simp
    moreover have "arena_ok (append_node row_id c m)"
      using Cons.prems(1) by (rule arena_ok_append_node)
    ultimately show ?thesis using False by (simp add: append_node_def)
  qed
qed

lemma add_row_result:
  assumes ok: "arena_ok m"
  shows "\<exists>r m'. add_row row_id cols m = (r, m') \<and> arena_ok m' \<and>
           num_columns m' = num_columns m \<and>
           (if \<forall>c \<in> set cols. in_range (num_columns m) c
            then r = None \<and> length (nodes m') = length (nodes m) + length cols \<and>
                 map c_size (columns m') = fold (bump (num_columns m)) cols (map c_size (columns m))
            else r = Some IndexError \<and>
                 length (nodes m') =
                   length (nodes m) + length (takeWhile (in_range (num_columns m)) cols) + 1)"
proof (cases "cols = []")
  case True
  then show ?thesis using ok by (simp add: add_row_def)
next
  case ne: False
  have fp0: "fp_ok m None" by (simp add: fp_ok_def)
  obtain r m1 where l: "add_row_loop row_id cols None m = (r, m1)" "arena_ok m1"
    "num_columns m1 = num_columns m"
    "(if \<forall>c \<in> set cols. in_range (num_columns m) c
            then (\<exists>fp'. r = Inr fp' \<and> fp_ok m1 fp' \<and> (cols \<noteq> [] \<longrightarrow> fp' \<noteq> None) \<and>
                    length (nodes m1) = length (nodes m) + length cols \<and>
                    map c_size (columns m1) = fold (bump (num_columns m)) cols (map c_size (columns m)))
            else r = Inl IndexError \<and>
                 length (nodes m1) =
                   length (nodes m) + length (takeWhile (in_range (num_columns m)) cols) + 1)"
    using add_row_loop_result[OF ok fp0, of row_id cols] by blast
  show ?thesis
  proof (cases "\<forall>c \<in> set cols. in_range (num_columns m) c")
    case True
    then obtain f p where r: "r = Inr (Some (f, p))" and fp: "fp_ok m1 (Some (f, p))"
      and len: "length (nodes m1) = length (nodes m) + length cols"
      and sz: "map c_size (columns m1) = fold (bump (num_columns m)) cols (map c_size (columns m))"
      using l(4) ne by auto
    have f: "0 \<le> f" "f < int (length (nodes m1))" and p: "0 \<le> p" "p < int (length (nodes m1))"
      using fp by (simp_all add: fp_ok_def)
    define m2 where "m2 = m1\<lparr>nodes := (nodes m1)[nat p := (nodes m1 ! nat p)\<lparr>right := f\<rparr>]\<rparr>"
    define m3 where "m3 = m2\<lparr>nodes := (nodes m2)[nat f := (nodes m2 ! nat f)\<lparr>left := p\<rparr>]\<rparr>"
    have s2: "nodes_set p (\<lambda>x. x\<lparr>right := f\<rparr>) m1 = Inr m2"
      using p by (simp add: nodes_set_nonneg m2_def)
    have l2: "length (nodes m2) = length (nodes m1)" by (simp add: m2_def)
    have s3: "nodes_set f (\<lambda>x. x\<lparr>left := p\<rparr>) m2 = Inr m3"
      using f l2 by (simp add: nodes_set_nonneg m3_def)
    have ups1: "ups_ok (nodes m1)" using l(2) by (simp add: arena_ok_def)
    have ups2: "ups_ok (nodes m2)"
      unfolding m2_def using ups1 p ups_ok_nth[OF ups1, of "nat p"] by (simp add: ups_ok_update)
    have ups3: "ups_ok (nodes m3)"
      unfolding m3_def using ups2 f l2 ups_ok_nth[OF ups2, of "nat f"] by (simp add: ups_ok_update)
    have ok3: "arena_ok m3"
      using l(2) ups3 by (simp add: arena_ok_def m3_def m2_def)
    have "add_row row_id cols m = (None, m3)"
      using ne l(1) r s2 s3 by (simp add: add_row_def)
    then show ?thesis
      using True ok3 len sz l(3) by (simp add: m3_def m2_def)
  next
    case False
    then have "add_row row_id cols m = (Some IndexError, m1)"
      using ne l(1) l(4) by (simp add: add_row_def)
    then show ?thesis using False l by simp
  qed
qed

lemma fold_bump_nth:
  assumes "\<forall>c \<in> set cols. col_pos n c < length szs" "j < length szs"
  shows "fold (bump n) cols szs ! j = szs ! j + int (length (filter (\<lambda>c. col_pos n c = j) cols))"
  using assms
proof (induction cols arbitrary: szs)
  case Nil
  then show ?case by simp
next
  case (Cons c cs)
  have len: "length (bump n c szs) = length szs" by (simp add: bump_def)
  have "fold (bump n) cs (bump n c szs) ! j =
          bump n c szs ! j + int (length (filter (\<lambda>c. col_pos n c = j) cs))"
    using Cons.IH[of "bump n c szs"] Cons.prems len by simp
  moreover have "bump n c szs ! j = szs ! j + (if col_pos n c = j then 1 else 0)"
    using Cons.prems by (simp add: bump_def nth_list_update)
  ultimately show ?case by simp
qed

lemma py_index_py_pos:
  "- int (length xs) \<le> i \<Longrightarrow> i < int (length xs) \<Longrightarrow>
   py_index xs i = Some (py_pos (length xs) i) \<and> py_pos (length xs) i < length xs"
  by (auto simp: py_index_def py_pos_def)

lemma add_row_node_spliced:
  assumes ok: "arena_ok m"
    and c: "- num_columns m \<le> c" "c < num_columns m"
    and first: "first \<le> length (nodes m)"
    and fp: "fp = (if first < length (nodes m)
                   then Some (int first, int (length (nodes m)) - 1) else None)"
  shows "\<exists>m'. add_row_node row_id c fp m = (Inr (Some (int first, int (length (nodes m)))), m') \<and>
          spliced_node row_id c first m m'"
proof -
  define N where "N = length (nodes m)"
  define n where "n = length (columns m)"
  have nn: "num_columns m = int n" "0 < n" "n < N" and ups: "ups_ok (nodes m)"
    using ok by (simp_all add: arena_ok_def n_def N_def)
  define m1 where "m1 = append_node row_id c m"
  have m1: "length (nodes m1) = Suc N" "columns m1 = columns m"
    by (simp_all add: m1_def append_node_def N_def)
  define j where "j = py_pos n c"
  have ci: "py_index (columns m1) c = Some j" "j < n"
    using py_index_py_pos[of "columns m" c] c nn by (simp_all add: m1 n_def j_def)
  define H where "H = py_pos (Suc N) (c + 1)"
  have Hi: "py_index (nodes m1) (c + 1) = Some H" "H < Suc N"
    using py_index_py_pos[of "nodes m1" "c + 1"] c nn by (simp_all add: m1 H_def)
  have hg: "nodes_get m1 (c + 1) = Inr (nodes m1 ! H)"
    by (simp add: nodes_get_def Hi)
  define u where "u = (if H = N then -1 else up (nodes m ! H))"
  have uph: "up (nodes m1 ! H) = u"
    using Hi(2) by (simp add: m1_def append_node_def nth_append N_def u_def new_node_def)
  have ub: "-1 \<le> u" "u < int N"
    using ups_ok_nth[OF ups, of H] Hi(2) nn by (auto simp: u_def N_def)
  define m2 where "m2 = m1\<lparr>nodes := (nodes m1)[N := (nodes m1 ! N)\<lparr>up := u, down := c + 1\<rparr>]\<rparr>"
  define L where "L = py_pos (Suc N) u"
  have Li: "py_index (nodes m2) u = Some L" "L < Suc N"
    using py_index_py_pos[of "nodes m2" u] ub by (simp_all add: m2_def m1 L_def)
  define m3 where "m3 = m2\<lparr>nodes := (nodes m2)[L := (nodes m2 ! L)\<lparr>down := int N\<rparr>]\<rparr>"
  have s3: "nodes_set u (\<lambda>x. x\<lparr>down := int N\<rparr>) m2 = Inr m3"
    by (simp add: nodes_set_def Li m3_def)
  define m4 where "m4 = m3\<lparr>nodes := (nodes m3)[H := (nodes m3 ! H)\<lparr>up := int N\<rparr>]\<rparr>"
  have Hi3: "py_index (nodes m3) (c + 1) = Some H"
    using py_index_py_pos[of "nodes m3" "c + 1"] c nn by (simp add: m3_def m2_def m1 H_def)
  have s4: "nodes_set (c + 1) (\<lambda>x. x\<lparr>up := int N\<rparr>) m3 = Inr m4"
    by (simp add: nodes_set_def Hi3 m4_def)
  define m5 where "m5 = m4\<lparr>columns := (columns m4)[j :=
       (columns m4 ! j)\<lparr>c_size := c_size (columns m4 ! j) + 1\<rparr>]\<rparr>"
  have unf: "add_row_node row_id c fp m =
     (case fp of
        None \<Rightarrow> (Inr (Some (int N, int N)), m5)
      | Some (first_node_idx, prev_node_idx) \<Rightarrow>
          (case nodes_set prev_node_idx (\<lambda>x. x\<lparr>right := int N\<rparr>) m5 of
             Inl e \<Rightarrow> (Inl e, m5)
           | Inr m6 \<Rightarrow>
               (Inr (Some (first_node_idx, int N)),
                m6\<lparr>nodes := (nodes m6)[N := (nodes m6 ! N)\<lparr>left := prev_node_idx\<rparr>]\<rparr>)))"
    unfolding add_row_node_def Let_def N_def[symmetric] append_node_def[symmetric]
      m1_def[symmetric] ci(1) option.case hg sum.case uph m2_def[symmetric]
      s3 s4 m5_def[symmetric]
    by (rule refl)
  have LN: "L = (if u = -1 then N else nat u)"
    using ub by (auto simp: L_def py_pos_def)
  have f5: "column (nodes m5 ! y) = (if y = N then c + 1 else column (nodes m ! y)) \<and>
            row (nodes m5 ! y) = (if y = N then row_id else row (nodes m ! y)) \<and>
            up (nodes m5 ! y) = (if y = H then int N else if y = N then u else up (nodes m ! y)) \<and>
            down (nodes m5 ! y) = (if y = L then int N else if y = N then c + 1 else down (nodes m ! y)) \<and>
            right (nodes m5 ! y) = (if y = N then -1 else right (nodes m ! y)) \<and>
            left (nodes m5 ! y) = (if y = N then -1 else left (nodes m ! y))"
    if "y \<le> N" for y
    using that Hi(2) Li(2)
    by (auto simp: m5_def m4_def m3_def m2_def m1_def append_node_def N_def[symmetric]
         nth_list_update nth_append new_node_def)
  have l5: "length (nodes m5) = Suc N" "length (columns m5) = length (columns m)"
    by (simp_all add: m5_def m4_def m3_def m2_def m1_def append_node_def N_def)
  have z5: "c_size (columns m5 ! i) = (if i = j then c_size (columns m ! i) + 1 else c_size (columns m ! i))"
    if "i < length (columns m)" for i
    using that by (simp add: m5_def m4_def m3_def m2_def m1_def append_node_def nth_list_update)
  show ?thesis
  proof (cases "first < N")
    case False
    then have fN: "first = N" and fpN: "fp = None" using first fp by (simp_all add: N_def)
    have res: "add_row_node row_id c fp m = (Inr (Some (int first, int N)), m5)"
      using unf fpN by (simp add: fN)
    have "spliced_node row_id c first m m5"
      unfolding spliced_node_def Let_def N_def[symmetric] n_def[symmetric]
        H_def[symmetric] u_def[symmetric] L_def[symmetric] j_def[symmetric]
      using l5 z5 f5 fN by (simp add: n_def)
    then show ?thesis using res by (auto simp: N_def)
  next
    case True
    then have Npos: "0 < N" by simp
    have fpS: "fp = Some (int first, int (N - 1))"
      using fp True Npos by (simp add: N_def of_nat_diff)
    define pr where "pr = N - 1"
    have pr: "pr < N" "Suc pr = N" using Npos by (simp_all add: pr_def)
    define m6 where "m6 = m5\<lparr>nodes := (nodes m5)[pr := (nodes m5 ! pr)\<lparr>right := int N\<rparr>]\<rparr>"
    define m7 where "m7 = m6\<lparr>nodes := (nodes m6)[N := (nodes m6 ! N)\<lparr>left := int pr\<rparr>]\<rparr>"
    have s6: "nodes_set (int pr) (\<lambda>x. x\<lparr>right := int N\<rparr>) m5 = Inr m6"
      using pr l5 by (simp add: nodes_set_nonneg m6_def)
    have res: "add_row_node row_id c fp m = (Inr (Some (int first, int N)), m7)"
      using unf s6 unfolding fpS pr_def[symmetric] by (simp add: m7_def)
    have l7: "length (nodes m7) = Suc N" "columns m7 = columns m5"
      using l5 by (simp_all add: m7_def m6_def)
    have f7: "column (nodes m7 ! y) = column (nodes m5 ! y) \<and>
            row (nodes m7 ! y) = row (nodes m5 ! y) \<and>
            up (nodes m7 ! y) = up (nodes m5 ! y) \<and>
            down (nodes m7 ! y) = down (nodes m5 ! y) \<and>
            right (nodes m7 ! y) = (if y = pr then int N else right (nodes m5 ! y)) \<and>
            left (nodes m7 ! y) = (if y = N then int pr else left (nodes m5 ! y))"
      if "y \<le> N" for y
      using that pr(1) l5 by (auto simp: m7_def m6_def nth_list_update)
    have g7: "column (nodes m7 ! y) = (if y = N then c + 1 else column (nodes m ! y)) \<and>
            row (nodes m7 ! y) = (if y = N then row_id else row (nodes m ! y)) \<and>
            up (nodes m7 ! y) = (if y = H then int N else if y = N then u else up (nodes m ! y)) \<and>
            down (nodes m7 ! y) = (if y = L then int N else if y = N then c + 1 else down (nodes m ! y)) \<and>
            right (nodes m7 ! y) = (if y = N then -1 else if first < N \<and> Suc y = N then int N else right (nodes m ! y)) \<and>
            left (nodes m7 ! y) = (if y = N then (if first < N then int N - 1 else -1) else left (nodes m ! y))"
      if "y \<le> N" for y
      using f7[OF that] f5[OF that] True pr by (auto simp: pr_def)
    have "spliced_node row_id c first m m7"
      unfolding spliced_node_def Let_def N_def[symmetric] n_def[symmetric]
        H_def[symmetric] u_def[symmetric] L_def[symmetric] j_def[symmetric]
      using l7 l5 z5 g7 by (simp add: n_def)
    then show ?thesis using res by (auto simp: N_def)
  qed
qed

lemma add_row_loop_append:
  "add_row_loop row_id (xs @ ys) fp m =
     (case add_row_loop row_id xs fp m of
        (Inl e, m') \<Rightarrow> (Inl e, m')
      | (Inr fp', m') \<Rightarrow> add_row_loop row_id ys fp' m')"
proof (induction xs arbitrary: fp m)
  case Nil
  show ?case by simp
next
  case (Cons x xs)
  show ?case
  proof (cases "add_row_node row_id x fp m")
    case (Pair r m1)
    show ?thesis
    proof (cases r)
      case (Inl e)
      then show ?thesis using Pair by simp
    next
      case (Inr fp1)
      then show ?thesis using Pair Cons.IH[of fp1 m1] by simp
    qed
  qed
qed

lemma add_row_loop_extend:
  assumes lp: "add_row_loop row_id cs None m = (Inr (fp_of (length (nodes m)) cs), a)"
    and ok: "arena_ok a" and nc: "num_columns a = num_columns m"
    and len: "length (nodes a) = length (nodes m) + length cs"
    and c: "in_range (num_columns m) c"
  shows "\<exists>b. add_row_loop row_id (cs @ [c]) None m = (Inr (fp_of (length (nodes m)) (cs @ [c])), b) \<and>
           spliced_node row_id c (length (nodes m)) a b \<and> arena_ok b \<and>
           num_columns b = num_columns m \<and>
           length (nodes b) = length (nodes m) + length (cs @ [c])"
proof -
  define N where "N = length (nodes m)"
  have c': "- num_columns a \<le> c" "c < num_columns a" using c nc by (simp_all add: in_range_def)
  have first: "N \<le> length (nodes a)" using len by (simp add: N_def)
  have fp: "fp_of N cs = (if N < length (nodes a)
                   then Some (int N, int (length (nodes a)) - 1) else None)"
    by (cases cs) (simp_all add: fp_of_def len N_def)
  from add_row_node_spliced[OF ok c' first fp, of row_id]
  obtain b where st: "add_row_node row_id c (fp_of N cs) a = (Inr (Some (int N, int (length (nodes a)))), b)"
    and sp: "spliced_node row_id c N a b"
    by blast
  have fpc: "case fp_of N cs of None \<Rightarrow> True | Some (f, p) \<Rightarrow> 0 \<le> p \<and> p < int (length (nodes a))"
    by (cases cs) (simp_all add: fp_of_def len N_def)
  from add_row_node_in_range[OF ok c' fpc, of row_id] st
  have okb: "arena_ok b" "length (nodes b) = Suc (length (nodes a))" "num_columns b = num_columns a"
    by auto
  have e: "Some (int N, int (length (nodes a))) = fp_of N (cs @ [c])"
    by (simp add: fp_of_def len N_def)
  have "add_row_loop row_id (cs @ [c]) None m = (Inr (fp_of N (cs @ [c])), b)"
    unfolding add_row_loop_append lp[unfolded N_def[symmetric]] by (simp add: st e)
  then show ?thesis
    using sp okb nc len unfolding N_def by simp
qed

lemma add_row_loop_valid:
  assumes ok: "arena_ok m"
  shows "(\<forall>c \<in> set cs. in_range (num_columns m) c) \<Longrightarrow>
         \<exists>a. add_row_loop row_id cs None m = (Inr (fp_of (length (nodes m)) cs), a) \<and>
             arena_ok a \<and> num_columns a = num_columns m \<and>
             length (nodes a) = length (nodes m) + length cs"
proof (induction cs rule: rev_induct)
  case Nil
  show ?case using ok by (simp add: fp_of_def)
next
  case (snoc c cs)
  have v: "\<forall>c \<in> set cs. in_range (num_columns m) c" and c: "in_range (num_columns m) c"
    using snoc.prems by simp_all
  from snoc.IH[OF v] obtain a where
    a: "add_row_loop row_id cs None m = (Inr (fp_of (length (nodes m)) cs), a)"
    "arena_ok a" "num_columns a = num_columns m"
    "length (nodes a) = length (nodes m) + length cs"
    by blast
  from add_row_loop_extend[OF a c] show ?case by blast
qed

lemma add_row_loop_trace:
  assumes ok: "arena_ok m" and v: "\<forall>c \<in> set (take (Suc i) cols). in_range (num_columns m) c"
    and i: "i < length cols"
  shows "spliced_node row_id (cols ! i) (length (nodes m))
           (snd (add_row_loop row_id (take i cols) None m))
           (snd (add_row_loop row_id (take (Suc i) cols) None m))"
proof -
  have t: "take (Suc i) cols = take i cols @ [cols ! i]"
    using i by (rule take_Suc_conv_app_nth)
  have v1: "\<forall>c \<in> set (take i cols). in_range (num_columns m) c"
    and c: "in_range (num_columns m) (cols ! i)"
    using v unfolding t by simp_all
  from add_row_loop_valid[OF ok v1, of row_id] obtain a where
    a: "add_row_loop row_id (take i cols) None m = (Inr (fp_of (length (nodes m)) (take i cols)), a)"
    "arena_ok a" "num_columns a = num_columns m"
    "length (nodes a) = length (nodes m) + length (take i cols)"
    by blast
  from add_row_loop_extend[OF a c] obtain b where
    b: "add_row_loop row_id (take i cols @ [cols ! i]) None m =
          (Inr (fp_of (length (nodes m)) (take i cols @ [cols ! i])), b)"
    and sp: "spliced_node row_id (cols ! i) (length (nodes m)) a b"
    by blast
  show ?thesis unfolding t a(1) b using sp by simp
qed

lemma add_row_valid_result:
  assumes ok: "arena_ok m" and v: "\<forall>c \<in> set cols. in_range (num_columns m) c"
    and ne: "cols \<noteq> []"
  shows "add_row row_id cols m =
           (None, close_row (length (nodes m)) (length (nodes m) + length cols - 1)
                    (snd (add_row_loop row_id cols None m)))"
proof -
  define N where "N = length (nodes m)"
  define P where "P = N + length cols - 1"
  from add_row_loop_valid[OF ok v, of row_id] obtain a where
    a: "add_row_loop row_id cols None m = (Inr (fp_of N cols), a)"
    and len: "length (nodes a) = N + length cols"
    unfolding N_def by blast
  have fp: "fp_of N cols = Some (int N, int P)" using ne by (simp add: fp_of_def P_def)
  have PN: "P < length (nodes a)" "N < length (nodes a)"
    using ne unfolding len P_def by (cases cols; simp)+
  have s1: "nodes_set (int P) (\<lambda>x. x\<lparr>right := int N\<rparr>) a =
      Inr (a\<lparr>nodes := (nodes a)[P := (nodes a ! P)\<lparr>right := int N\<rparr>]\<rparr>)"
    using PN by (simp add: nodes_set_nonneg)
  have s2: "nodes_set (int N) (\<lambda>x. x\<lparr>left := int P\<rparr>)
               (a\<lparr>nodes := (nodes a)[P := (nodes a ! P)\<lparr>right := int N\<rparr>]\<rparr>) = Inr (close_row N P a)"
    using PN by (simp add: nodes_set_nonneg close_row_def Let_def)
  have "add_row row_id cols m = (None, close_row N P a)"
    unfolding add_row_def using ne by (simp add: a fp s1 s2)
  then show ?thesis unfolding a N_def P_def by simp
qed

lemma add_row_invalid_result:
  assumes ok: "arena_ok m" and nv: "\<not> (\<forall>c \<in> set cols. in_range (num_columns m) c)"
  shows "add_row row_id cols m =
           (Some IndexError,
            append_node row_id (cols ! length (takeWhile (in_range (num_columns m)) cols))
              (snd (add_row_loop row_id (takeWhile (in_range (num_columns m)) cols) None m)))"
proof -
  define p where "p = takeWhile (in_range (num_columns m)) cols"
  define d where "d = dropWhile (in_range (num_columns m)) cols"
  have split: "cols = p @ d" by (simp add: p_def d_def)
  have dne: "d \<noteq> []" using nv by (auto simp: d_def dropWhile_eq_Nil_conv)
  then obtain c rest where d: "d = c # rest" by (cases d) auto
  have cbad: "\<not> in_range (num_columns m) c"
    using hd_dropWhile[of "in_range (num_columns m)" cols] dne d by (simp add: d_def)
  have ci: "cols ! length p = c" by (simp add: split d)
  have vp: "\<forall>c \<in> set p. in_range (num_columns m) c"
    by (auto simp: p_def dest: set_takeWhileD)
  from add_row_loop_valid[OF ok vp, of row_id] obtain a where
    a: "add_row_loop row_id p None m = (Inr (fp_of (length (nodes m)) p), a)"
    and oka: "arena_ok a" and nc: "num_columns a = num_columns m"
    by blast
  have "c < - int (length (columns a)) \<or> int (length (columns a)) \<le> c"
    using cbad oka nc by (auto simp: in_range_def arena_ok_def)
  then have st: "add_row_node row_id c (fp_of (length (nodes m)) p) a =
      (Inl IndexError, append_node row_id c a)"
    by (rule add_row_node_out_of_range)
  have lp: "add_row_loop row_id cols None m = (Inl IndexError, append_node row_id c a)"
    unfolding split add_row_loop_append a d by (simp add: st)
  have ne: "cols \<noteq> []" using split d by simp
  have "add_row row_id cols m = (Some IndexError, append_node row_id c a)"
    unfolding add_row_def using ne by (simp add: lp)
  then show ?thesis unfolding p_def[symmetric] ci a by simp
qed

lemma create_Inr: "create n = Inr m \<Longrightarrow> 0 < n \<and> m = init_matrix (nat n)"
  using create_pos[of n] create_nonpos[of n] by (cases "0 < n") auto

lemma arena_ok_init_matrix:
  assumes "0 < k"
  shows "arena_ok (init_matrix k)"
proof -
  have "ups_ok (nodes (init_matrix k))"
    unfolding ups_ok_def
  proof (intro allI impI)
    fix i assume "i < length (nodes (init_matrix k))"
    then have i: "i < Suc k" by simp
    show "- 1 \<le> up (nodes (init_matrix k) ! i) \<and>
          up (nodes (init_matrix k) ! i) < int (length (nodes (init_matrix k)))"
    proof (cases i)
      case 0
      then show ?thesis using assms by (simp add: init_matrix_root)
    next
      case (Suc j)
      then show ?thesis using i by (simp add: init_matrix_header)
    qed
  qed
  then show ?thesis using assms by (simp add: arena_ok_def)
qed

lemma constructed_arena_ok: "constructed m \<Longrightarrow> arena_ok m"
proof (induction rule: constructed.induct)
  case (constructed_create n m)
  then show ?case using create_Inr[of n m] arena_ok_init_matrix[of "nat n"] by simp
next
  case (constructed_add_row m row_id cols r m')
  then show ?case using add_row_result[of m row_id cols] by auto
qed

lemma length_fold_bump: "length (fold (bump n) cols szs) = length szs"
  by (induction cols arbitrary: szs) (simp_all add: bump_def)

text \<open>
  C10 (\<open>add_row\<close> validates no column index; negative indices wrap and the row is
  spliced). On every matrix obtained from \<open>create\<close> and earlier \<open>add_row\<close> calls, a
  column list whose entries all lie in \<open>[-numColumns, numColumns)\<close> makes \<open>add_row\<close>
  return normally with one node appended per entry; each entry \<open>c\<close> increments the size
  counter of column \<open>c\<close> if \<open>c \<ge> 0\<close> and of column \<open>numColumns + c\<close> if \<open>c < 0\<close>; the
  \<open>i\<close>-th iteration of the loop takes the matrix left by the first \<open>i\<close> entries to the one
  left by the first \<open>i + 1\<close> entries by splicing its node as \<open>spliced_node\<close> states
  (vertically below \<open>nodes[nodes[c + 1].up]\<close> and above \<open>nodes[c + 1]\<close>, which for \<open>c = -1\<close>
  is the root, and horizontally after the node before it); and the call ends with the
  two assignments of \<open>close_row\<close>, which close the new nodes into a cycle.
\<close>

theorem add_row_negative_index_accepted:
  assumes "constructed m"
    and "\<forall>c \<in> set cols. - num_columns m \<le> c \<and> c < num_columns m"
  shows "fst (add_row row_id cols m) = None \<and>
         length (nodes (snd (add_row row_id cols m))) = length (nodes m) + length cols \<and>
         (\<forall>j < length (columns m).
            c_size (columns (snd (add_row row_id cols m)) ! j) =
            c_size (columns m ! j) +
            int (length (filter (\<lambda>c. (if c < 0 then num_columns m + c else c) = int j) cols))) \<and>
         (\<forall>i < length cols.
            spliced_node row_id (cols ! i) (length (nodes m))
              (snd (add_row_loop row_id (take i cols) None m))
              (snd (add_row_loop row_id (take (Suc i) cols) None m))) \<and>
         snd (add_row row_id cols m) =
           (if cols = [] then m
            else close_row (length (nodes m)) (length (nodes m) + length cols - 1)
                   (snd (add_row_loop row_id cols None m)))"
proof -
  have ok: "arena_ok m" using assms(1) by (rule constructed_arena_ok)
  have n: "num_columns m = int (length (columns m))" using ok by (simp add: arena_ok_def)
  have all: "\<forall>c \<in> set cols. in_range (num_columns m) c"
    using assms(2) by (simp add: in_range_def)
  obtain r m' where res: "add_row row_id cols m = (r, m')" "r = None"
    "length (nodes m') = length (nodes m) + length cols"
    "map c_size (columns m') = fold (bump (num_columns m)) cols (map c_size (columns m))"
    using add_row_result[OF ok, of row_id cols] all by auto
  have pos: "\<forall>c \<in> set cols. col_pos (num_columns m) c < length (map c_size (columns m))"
    using assms(2) n by (auto simp: col_pos_def)
  have lenc: "length (columns m') = length (columns m)"
    using arg_cong[OF res(4), of length] by (simp add: length_fold_bump)
  have flt: "\<And>j. j < length (columns m) \<Longrightarrow>
      filter (\<lambda>c. col_pos (num_columns m) c = j) cols =
      filter (\<lambda>c. (if c < 0 then num_columns m + c else c) = int j) cols"
    using assms(2) by (intro filter_cong) (auto simp: col_pos_def)
  have sz: "c_size (columns m' ! j) = c_size (columns m ! j) +
            int (length (filter (\<lambda>c. (if c < 0 then num_columns m + c else c) = int j) cols))"
    if j: "j < length (columns m)" for j
  proof -
    have "c_size (columns m' ! j) = map c_size (columns m') ! j" using j lenc by simp
    also have "\<dots> = map c_size (columns m) ! j +
         int (length (filter (\<lambda>c. col_pos (num_columns m) c = j) cols))"
      unfolding res(4) using pos j by (intro fold_bump_nth) simp_all
    finally show ?thesis using j flt[OF j] by simp
  qed
  have tr: "spliced_node row_id (cols ! i) (length (nodes m))
              (snd (add_row_loop row_id (take i cols) None m))
              (snd (add_row_loop row_id (take (Suc i) cols) None m))"
    if i: "i < length cols" for i
  proof (rule add_row_loop_trace[OF ok _ i])
    show "\<forall>c \<in> set (take (Suc i) cols). in_range (num_columns m) c"
      using all by (auto dest: in_set_takeD)
  qed
  have cl: "snd (add_row row_id cols m) =
           (if cols = [] then m
            else close_row (length (nodes m)) (length (nodes m) + length cols - 1)
                   (snd (add_row_loop row_id cols None m)))"
  proof (cases "cols = []")
    case True
    then show ?thesis by (simp add: add_row_def)
  next
    case False
    then show ?thesis using add_row_valid_result[OF ok all False, of row_id] by simp
  qed
  have a: "fst (add_row row_id cols m) = None" using res by simp
  have b: "length (nodes (snd (add_row row_id cols m))) = length (nodes m) + length cols"
    using res by simp
  have c: "\<forall>j < length (columns m).
            c_size (columns (snd (add_row row_id cols m)) ! j) =
            c_size (columns m ! j) +
            int (length (filter (\<lambda>c. (if c < 0 then num_columns m + c else c) = int j) cols))"
    using sz res(1) by simp
  have d: "\<forall>i < length cols.
            spliced_node row_id (cols ! i) (length (nodes m))
              (snd (add_row_loop row_id (take i cols) None m))
              (snd (add_row_loop row_id (take (Suc i) cols) None m))"
    using tr by blast
  show ?thesis using a b c d cl by (intro conjI)
qed

theorem add_row_negative_index_accepted_witness:
  "create 2 = Inr (init_matrix 2) \<and> constructed (init_matrix 2) \<and>
   - num_columns (init_matrix 2) \<le> -1 \<and> -1 < num_columns (init_matrix 2) \<and>
   fst (add_row 0 [-1] (init_matrix 2)) = None \<and>
   c_size (columns (snd (add_row 0 [-1] (init_matrix 2))) ! 1) = c_size (columns (init_matrix 2) ! 1) + 1 \<and>
   spliced_node 0 (-1) 3 (init_matrix 2) (snd (add_row_loop 0 [-1] None (init_matrix 2))) \<and>
   snd (add_row 0 [-1] (init_matrix 2)) = close_row 3 3 (snd (add_row_loop 0 [-1] None (init_matrix 2))) \<and>
   up (nodes (snd (add_row 0 [-1] (init_matrix 2))) ! 0) = 3 \<and>
   up (nodes (snd (add_row 0 [-1] (init_matrix 2))) ! 2) = 2"
proof -
  have cr: "create 2 = Inr (init_matrix 2)" using create_pos[of 2] by simp
  have c: "constructed (init_matrix 2)" using cr by (rule constructed_create)
  have h: "\<forall>c \<in> set [-1 :: int]. - num_columns (init_matrix 2) \<le> c \<and> c < num_columns (init_matrix 2)"
    by simp
  note t = add_row_negative_index_accepted[OF c h, of 0]
  have t1: "fst (add_row 0 [-1] (init_matrix 2)) = None"
    using t[THEN conjunct1] .
  have t1': "c_size (columns (snd (add_row 0 [-1] (init_matrix 2))) ! 1) = c_size (columns (init_matrix 2) ! 1) + 1"
    using t[THEN conjunct2, THEN conjunct2, THEN conjunct1, rule_format, of 1] by simp
  have t2: "spliced_node 0 (-1) 3 (init_matrix 2) (snd (add_row_loop 0 [-1] None (init_matrix 2)))"
    using t[THEN conjunct2, THEN conjunct2, THEN conjunct2, THEN conjunct1, rule_format, of 0] by simp
  have t3: "snd (add_row 0 [-1] (init_matrix 2)) = close_row 3 3 (snd (add_row_loop 0 [-1] None (init_matrix 2)))"
    using t[THEN conjunct2, THEN conjunct2, THEN conjunct2, THEN conjunct2] by simp
  have ev: "up (nodes (snd (add_row 0 [-1] (init_matrix 2))) ! 0) = 3"
    "up (nodes (snd (add_row 0 [-1] (init_matrix 2))) ! 2) = 2"
    by code_simp+
  show ?thesis using cr c t1 t1' t2 t3 ev by (intro conjI) simp_all
qed

text \<open>
  C3 (an out-of-range or duplicate column index is reported and the matrix is left as
  before the call) does not hold. On the two-column matrix, \<open>add_row(7, [0, 0])\<close>
  returns normally and has spliced two nodes into column 0; \<open>add_row(7, [0, 5])\<close>
  raises IndexError only after the node of column 0 has been spliced and a node for
  index 5 has been appended.
\<close>

theorem add_row_invalid_not_rejected:
  "(case create 2 of Inl e \<Rightarrow> False | Inr m \<Rightarrow>
      fst (add_row 7 [0, 0] m) = None \<and> snd (add_row 7 [0, 0] m) \<noteq> m \<and>
      c_size (columns (snd (add_row 7 [0, 0] m)) ! 0) = 2 \<and>
      fst (add_row 7 [0, 5] m) = Some IndexError \<and> snd (add_row 7 [0, 5] m) \<noteq> m \<and>
      length (nodes (snd (add_row 7 [0, 5] m))) = length (nodes m) + 2 \<and>
      c_size (columns (snd (add_row 7 [0, 5] m)) ! 0) = 1)"
  by code_simp

text \<open>
  C3 as amended: \<open>add_row\<close> checks nothing itself. It raises IndexError exactly when
  the column list contains an index outside \<open>[-numColumns, numColumns)\<close>, at the first
  such index: by then every earlier entry of the call has been spliced exactly as in a
  call that succeeds (\<open>spliced_node\<close>, one loop iteration per entry), a node for the
  offending index has been appended and linked nowhere (\<open>append_node\<close>), the row has
  not been closed into a cycle, and the matrix is left in that state. Every other list,
  duplicates included, is spliced entry by entry and closed into a cycle (\<open>close_row\<close>)
  without an error.
\<close>

theorem add_row_raises_only_out_of_range:
  assumes "constructed m"
  shows "if \<forall>c \<in> set cols. - num_columns m \<le> c \<and> c < num_columns m
         then fst (add_row row_id cols m) = None \<and>
              length (nodes (snd (add_row row_id cols m))) = length (nodes m) + length cols \<and>
              (\<forall>i < length cols.
                 spliced_node row_id (cols ! i) (length (nodes m))
                   (snd (add_row_loop row_id (take i cols) None m))
                   (snd (add_row_loop row_id (take (Suc i) cols) None m))) \<and>
              snd (add_row row_id cols m) =
                (if cols = [] then m
                 else close_row (length (nodes m)) (length (nodes m) + length cols - 1)
                        (snd (add_row_loop row_id cols None m)))
         else fst (add_row row_id cols m) = Some IndexError \<and>
              length (nodes (snd (add_row row_id cols m))) =
                length (nodes m) +
                length (takeWhile (\<lambda>c. - num_columns m \<le> c \<and> c < num_columns m) cols) + 1 \<and>
              (\<forall>i < length (takeWhile (\<lambda>c. - num_columns m \<le> c \<and> c < num_columns m) cols).
                 spliced_node row_id (cols ! i) (length (nodes m))
                   (snd (add_row_loop row_id (take i cols) None m))
                   (snd (add_row_loop row_id (take (Suc i) cols) None m))) \<and>
              snd (add_row row_id cols m) =
                append_node row_id
                  (cols ! length (takeWhile (\<lambda>c. - num_columns m \<le> c \<and> c < num_columns m) cols))
                  (snd (add_row_loop row_id
                     (takeWhile (\<lambda>c. - num_columns m \<le> c \<and> c < num_columns m) cols) None m))"
proof -
  have ok: "arena_ok m" using assms(1) by (rule constructed_arena_ok)
  have ir: "in_range (num_columns m) = (\<lambda>c. - num_columns m \<le> c \<and> c < num_columns m)"
    by (auto simp: in_range_def)
  obtain r m' where res: "add_row row_id cols m = (r, m')"
    "if \<forall>c \<in> set cols. - num_columns m \<le> c \<and> c < num_columns m
     then r = None \<and> length (nodes m') = length (nodes m) + length cols \<and>
          map c_size (columns m') = fold (bump (num_columns m)) cols (map c_size (columns m))
     else r = Some IndexError \<and>
          length (nodes m') =
            length (nodes m) +
            length (takeWhile (\<lambda>c. - num_columns m \<le> c \<and> c < num_columns m) cols) + 1"
    using add_row_result[OF ok, of row_id cols] unfolding ir by blast
  define p where "p = takeWhile (\<lambda>c. - num_columns m \<le> c \<and> c < num_columns m) cols"
  have tr: "spliced_node row_id (cols ! i) (length (nodes m))
              (snd (add_row_loop row_id (take i cols) None m))
              (snd (add_row_loop row_id (take (Suc i) cols) None m))"
    if i: "i < length p" for i
  proof -
    have il: "i < length cols"
      using i length_takeWhile_le[of "\<lambda>c. - num_columns m \<le> c \<and> c < num_columns m" cols]
      by (simp add: p_def)
    have tk: "take (Suc i) cols = take (Suc i) p"
    proof -
      have "cols = p @ dropWhile (\<lambda>c. - num_columns m \<le> c \<and> c < num_columns m) cols"
        by (simp add: p_def)
      then have "take (Suc i) cols =
          take (Suc i) (p @ dropWhile (\<lambda>c. - num_columns m \<le> c \<and> c < num_columns m) cols)"
        by simp
      then show ?thesis using i by simp
    qed
    show ?thesis
    proof (rule add_row_loop_trace[OF ok _ il])
      show "\<forall>c \<in> set (take (Suc i) cols). in_range (num_columns m) c"
        unfolding tk ir p_def by (auto dest!: in_set_takeD set_takeWhileD)
    qed
  qed
  show ?thesis
  proof (cases "\<forall>c \<in> set cols. - num_columns m \<le> c \<and> c < num_columns m")
    case True
    then have pc: "p = cols" by (simp add: p_def)
    have all: "\<forall>c \<in> set cols. in_range (num_columns m) c" using True unfolding ir .
    have cl: "snd (add_row row_id cols m) =
           (if cols = [] then m
            else close_row (length (nodes m)) (length (nodes m) + length cols - 1)
                   (snd (add_row_loop row_id cols None m)))"
    proof (cases "cols = []")
      case True
      then show ?thesis by (simp add: add_row_def)
    next
      case False
      then show ?thesis using add_row_valid_result[OF ok all False, of row_id] by simp
    qed
    have d: "\<forall>i < length cols.
            spliced_node row_id (cols ! i) (length (nodes m))
              (snd (add_row_loop row_id (take i cols) None m))
              (snd (add_row_loop row_id (take (Suc i) cols) None m))"
      using tr unfolding pc by blast
    have a: "fst (add_row row_id cols m) = None"
      "length (nodes (snd (add_row row_id cols m))) = length (nodes m) + length cols"
      using res True by simp_all
    show ?thesis using True a d cl by simp
  next
    case False
    have nv: "\<not> (\<forall>c \<in> set cols. in_range (num_columns m) c)" using False unfolding ir .
    have e: "snd (add_row row_id cols m) = append_node row_id (cols ! length p)
                  (snd (add_row_loop row_id p None m))"
      using add_row_invalid_result[OF ok nv, of row_id] unfolding ir p_def by simp
    have d: "\<forall>i < length p.
            spliced_node row_id (cols ! i) (length (nodes m))
              (snd (add_row_loop row_id (take i cols) None m))
              (snd (add_row_loop row_id (take (Suc i) cols) None m))"
      using tr by blast
    have a: "fst (add_row row_id cols m) = Some IndexError"
      "length (nodes (snd (add_row row_id cols m))) = length (nodes m) + length p + 1"
      using res False by (simp_all add: p_def)
    show ?thesis using False a d e unfolding p_def by simp
  qed
qed

theorem add_row_raises_only_out_of_range_witness:
  "constructed (init_matrix 2) \<and>
   fst (add_row 7 [0, 0] (init_matrix 2)) = None \<and>
   length (nodes (snd (add_row 7 [0, 0] (init_matrix 2)))) = length (nodes (init_matrix 2)) + 2 \<and>
   spliced_node 7 0 3 (snd (add_row_loop 7 [0] None (init_matrix 2)))
     (snd (add_row_loop 7 [0, 0] None (init_matrix 2))) \<and>
   snd (add_row 7 [0, 0] (init_matrix 2)) =
     close_row 3 4 (snd (add_row_loop 7 [0, 0] None (init_matrix 2))) \<and>
   fst (add_row 7 [0, 5] (init_matrix 2)) = Some IndexError \<and>
   length (nodes (snd (add_row 7 [0, 5] (init_matrix 2)))) = length (nodes (init_matrix 2)) + 2 \<and>
   spliced_node 7 0 3 (init_matrix 2) (snd (add_row_loop 7 [0] None (init_matrix 2))) \<and>
   snd (add_row 7 [0, 5] (init_matrix 2)) =
     append_node 7 5 (snd (add_row_loop 7 [0] None (init_matrix 2)))"
proof -
  have cr: "create 2 = Inr (init_matrix 2)" using create_pos[of 2] by simp
  have c: "constructed (init_matrix 2)" using cr by (rule constructed_create)
  have v: "\<forall>c \<in> set [0, 0 :: int]. - num_columns (init_matrix 2) \<le> c \<and> c < num_columns (init_matrix 2)"
    by simp
  have nv: "\<not> (\<forall>c \<in> set [0, 5 :: int]. - num_columns (init_matrix 2) \<le> c \<and> c < num_columns (init_matrix 2))"
    by simp
  have tw: "takeWhile (\<lambda>c. - num_columns (init_matrix 2) \<le> c \<and> c < num_columns (init_matrix 2)) [0, 5 :: int] = [0]"
    by simp
  note a = add_row_raises_only_out_of_range[OF c, of "[0, 0]" 7, unfolded if_P[OF v]]
  note b = add_row_raises_only_out_of_range[OF c, of "[0, 5]" 7, unfolded if_not_P[OF nv] tw]
  have a1: "fst (add_row 7 [0, 0] (init_matrix 2)) = None"
    using a[THEN conjunct1] .
  have a2: "length (nodes (snd (add_row 7 [0, 0] (init_matrix 2)))) = length (nodes (init_matrix 2)) + 2"
    using a[THEN conjunct2, THEN conjunct1] by simp
  have a3: "spliced_node 7 0 3 (snd (add_row_loop 7 [0] None (init_matrix 2)))
     (snd (add_row_loop 7 [0, 0] None (init_matrix 2)))"
    using a[THEN conjunct2, THEN conjunct2, THEN conjunct1, rule_format, of 1] by simp
  have a4: "snd (add_row 7 [0, 0] (init_matrix 2)) =
     close_row 3 4 (snd (add_row_loop 7 [0, 0] None (init_matrix 2)))"
    using a[THEN conjunct2, THEN conjunct2, THEN conjunct2] by simp
  have b1: "fst (add_row 7 [0, 5] (init_matrix 2)) = Some IndexError"
    using b[THEN conjunct1] .
  have b2: "length (nodes (snd (add_row 7 [0, 5] (init_matrix 2)))) = length (nodes (init_matrix 2)) + 2"
    using b[THEN conjunct2, THEN conjunct1] by simp
  have b3: "spliced_node 7 0 3 (init_matrix 2) (snd (add_row_loop 7 [0] None (init_matrix 2)))"
    using b[THEN conjunct2, THEN conjunct2, THEN conjunct1, rule_format, of 0] by simp
  have b4: "snd (add_row 7 [0, 5] (init_matrix 2)) =
     append_node 7 5 (snd (add_row_loop 7 [0] None (init_matrix 2)))"
    using b[THEN conjunct2, THEN conjunct2, THEN conjunct2] by simp
  show ?thesis using c a1 a2 a3 a4 b1 b2 b3 b4 by (intro conjI)
qed

lemma chain_append:
  "chain f a (xs @ y # ys) b = (chain f a xs y \<and> chain f y ys b)"
  by (induction xs arbitrary: a) auto

lemma chain_cong:
  "(\<And>i. i \<in> set (a # xs) \<Longrightarrow> f i = g i) \<Longrightarrow> chain f a xs b = chain g a xs b"
  by (induction xs arbitrary: a) auto

lemma chain_upd_other:
  "s \<notin> set (a # xs) \<Longrightarrow> chain (f(s := v)) a xs b = chain f a xs b"
  by (rule chain_cong) auto

lemma chain_mid:
  "chain f s (a @ y # b) t \<Longrightarrow> f (last (s # a)) = int y \<and> f y = int (hd (b @ [t]))"
proof (induction a arbitrary: s)
  case Nil
  then show ?case by (cases b) auto
next
  case (Cons a0 a')
  then show ?case by auto
qed

lemma chain_remove:
  assumes "chain f s (a @ y # b) t" "distinct (s # a @ y # b)"
    and "g (last (s # a)) = f y" "\<And>i. i \<noteq> last (s # a) \<Longrightarrow> g i = f i"
  shows "chain g s (a @ b) t"
  using assms
proof (induction a arbitrary: s)
  case Nil
  have gs: "g s = f y" using Nil.prems(3) by simp
  have go: "\<And>i. i \<noteq> s \<Longrightarrow> g i = f i" using Nil.prems(4) by simp
  show ?case
  proof (cases b)
    case Nil
    then show ?thesis using Nil.prems(1) gs by simp
  next
    case (Cons z b')
    have "g i = f i" if "i \<in> set (z # b')" for i
    proof -
      have "i \<noteq> s" using that Nil.prems(2) Cons by auto
      then show ?thesis by (rule go)
    qed
    then have "chain g z b' t = chain f z b' t"
      by (rule chain_cong)
    then show ?thesis using Nil.prems(1) Cons gs by simp
  qed
next
  case (Cons a0 a')
  have ne: "s \<noteq> last (a0 # a')"
    using Cons.prems(2) last_in_set[of "a0 # a'"] by auto
  have "chain g a0 (a' @ b) t"
    using Cons.IH[of a0] Cons.prems by simp
  moreover have "g s = f s" using Cons.prems(4)[of s] ne by simp
  ultimately show ?case using Cons.prems(1) by simp
qed

text \<open>The inverse step: linking \<open>y\<close> back between its old neighbours.\<close>

lemma chain_insert:
  assumes "chain f s (a @ b) t" "distinct (s # a @ y # b)" "f y = int (hd (b @ [t]))"
    and "g (last (s # a)) = int y" "\<And>i. i \<noteq> last (s # a) \<Longrightarrow> g i = f i"
  shows "chain g s (a @ y # b) t"
  using assms
proof (induction a arbitrary: s)
  case Nil
  have gs: "g s = int y" using Nil.prems(4) by simp
  have go: "\<And>i. i \<noteq> s \<Longrightarrow> g i = f i" using Nil.prems(5) by simp
  have gy: "g y = f y" using go[of y] Nil.prems(2) by simp
  show ?case
  proof (cases b)
    case Nil
    then show ?thesis using Nil.prems(1,3) gs gy by simp
  next
    case (Cons z b')
    have "g i = f i" if "i \<in> set (z # b')" for i
    proof -
      have "i \<noteq> s" using that Nil.prems(2) Cons by auto
      then show ?thesis by (rule go)
    qed
    then have "chain g z b' t = chain f z b' t"
      by (rule chain_cong)
    then show ?thesis using Nil.prems(1,3) Cons gs gy by simp
  qed
next
  case (Cons a0 a')
  have ne: "s \<noteq> last (a0 # a')"
    using Cons.prems(2) last_in_set[of "a0 # a'"] by auto
  have "chain g a0 (a' @ y # b) t"
    using Cons.IH[of a0] Cons.prems by simp
  moreover have "g s = f s" using Cons.prems(5)[of s] ne by simp
  ultimately show ?case using Cons.prems(1) by simp
qed

text \<open>A cycle may be entered at any of its members.\<close>

lemma chain_rotate:
  assumes "chain f x (b @ a) x" 
  shows "a = [] \<or> chain f (hd a) (tl a @ x # b) (hd a)"
proof (cases a)
  case Nil
  then show ?thesis by simp
next
  case (Cons a0 a')
  have "chain f x b a0 \<and> chain f a0 a' x"
    using assms Cons by (simp add: chain_append)
  then show ?thesis using Cons by (simp add: chain_append)
qed

lemma cycle_from_member:
  assumes "chain f r (a @ x # b) r"
  shows "chain f x (b @ r # a) x"
  using assms by (simp add: chain_append)

lemma unl_lengths [simp]:
  "length (nodes (unl y m)) = length (nodes m)" "length (columns (unl y m)) = length (columns m)"
  "num_columns (unl y m) = num_columns m"
  by (simp_all add: unl_def Let_def)

lemma rel_lengths [simp]:
  "length (nodes (rel y m)) = length (nodes m)" "length (columns (rel y m)) = length (columns m)"
  "num_columns (rel y m) = num_columns m"
  by (simp_all add: rel_def Let_def)

lemma nth_update_field:
  assumes "\<And>v. g (f v) = g v"
  shows "g (xs[p := f (xs ! p)] ! i) = g (xs ! i)"
proof (cases "p < length xs \<and> i = p")
  case True
  then show ?thesis using assms by simp
next
  case False
  then show ?thesis by (cases "p < length xs") (auto simp: nth_list_update list_update_beyond)
qed

lemma unl_static [simp]:
  "right (nodes (unl y m) ! i) = right (nodes m ! i)"
  "left (nodes (unl y m) ! i) = left (nodes m ! i)"
  "column (nodes (unl y m) ! i) = column (nodes m ! i)"
  "row (nodes (unl y m) ! i) = row (nodes m ! i)"
  by (simp_all add: unl_def Let_def nth_update_field)

lemma rel_static [simp]:
  "right (nodes (rel y m) ! i) = right (nodes m ! i)"
  "left (nodes (rel y m) ! i) = left (nodes m ! i)"
  "column (nodes (rel y m) ! i) = column (nodes m ! i)"
  "row (nodes (rel y m) ! i) = row (nodes m ! i)"
  by (simp_all add: rel_def Let_def nth_update_field)

lemma unl_down:
  assumes "linkable m y"
  shows "down (nodes (unl y m) ! i) =
           (if i = nat (up (nodes m ! y)) then down (nodes m ! y) else down (nodes m ! i))"
  using assms
  by (cases "i = nat (down (nodes m ! y))")
     (auto simp: unl_def Let_def linkable_def nth_list_update)

lemma unl_up:
  assumes "linkable m y"
  shows "up (nodes (unl y m) ! i) =
           (if i = nat (down (nodes m ! y)) then up (nodes m ! y) else up (nodes m ! i))"
  using assms
  by (cases "i = nat (up (nodes m ! y))")
     (auto simp: unl_def Let_def linkable_def nth_list_update)

lemma rel_down:
  assumes "linkable m y"
  shows "down (nodes (rel y m) ! i) =
           (if i = nat (up (nodes m ! y)) then int y else down (nodes m ! i))"
  using assms
  by (cases "i = nat (down (nodes m ! y))")
     (auto simp: rel_def Let_def linkable_def nth_list_update)

lemma rel_up:
  assumes "linkable m y"
  shows "up (nodes (rel y m) ! i) =
           (if i = nat (down (nodes m ! y)) then int y else up (nodes m ! i))"
  using assms
  by (cases "i = nat (up (nodes m ! y))")
     (auto simp: rel_def Let_def linkable_def nth_list_update)

lemma unl_size:
  "j < length (columns m) \<Longrightarrow>
   c_size (columns (unl y m) ! j) =
     (if j = nat (column (nodes m ! y) - 1) then c_size (columns m ! j) - 1
      else c_size (columns m ! j))"
  by (simp add: unl_def Let_def nth_list_update)

lemma rel_size:
  "j < length (columns m) \<Longrightarrow>
   c_size (columns (rel y m) ! j) =
     (if j = nat (column (nodes m ! y) - 1) then c_size (columns m ! j) + 1
      else c_size (columns m ! j))"
  by (simp add: rel_def Let_def nth_list_update)

lemma unl_frame:
  assumes "linkable m y" "column (nodes m ! i) \<noteq> column (nodes m ! y)"
  shows "nodes (unl y m) ! i = nodes m ! i"
proof -
  have "i \<noteq> nat (up (nodes m ! y))" "i \<noteq> nat (down (nodes m ! y))"
    using assms by (auto simp: linkable_def Let_def)
  then show ?thesis by (simp add: unl_def Let_def)
qed

lemma rel_frame:
  assumes "linkable m y" "column (nodes m ! i) \<noteq> column (nodes m ! y)"
  shows "nodes (rel y m) ! i = nodes m ! i"
proof -
  have "i \<noteq> nat (up (nodes m ! y))" "i \<noteq> nat (down (nodes m ! y))"
    using assms by (auto simp: linkable_def Let_def)
  then show ?thesis by (simp add: rel_def Let_def)
qed

lemma unl_self:
  assumes "linkable m y"
  shows "up (nodes (unl y m) ! y) = up (nodes m ! y)" "down (nodes (unl y m) ! y) = down (nodes m ! y)"
  using assms by (auto simp: unl_up unl_down linkable_def Let_def)

lemma linkable_unl:
  assumes "linkable m y"
  shows "linkable (unl y m) y"
  using assms unl_self[OF assms] by (simp add: linkable_def Let_def)

lemma unl_header_idx [simp]: "header_idx (unl y m) = header_idx m"
  by (simp add: unl_def Let_def)

lemma rel_header_idx [simp]: "header_idx (rel y m) = header_idx m"
  by (simp add: rel_def Let_def)

lemma unl_columns:
  "columns (unl y m) =
     (columns m)[nat (column (nodes m ! y) - 1) :=
        (columns m ! nat (column (nodes m ! y) - 1))
          \<lparr>c_size := c_size (columns m ! nat (column (nodes m ! y) - 1)) - 1\<rparr>]"
  by (simp add: unl_def Let_def)

lemma rel_columns:
  "columns (rel y m) =
     (columns m)[nat (column (nodes m ! y) - 1) :=
        (columns m ! nat (column (nodes m ! y) - 1))
          \<lparr>c_size := c_size (columns m ! nat (column (nodes m ! y) - 1)) + 1\<rparr>]"
  by (simp add: rel_def Let_def)

lemma unlink_node_linkable:
  assumes "linkable m y"
  shows "unlink_node y m = Inr (unl y m)"
proof -
  define u where "u = up (nodes m ! y)"
  define d where "d = down (nodes m ! y)"
  define c where "c = column (nodes m ! y)"
  have u: "0 \<le> u" "u < int (length (nodes m))" "nat u \<noteq> y"
    and d: "0 \<le> d" "d < int (length (nodes m))" "nat d \<noteq> y"
    and c: "1 \<le> c" "c \<le> int (length (columns m))"
    using assms by (simp_all add: linkable_def Let_def u_def d_def c_def)
  define m1 where "m1 = m\<lparr>nodes := (nodes m)[nat u := (nodes m ! nat u)\<lparr>down := d\<rparr>]\<rparr>"
  have s1: "nodes_set u (\<lambda>x. x\<lparr>down := d\<rparr>) m = Inr m1"
    using u by (simp add: nodes_set_nonneg m1_def)
  have y1: "nodes m1 ! y = nodes m ! y" using u by (simp add: m1_def)
  define m2 where "m2 = m1\<lparr>nodes := (nodes m1)[nat d := (nodes m1 ! nat d)\<lparr>up := u\<rparr>]\<rparr>"
  have s2: "nodes_set d (\<lambda>x. x\<lparr>up := u\<rparr>) m1 = Inr m2"
    using d by (simp add: nodes_set_nonneg m2_def m1_def)
  have y2: "nodes m2 ! y = nodes m ! y" using d y1 by (simp add: m2_def)
  have s3: "columns_set (c - 1) (\<lambda>c. c\<lparr>c_size := c_size c - 1\<rparr>) m2 = Inr (unl y m)"
    using c by (simp add: columns_set_nonneg m2_def m1_def unl_def Let_def u_def d_def c_def)
  show ?thesis
    unfolding unlink_node_def u_def[symmetric] d_def[symmetric] s1 ebind_simps y1 s2 y2
      c_def[symmetric] s3
    by (rule refl)
qed

lemma relink_node_linkable:
  assumes "linkable m y"
  shows "relink_node (int y) y m = Inr (rel y m)"
proof -
  define u where "u = up (nodes m ! y)"
  define d where "d = down (nodes m ! y)"
  define c where "c = column (nodes m ! y)"
  have u: "0 \<le> u" "u < int (length (nodes m))" "nat u \<noteq> y"
    and d: "0 \<le> d" "d < int (length (nodes m))" "nat d \<noteq> y"
    and c: "1 \<le> c" "c \<le> int (length (columns m))"
    using assms by (simp_all add: linkable_def Let_def u_def d_def c_def)
  define m1 where "m1 = m\<lparr>nodes := (nodes m)[nat u := (nodes m ! nat u)\<lparr>down := int y\<rparr>]\<rparr>"
  have s1: "nodes_set u (\<lambda>x. x\<lparr>down := int y\<rparr>) m = Inr m1"
    using u by (simp add: nodes_set_nonneg m1_def)
  have y1: "nodes m1 ! y = nodes m ! y" using u by (simp add: m1_def)
  define m2 where "m2 = m1\<lparr>nodes := (nodes m1)[nat d := (nodes m1 ! nat d)\<lparr>up := int y\<rparr>]\<rparr>"
  have s2: "nodes_set d (\<lambda>x. x\<lparr>up := int y\<rparr>) m1 = Inr m2"
    using d by (simp add: nodes_set_nonneg m2_def m1_def)
  have y2: "nodes m2 ! y = nodes m ! y" using d y1 by (simp add: m2_def)
  have s3: "columns_set (c - 1) (\<lambda>c. c\<lparr>c_size := c_size c + 1\<rparr>) m2 = Inr (rel y m)"
    using c by (simp add: columns_set_nonneg m2_def m1_def rel_def Let_def u_def d_def c_def)
  show ?thesis
    unfolding relink_node_def u_def[symmetric] s1 ebind_simps y1 d_def[symmetric] s2 y2
      c_def[symmetric] s3
    by (rule refl)
qed

lemma rel_unl:
  assumes "linked m y"
  shows "rel y (unl y m) = m"
proof -
  have lk: "linkable m y" and dn: "down (nodes m ! nat (up (nodes m ! y))) = int y"
    and upl: "up (nodes m ! nat (down (nodes m ! y))) = int y"
    using assms by (simp_all add: linked_def)
  have lk': "linkable (unl y m) y" using lk by (rule linkable_unl)
  have c: "1 \<le> column (nodes m ! y)" "column (nodes m ! y) \<le> int (length (columns m))"
    using lk by (simp_all add: linkable_def Let_def)
  have nd: "nodes (rel y (unl y m)) = nodes m"
  proof (rule nth_equalityI)
    show "length (nodes (rel y (unl y m))) = length (nodes m)" by simp
  next
    fix i assume "i < length (nodes (rel y (unl y m)))"
    have "up (nodes (rel y (unl y m)) ! i) = up (nodes m ! i)"
      using upl by (simp add: rel_up[OF lk'] unl_up[OF lk] unl_self[OF lk])
    moreover have "down (nodes (rel y (unl y m)) ! i) = down (nodes m ! i)"
      using dn by (simp add: rel_down[OF lk'] unl_down[OF lk] unl_self[OF lk])
    ultimately show "nodes (rel y (unl y m)) ! i = nodes m ! i"
      by (intro DLXNode.equality) simp_all
  qed
  have cl: "columns (rel y (unl y m)) = columns m"
    unfolding rel_columns[of y "unl y m"] unl_static unl_columns
    using c by simp
  show ?thesis
    using nd cl by (intro Matrix.equality) (simp_all add: rel_def unl_def Let_def)
qed

lemma unl_ok_append: "unl_ok (xs @ ys) m = (unl_ok xs m \<and> unl_ok ys (fold unl xs m))"
  by (induction xs arbitrary: m) auto

lemma rel_ok_append: "rel_ok (xs @ ys) m = (rel_ok xs m \<and> rel_ok ys (fold rel xs m))"
  by (induction xs arbitrary: m) auto

lemma fold_rel_unl:
  assumes "unl_ok ys m"
  shows "rel_ok (rev ys) (fold unl ys m) \<and> fold rel (rev ys) (fold unl ys m) = m"
  using assms
proof (induction ys arbitrary: m)
  case Nil
  then show ?case by simp
next
  case (Cons y ys)
  have lk: "linked m y" and ok: "unl_ok ys (unl y m)" using Cons.prems by simp_all
  have ih: "rel_ok (rev ys) (fold unl ys (unl y m))"
    "fold rel (rev ys) (fold unl ys (unl y m)) = unl y m"
    using Cons.IH[OF ok] by simp_all
  have "linkable (unl y m) y" using lk by (simp add: linked_def linkable_unl)
  then show ?case using ih rel_unl[OF lk] by (simp add: rel_ok_append)
qed

lemma fold_unl_lengths [simp]:
  "length (nodes (fold unl ys m)) = length (nodes m)"
  "length (columns (fold unl ys m)) = length (columns m)"
  "num_columns (fold unl ys m) = num_columns m"
  by (induction ys arbitrary: m) simp_all

lemma fold_rel_lengths [simp]:
  "length (nodes (fold rel ys m)) = length (nodes m)"
  "length (columns (fold rel ys m)) = length (columns m)"
  "num_columns (fold rel ys m) = num_columns m"
  by (induction ys arbitrary: m) simp_all

lemma fold_unl_static [simp]:
  "right (nodes (fold unl ys m) ! i) = right (nodes m ! i)"
  "left (nodes (fold unl ys m) ! i) = left (nodes m ! i)"
  "column (nodes (fold unl ys m) ! i) = column (nodes m ! i)"
  "row (nodes (fold unl ys m) ! i) = row (nodes m ! i)"
  by (induction ys arbitrary: m) simp_all

lemma fold_rel_static [simp]:
  "right (nodes (fold rel ys m) ! i) = right (nodes m ! i)"
  "left (nodes (fold rel ys m) ! i) = left (nodes m ! i)"
  "column (nodes (fold rel ys m) ! i) = column (nodes m ! i)"
  "row (nodes (fold rel ys m) ! i) = row (nodes m ! i)"
  by (induction ys arbitrary: m) simp_all

lemma fold_unl_frame:
  assumes "unl_ok ys m" "\<forall>y \<in> set ys. column (nodes m ! y) \<noteq> column (nodes m ! i)"
  shows "nodes (fold unl ys m) ! i = nodes m ! i"
  using assms
proof (induction ys arbitrary: m)
  case Nil
  then show ?case by simp
next
  case (Cons y ys)
  have lk: "linkable m y" using Cons.prems(1) by (simp add: linked_def)
  have "nodes (fold unl ys (unl y m)) ! i = nodes (unl y m) ! i"
    using Cons.prems by (intro Cons.IH) simp_all
  also have "\<dots> = nodes m ! i"
    using Cons.prems(2) by (intro unl_frame[OF lk]) simp
  finally show ?case by simp
qed

lemma fold_rel_frame:
  assumes "rel_ok ys m" "\<forall>y \<in> set ys. column (nodes m ! y) \<noteq> column (nodes m ! i)"
  shows "nodes (fold rel ys m) ! i = nodes m ! i"
  using assms
proof (induction ys arbitrary: m)
  case Nil
  then show ?case by simp
next
  case (Cons y ys)
  have lk: "linkable m y" using Cons.prems(1) by simp
  have "nodes (fold rel ys (rel y m)) ! i = nodes (rel y m) ! i"
    using Cons.prems by (intro Cons.IH) simp_all
  also have "\<dots> = nodes m ! i"
    using Cons.prems(2) by (intro rel_frame[OF lk]) simp
  finally show ?case by simp
qed

section \<open>The loops of cover and uncover on well-linked lists\<close>

lemma py_index_nat [simp]: "i < length xs \<Longrightarrow> py_index xs (int i) = Some i"
  by (simp add: py_index_def)

lemma cover_row_loop_fold:
  assumes "chain (\<lambda>i. right (nodes (matrix s) ! i)) a ys x" "x \<notin> set ys"
    and "unl_ok ys (matrix s)"
  shows "cover_row_loop (int x) (right (nodes (matrix s) ! a)) s =
         Some (Inr (s\<lparr>matrix := fold unl ys (matrix s),
                      operations := operations s + int (length ys)\<rparr>))"
  using assms
proof (induction ys arbitrary: a s)
  case Nil
  then show ?case by (subst cover_row_loop.simps) simp
next
  case (Cons y ys)
  define s' where "s' = s\<lparr>matrix := unl y (matrix s), operations := operations s + 1\<rparr>"
  have ra: "right (nodes (matrix s) ! a) = int y" and yx: "y \<noteq> x"
    and lk: "linked (matrix s) y" using Cons.prems by auto
  have lk': "linkable (matrix s) y" using lk by (simp add: linked_def)
  have y: "y < length (nodes (matrix s))" using lk' by (simp add: linkable_def Let_def)
  have ih: "cover_row_loop (int x) (right (nodes (matrix s') ! y)) s' =
         Some (Inr (s'\<lparr>matrix := fold unl ys (matrix s'),
                      operations := operations s' + int (length ys)\<rparr>))"
    using Cons.prems by (intro Cons.IH) (simp_all add: s'_def)
  have "cover_row_loop (int x) (right (nodes (matrix s) ! a)) s =
        cover_row_loop (int x) (right (nodes (matrix s') ! y)) s'"
    using yx y by (subst cover_row_loop.simps)
      (simp add: ra unlink_node_linkable[OF lk'] s'_def)
  then show ?case using ih by (simp add: s'_def)
qed

lemma uncover_row_loop_fold:
  assumes "chain (\<lambda>i. left (nodes (matrix s) ! i)) a ys x" "x \<notin> set ys"
    and "rel_ok ys (matrix s)"
  shows "uncover_row_loop (int x) (left (nodes (matrix s) ! a)) s =
         Some (Inr (s\<lparr>matrix := fold rel ys (matrix s),
                      operations := operations s + int (length ys)\<rparr>))"
  using assms
proof (induction ys arbitrary: a s)
  case Nil
  then show ?case by (subst uncover_row_loop.simps) simp
next
  case (Cons y ys)
  define s' where "s' = s\<lparr>matrix := rel y (matrix s), operations := operations s + 1\<rparr>"
  have ra: "left (nodes (matrix s) ! a) = int y" and yx: "y \<noteq> x"
    and lk': "linkable (matrix s) y" using Cons.prems by auto
  have y: "y < length (nodes (matrix s))" using lk' by (simp add: linkable_def Let_def)
  have ih: "uncover_row_loop (int x) (left (nodes (matrix s') ! y)) s' =
         Some (Inr (s'\<lparr>matrix := fold rel ys (matrix s'),
                      operations := operations s' + int (length ys)\<rparr>))"
    using Cons.prems by (intro Cons.IH) (simp_all add: s'_def)
  have "uncover_row_loop (int x) (left (nodes (matrix s) ! a)) s =
        uncover_row_loop (int x) (left (nodes (matrix s') ! y)) s'"
    using yx y by (subst uncover_row_loop.simps)
      (simp add: ra relink_node_linkable[OF lk'] s'_def)
  then show ?case using ih by (simp add: s'_def)
qed

lemma cover_col_loop_fold:
  assumes "chain (\<lambda>i. down (nodes (matrix s) ! i)) a xs h" "h \<notin> set xs"
    and "\<forall>x \<in> set xs. x < length (nodes (matrix s)) \<and>
           chain (\<lambda>i. right (nodes (matrix s) ! i)) x (oth x) x \<and> x \<notin> set (oth x)"
    and "unl_ok (concat (map oth xs)) (matrix s)"
    and "\<forall>x \<in> set xs. \<forall>y \<in> set (concat (map oth xs)).
           column (nodes (matrix s) ! y) \<noteq> column (nodes (matrix s) ! x)"
  shows "cover_col_loop (int h) (down (nodes (matrix s) ! a)) s =
         Some (Inr (s\<lparr>matrix := fold unl (concat (map oth xs)) (matrix s),
                      operations := operations s + int (length (concat (map oth xs)))\<rparr>))"
  using assms
proof (induction xs arbitrary: a s)
  case Nil
  then show ?case by (subst cover_col_loop.simps) simp
next
  case (Cons x xs)
  define m where "m = matrix s"
  define s1 where "s1 = s\<lparr>matrix := fold unl (oth x) m,
                           operations := operations s + int (length (oth x))\<rparr>"
  have da: "down (nodes m ! a) = int x" and ch: "chain (\<lambda>i. down (nodes m ! i)) x xs h"
    and xh: "x \<noteq> h" and x: "x < length (nodes m)"
    and rx: "chain (\<lambda>i. right (nodes m ! i)) x (oth x) x" "x \<notin> set (oth x)"
    and ok1: "unl_ok (oth x) m" and ok2: "unl_ok (concat (map oth xs)) (fold unl (oth x) m)"
    using Cons.prems by (auto simp: m_def unl_ok_append)
  have fr: "\<forall>z \<in> set (x # xs). \<forall>y \<in> set (oth x). column (nodes m ! y) \<noteq> column (nodes m ! z)"
    using Cons.prems(5) by (auto simp: m_def)
  have same: "nodes (fold unl (oth x) m) ! z = nodes m ! z" if "z \<in> set (x # xs)" for z
    using fr that by (intro fold_unl_frame[OF ok1]) auto
  have inner: "cover_row_loop (int x) (right (nodes m ! x)) s = Some (Inr s1)"
    unfolding s1_def m_def using rx ok1 by (intro cover_row_loop_fold) (simp_all add: m_def)
  have ch1: "chain (\<lambda>i. down (nodes (matrix s1) ! i)) x xs h"
  proof -
    have "chain (\<lambda>i. down (nodes (fold unl (oth x) m) ! i)) x xs h =
          chain (\<lambda>i. down (nodes m ! i)) x xs h"
      by (rule chain_cong) (simp add: same)
    then show ?thesis using ch by (simp add: s1_def)
  qed
  have ih: "cover_col_loop (int h) (down (nodes (matrix s1) ! x)) s1 =
         Some (Inr (s1\<lparr>matrix := fold unl (concat (map oth xs)) (matrix s1),
                      operations := operations s1 + int (length (concat (map oth xs)))\<rparr>))"
  proof (rule Cons.IH[OF ch1])
    show "h \<notin> set xs" using Cons.prems(2) by simp
    show "\<forall>x \<in> set xs. x < length (nodes (matrix s1)) \<and>
           chain (\<lambda>i. right (nodes (matrix s1) ! i)) x (oth x) x \<and> x \<notin> set (oth x)"
      using Cons.prems(3) by (simp add: s1_def m_def)
    show "unl_ok (concat (map oth xs)) (matrix s1)" using ok2 by (simp add: s1_def)
    show "\<forall>x \<in> set xs. \<forall>y \<in> set (concat (map oth xs)).
           column (nodes (matrix s1) ! y) \<noteq> column (nodes (matrix s1) ! x)"
      using Cons.prems(5) by (simp add: s1_def m_def)
  qed
  have dx: "down (nodes (matrix s1) ! x) = down (nodes m ! x)"
    using same[of x] by (simp add: s1_def)
  have "cover_col_loop (int h) (down (nodes m ! a)) s =
        cover_col_loop (int h) (down (nodes (matrix s1) ! x)) s1"
    using xh x by (subst cover_col_loop.simps) (simp add: da m_def[symmetric] inner)
  then show ?case using ih by (simp add: s1_def m_def add.assoc)
qed

lemma uncover_col_loop_fold:
  assumes "chain (\<lambda>i. up (nodes (matrix s) ! i)) a xs h" "h \<notin> set xs"
    and "\<forall>x \<in> set xs. x < length (nodes (matrix s)) \<and>
           chain (\<lambda>i. left (nodes (matrix s) ! i)) x (oth x) x \<and> x \<notin> set (oth x)"
    and "rel_ok (concat (map oth xs)) (matrix s)"
    and "\<forall>x \<in> set xs. \<forall>y \<in> set (concat (map oth xs)).
           column (nodes (matrix s) ! y) \<noteq> column (nodes (matrix s) ! x)"
  shows "uncover_col_loop (int h) (up (nodes (matrix s) ! a)) s =
         Some (Inr (s\<lparr>matrix := fold rel (concat (map oth xs)) (matrix s),
                      operations := operations s + int (length (concat (map oth xs)))\<rparr>))"
  using assms
proof (induction xs arbitrary: a s)
  case Nil
  then show ?case by (subst uncover_col_loop.simps) simp
next
  case (Cons x xs)
  define m where "m = matrix s"
  define s1 where "s1 = s\<lparr>matrix := fold rel (oth x) m,
                           operations := operations s + int (length (oth x))\<rparr>"
  have da: "up (nodes m ! a) = int x" and ch: "chain (\<lambda>i. up (nodes m ! i)) x xs h"
    and xh: "x \<noteq> h" and x: "x < length (nodes m)"
    and rx: "chain (\<lambda>i. left (nodes m ! i)) x (oth x) x" "x \<notin> set (oth x)"
    and ok1: "rel_ok (oth x) m" and ok2: "rel_ok (concat (map oth xs)) (fold rel (oth x) m)"
    using Cons.prems by (auto simp: m_def rel_ok_append)
  have fr: "\<forall>z \<in> set (x # xs). \<forall>y \<in> set (oth x). column (nodes m ! y) \<noteq> column (nodes m ! z)"
    using Cons.prems(5) by (auto simp: m_def)
  have same: "nodes (fold rel (oth x) m) ! z = nodes m ! z" if "z \<in> set (x # xs)" for z
    using fr that by (intro fold_rel_frame[OF ok1]) auto
  have inner: "uncover_row_loop (int x) (left (nodes m ! x)) s = Some (Inr s1)"
    unfolding s1_def m_def using rx ok1 by (intro uncover_row_loop_fold) (simp_all add: m_def)
  have ch1: "chain (\<lambda>i. up (nodes (matrix s1) ! i)) x xs h"
  proof -
    have "chain (\<lambda>i. up (nodes (fold rel (oth x) m) ! i)) x xs h =
          chain (\<lambda>i. up (nodes m ! i)) x xs h"
      by (rule chain_cong) (simp add: same)
    then show ?thesis using ch by (simp add: s1_def)
  qed
  have ih: "uncover_col_loop (int h) (up (nodes (matrix s1) ! x)) s1 =
         Some (Inr (s1\<lparr>matrix := fold rel (concat (map oth xs)) (matrix s1),
                      operations := operations s1 + int (length (concat (map oth xs)))\<rparr>))"
  proof (rule Cons.IH[OF ch1])
    show "h \<notin> set xs" using Cons.prems(2) by simp
    show "\<forall>x \<in> set xs. x < length (nodes (matrix s1)) \<and>
           chain (\<lambda>i. left (nodes (matrix s1) ! i)) x (oth x) x \<and> x \<notin> set (oth x)"
      using Cons.prems(3) by (simp add: s1_def m_def)
    show "rel_ok (concat (map oth xs)) (matrix s1)" using ok2 by (simp add: s1_def)
    show "\<forall>x \<in> set xs. \<forall>y \<in> set (concat (map oth xs)).
           column (nodes (matrix s1) ! y) \<noteq> column (nodes (matrix s1) ! x)"
      using Cons.prems(5) by (simp add: s1_def m_def)
  qed
  have dx: "up (nodes (matrix s1) ! x) = up (nodes m ! x)"
    using same[of x] by (simp add: s1_def)
  have "uncover_col_loop (int h) (up (nodes m ! a)) s =
        uncover_col_loop (int h) (up (nodes (matrix s1) ! x)) s1"
    using xh x by (subst uncover_col_loop.simps) (simp add: da m_def[symmetric] inner)
  then show ?case using ih by (simp add: s1_def m_def add.assoc)
qed

lemma unlh_simps [simp]:
  "length (nodes (unlh h m)) = length (nodes m)" "columns (unlh h m) = columns m"
  "num_columns (unlh h m) = num_columns m" "header_idx (unlh h m) = header_idx m"
  "up (nodes (unlh h m) ! i) = up (nodes m ! i)"
  "down (nodes (unlh h m) ! i) = down (nodes m ! i)"
  "column (nodes (unlh h m) ! i) = column (nodes m ! i)"
  "row (nodes (unlh h m) ! i) = row (nodes m ! i)"
  by (simp_all add: unlh_def Let_def nth_update_field)

lemma relh_simps [simp]:
  "length (nodes (relh h m)) = length (nodes m)" "columns (relh h m) = columns m"
  "num_columns (relh h m) = num_columns m" "header_idx (relh h m) = header_idx m"
  "up (nodes (relh h m) ! i) = up (nodes m ! i)"
  "down (nodes (relh h m) ! i) = down (nodes m ! i)"
  "column (nodes (relh h m) ! i) = column (nodes m ! i)"
  "row (nodes (relh h m) ! i) = row (nodes m ! i)"
  by (simp_all add: relh_def Let_def nth_update_field)

lemma unlh_right:
  assumes "hlinkable m h"
  shows "right (nodes (unlh h m) ! i) =
           (if i = nat (left (nodes m ! h)) then right (nodes m ! h) else right (nodes m ! i))"
  using assms
  by (cases "i = nat (right (nodes m ! h))")
     (auto simp: unlh_def Let_def hlinkable_def nth_list_update)

lemma unlh_left:
  assumes "hlinkable m h"
  shows "left (nodes (unlh h m) ! i) =
           (if i = nat (right (nodes m ! h)) then left (nodes m ! h) else left (nodes m ! i))"
  using assms
  by (cases "i = nat (left (nodes m ! h))")
     (auto simp: unlh_def Let_def hlinkable_def nth_list_update)

lemma relh_right:
  assumes "hlinkable m h"
  shows "right (nodes (relh h m) ! i) =
           (if i = nat (left (nodes m ! h)) then int h else right (nodes m ! i))"
  using assms
  by (cases "i = nat (right (nodes m ! h))")
     (auto simp: relh_def Let_def hlinkable_def nth_list_update)

lemma relh_left:
  assumes "hlinkable m h"
  shows "left (nodes (relh h m) ! i) =
           (if i = nat (right (nodes m ! h)) then int h else left (nodes m ! i))"
  using assms
  by (cases "i = nat (left (nodes m ! h))")
     (auto simp: relh_def Let_def hlinkable_def nth_list_update)

lemma unlh_frame:
  "i \<noteq> nat (left (nodes m ! h)) \<Longrightarrow> i \<noteq> nat (right (nodes m ! h)) \<Longrightarrow>
   nodes (unlh h m) ! i = nodes m ! i"
  by (simp add: unlh_def Let_def)

lemma hlinkable_unlh:
  assumes "hlinkable m h"
  shows "hlinkable (unlh h m) h"
    "left (nodes (unlh h m) ! h) = left (nodes m ! h)"
    "right (nodes (unlh h m) ! h) = right (nodes m ! h)"
proof -
  have ne: "h \<noteq> nat (left (nodes m ! h))" "h \<noteq> nat (right (nodes m ! h))"
    using assms by (auto simp: hlinkable_def Let_def)
  have "nodes (unlh h m) ! h = nodes m ! h" using ne by (rule unlh_frame)
  then show "hlinkable (unlh h m) h"
    "left (nodes (unlh h m) ! h) = left (nodes m ! h)"
    "right (nodes (unlh h m) ! h) = right (nodes m ! h)"
    using assms by (simp_all add: hlinkable_def Let_def)
qed

lemma unlink_header_hlinkable:
  assumes "hlinkable m h"
  shows "unlink_header h m = Inr (unlh h m)"
proof -
  define l where "l = left (nodes m ! h)"
  define r where "r = right (nodes m ! h)"
  have l: "0 \<le> l" "l < int (length (nodes m))" "nat l \<noteq> h"
    and r: "0 \<le> r" "r < int (length (nodes m))" "nat r \<noteq> h"
    using assms by (simp_all add: hlinkable_def Let_def l_def r_def)
  define m1 where "m1 = m\<lparr>nodes := (nodes m)[nat l := (nodes m ! nat l)\<lparr>right := r\<rparr>]\<rparr>"
  have s1: "nodes_set l (\<lambda>x. x\<lparr>right := r\<rparr>) m = Inr m1"
    using l by (simp add: nodes_set_nonneg m1_def)
  have h1: "nodes m1 ! h = nodes m ! h" using l by (simp add: m1_def)
  have s2: "nodes_set r (\<lambda>x. x\<lparr>left := l\<rparr>) m1 = Inr (unlh h m)"
    using r by (simp add: nodes_set_nonneg m1_def unlh_def Let_def l_def r_def)
  show ?thesis
    unfolding unlink_header_def l_def[symmetric] r_def[symmetric] s1 ebind_simps h1 s2
    by (rule refl)
qed

lemma relink_header_hlinkable:
  assumes "hlinkable m h"
  shows "relink_header (int h) h m = Inr (relh h m)"
proof -
  define l where "l = left (nodes m ! h)"
  define r where "r = right (nodes m ! h)"
  have l: "0 \<le> l" "l < int (length (nodes m))" "nat l \<noteq> h"
    and r: "0 \<le> r" "r < int (length (nodes m))" "nat r \<noteq> h"
    using assms by (simp_all add: hlinkable_def Let_def l_def r_def)
  define m1 where "m1 = m\<lparr>nodes := (nodes m)[nat l := (nodes m ! nat l)\<lparr>right := int h\<rparr>]\<rparr>"
  have s1: "nodes_set l (\<lambda>x. x\<lparr>right := int h\<rparr>) m = Inr m1"
    using l by (simp add: nodes_set_nonneg m1_def)
  have h1: "nodes m1 ! h = nodes m ! h" using l by (simp add: m1_def)
  have s2: "nodes_set r (\<lambda>x. x\<lparr>left := int h\<rparr>) m1 = Inr (relh h m)"
    using r by (simp add: nodes_set_nonneg m1_def relh_def Let_def l_def r_def)
  show ?thesis
    unfolding relink_header_def l_def[symmetric] s1 ebind_simps h1 r_def[symmetric] s2
    by (rule refl)
qed

lemma relh_unlh:
  assumes "hlinkable m h"
    and "right (nodes m ! nat (left (nodes m ! h))) = int h"
    and "left (nodes m ! nat (right (nodes m ! h))) = int h"
  shows "relh h (unlh h m) = m"
proof -
  have lk': "hlinkable (unlh h m) h" using assms(1) by (rule hlinkable_unlh)
  have nd: "nodes (relh h (unlh h m)) = nodes m"
  proof (rule nth_equalityI)
    show "length (nodes (relh h (unlh h m))) = length (nodes m)" by simp
  next
    fix i assume "i < length (nodes (relh h (unlh h m)))"
    have "right (nodes (relh h (unlh h m)) ! i) = right (nodes m ! i)"
      using assms(2) by (simp add: relh_right[OF lk'] unlh_right[OF assms(1)] hlinkable_unlh[OF assms(1)])
    moreover have "left (nodes (relh h (unlh h m)) ! i) = left (nodes m ! i)"
      using assms(3) by (simp add: relh_left[OF lk'] unlh_left[OF assms(1)] hlinkable_unlh[OF assms(1)])
    ultimately show "nodes (relh h (unlh h m)) ! i = nodes m ! i"
      by (intro DLXNode.equality) simp_all
  qed
  show ?thesis
    using nd by (intro Matrix.equality) simp_all
qed

lemma filter_rows_unique:
  assumes "distinct (concat rows)" "R \<in> set rows" "x \<in> set R"
  shows "filter (\<lambda>R. x \<in> set R) rows = [R]"
  using assms
proof (induction rows)
  case Nil
  then show ?case by simp
next
  case (Cons R0 rows)
  have d: "distinct (concat rows)" and dj: "set R0 \<inter> set (concat rows) = {}"
    using Cons.prems(1) by auto
  show ?case
  proof (cases "x \<in> set R0")
    case True
    then have "\<forall>R' \<in> set rows. x \<notin> set R'" using dj by auto
    then have "filter (\<lambda>R. x \<in> set R) rows = []" by (simp add: filter_empty_conv)
    moreover have "R = R0" using True Cons.prems(2,3) dj by auto
    ultimately show ?thesis using True by simp
  next
    case False
    then have "R \<in> set rows" using Cons.prems(2,3) by auto
    then show ?thesis using False Cons.IH[OF d _ Cons.prems(3)] by simp
  qed
qed

lemma distinct_row: "distinct (concat rows) \<Longrightarrow> R \<in> set rows \<Longrightarrow> distinct R"
  by (induction rows) auto

lemma takeWhile_neq_split: "x \<notin> set a \<Longrightarrow> takeWhile (\<lambda>z. z \<noteq> x) (a @ x # b) = a"
  by (induction a) auto

lemma dropWhile_neq_split: "x \<notin> set a \<Longrightarrow> dropWhile (\<lambda>z. z \<noteq> x) (a @ x # b) = x # b"
  by (induction a) auto

lemma others_split:
  assumes "distinct (concat rows)" "R \<in> set rows" "R = a @ x # b"
  shows "others rows x = b @ a"
proof -
  have dR: "distinct (a @ x # b)" using distinct_row[OF assms(1,2)] assms(3) by simp
  then have xa: "x \<notin> set a" by auto
  have tw: "takeWhile (\<lambda>z. z \<noteq> x) (a @ x # b) = a"
    using xa by (rule takeWhile_neq_split)
  have dw: "dropWhile (\<lambda>z. z \<noteq> x) (a @ x # b) = x # b"
    using xa by (rule dropWhile_neq_split)
  have "filter (\<lambda>R. x \<in> set R) rows = [R]"
    using assms by (intro filter_rows_unique) auto
  then show ?thesis by (simp add: others_def assms(3) tw dw)
qed

lemma others_props:
  assumes wf: "wf_rows m rows" and R: "R \<in> set rows" and x: "x \<in> set R"
  shows "chain (\<lambda>i. right (nodes m ! i)) x (others rows x) x"
    and "chain (\<lambda>i. left (nodes m ! i)) x (rev (others rows x)) x"
    and "set (others rows x) = set R - {x}"
    and "distinct (others rows x)"
proof -
  have d: "distinct (concat rows)" using wf by (simp add: wf_rows_def)
  have dR: "distinct R" using distinct_row[OF d R] .
  obtain a b where ab: "R = a @ x # b" using x by (meson split_list)
  have o: "others rows x = b @ a" using others_split[OF d R ab] .
  have chr: "chain (\<lambda>i. right (nodes m ! i)) (hd R) (tl R) (hd R)"
    and chl: "chain (\<lambda>i. left (nodes m ! i)) (hd R) (rev (tl R)) (hd R)"
    using wf R by (simp_all add: wf_rows_def)
  show "set (others rows x) = set R - {x}" using dR by (auto simp: o ab)
  show "distinct (others rows x)" using dR by (auto simp: o ab)
  show "chain (\<lambda>i. right (nodes m ! i)) x (others rows x) x"
  proof (cases a)
    case Nil
    then show ?thesis using chr by (simp add: o ab)
  next
    case (Cons a0 a')
    then have "chain (\<lambda>i. right (nodes m ! i)) a0 (a' @ x # b) a0" using chr by (simp add: ab)
    then show ?thesis using Cons by (simp add: o chain_append)
  qed
  show "chain (\<lambda>i. left (nodes m ! i)) x (rev (others rows x)) x"
  proof (cases a)
    case Nil
    then show ?thesis using chl by (simp add: o ab)
  next
    case (Cons a0 a')
    then have "chain (\<lambda>i. left (nodes m ! i)) a0 (rev b @ x # rev a') a0" using chl by (simp add: ab)
    then show ?thesis using Cons by (simp add: o chain_append)
  qed
qed

lemma wf_rows_cong:
  assumes "wf_rows m rows" "length (nodes m') = length (nodes m)"
    "length (columns m') = length (columns m)"
    and "\<And>i. length (columns m) < i \<Longrightarrow> right (nodes m' ! i) = right (nodes m ! i)"
    and "\<And>i. length (columns m) < i \<Longrightarrow> left (nodes m' ! i) = left (nodes m ! i)"
    and "\<And>i. column (nodes m' ! i) = column (nodes m ! i)"
  shows "wf_rows m' rows"
proof -
  have "chain (\<lambda>i. right (nodes m' ! i)) (hd R) (tl R) (hd R) =
        chain (\<lambda>i. right (nodes m ! i)) (hd R) (tl R) (hd R)"
    and "chain (\<lambda>i. left (nodes m' ! i)) (hd R) (rev (tl R)) (hd R) =
        chain (\<lambda>i. left (nodes m ! i)) (hd R) (rev (tl R)) (hd R)"
    if R: "R \<in> set rows" for R
  proof -
    have ne: "R \<noteq> []" and b: "\<forall>x \<in> set R. length (columns m) < x"
      using assms(1) R by (auto simp: wf_rows_def)
    have mem: "set (hd R # tl R) = set R" using ne by (cases R) auto
    show "chain (\<lambda>i. right (nodes m' ! i)) (hd R) (tl R) (hd R) =
        chain (\<lambda>i. right (nodes m ! i)) (hd R) (tl R) (hd R)"
      using b mem by (intro chain_cong assms(4)) auto
    have mem': "set (hd R # rev (tl R)) = set R" using ne by (cases R) auto
    show "chain (\<lambda>i. left (nodes m' ! i)) (hd R) (rev (tl R)) (hd R) =
        chain (\<lambda>i. left (nodes m ! i)) (hd R) (rev (tl R)) (hd R)"
      using b mem' by (intro chain_cong assms(5)) auto
  qed
  then show ?thesis
    using assms(1) by (simp add: wf_rows_def assms(2,3,6))
qed

lemma wf_rows_bounds:
  assumes "wf_rows m rows" "x \<in> set (concat rows)"
  shows "length (columns m) < x" "x < length (nodes m)"
    "1 \<le> column (nodes m ! x)" "column (nodes m ! x) \<le> int (length (columns m))"
  using assms by (auto simp: wf_rows_def)

lemma last_rev_hd: "last (h # rev b) = hd (b @ [h])"
  by (cases b) auto

lemma hd_rev_last: "hd (rev a @ [h]) = last (h # a)"
  by (cases a rule: rev_cases) auto

lemma filter_neq_notin: "y \<notin> set xs \<Longrightarrow> filter (\<lambda>z. z \<noteq> y) xs = xs"
  by (induction xs) auto

lemma vcol_unl:
  assumes ar: "wf_arena m" and wr: "wf_rows m rows"
    and h: "1 \<le> h" "h \<le> length (columns m)"
    and v: "vcol m rows h L" and y: "y \<in> set L"
  shows "linked m y" and "vcol (unl y m) rows h (filter (\<lambda>z. z \<noteq> y) L)"
    and "\<And>h' L'. 1 \<le> h' \<Longrightarrow> h' \<le> length (columns m) \<Longrightarrow> h' \<noteq> h \<Longrightarrow>
           vcol m rows h' L' \<Longrightarrow> vcol (unl y m) rows h' L'"
proof -
  have chd: "chain (\<lambda>i. down (nodes m ! i)) h L h"
    and chu: "chain (\<lambda>i. up (nodes m ! i)) h (rev L) h"
    and dL: "distinct L"
    and mem: "\<And>x. x \<in> set L \<Longrightarrow> column (nodes m ! x) = int h \<and> x \<in> set (concat rows)"
    and sz: "c_size (columns m ! (h - 1)) = int (length L)"
    using v by (simp_all add: vcol_def)
  have hN: "h < length (nodes m)" and colh: "column (nodes m ! h) = int h"
    using ar h by (simp_all add: wf_arena_def)
  have bnd: "length (columns m) < x \<and> x < length (nodes m)" if "x \<in> set L" for x
    using wf_rows_bounds[OF wr, of x] mem[OF that] by simp
  obtain a b where ab: "L = a @ y # b" using y by (meson split_list)
  define p where "p = last (h # a)"
  define q where "q = hd (b @ [h])"
  have "down (nodes m ! last (h # a)) = int y \<and> down (nodes m ! y) = int (hd (b @ [h]))"
    by (rule chain_mid[where f = "\<lambda>i. down (nodes m ! i)" and t = h])
       (use chd in \<open>simp add: ab\<close>)
  then have dm: "down (nodes m ! p) = int y" "down (nodes m ! y) = int q"
    unfolding p_def q_def by blast+
  have "up (nodes m ! last (h # rev b)) = int y \<and> up (nodes m ! y) = int (hd (rev a @ [h]))"
    by (rule chain_mid[where f = "\<lambda>i. up (nodes m ! i)" and t = h])
       (use chu in \<open>simp add: ab\<close>)
  then have um: "up (nodes m ! q) = int y" "up (nodes m ! y) = int p"
    unfolding last_rev_hd hd_rev_last p_def q_def by blast+
  have yh: "y \<noteq> h" using bnd[OF y] h by simp
  have hnL: "h \<notin> set L"
  proof
    assume "h \<in> set L"
    from bnd[OF this] h show False by simp
  qed
  have dst: "distinct (h # a @ y # b)"
    using dL hnL by (auto simp: ab)
  have pin: "p \<in> set (h # a)" unfolding p_def by (rule last_in_set) simp
  have qin: "q \<in> set (b @ [h])" unfolding q_def by (rule hd_in_set) simp
  have py: "p \<noteq> y" using pin dst by auto
  have qy: "q \<noteq> y" using qin dst by auto
  have hL: "\<And>x. x \<in> set (h # L) \<Longrightarrow> x < length (nodes m) \<and> column (nodes m ! x) = int h"
    using hN colh bnd mem by auto
  have pL: "p \<in> set (h # L)" using pin by (auto simp: ab)
  have qL: "q \<in> set (h # L)" using qin by (auto simp: ab)
  have lk: "linkable m y"
    using hL[OF pL] hL[OF qL] hL[of y] y py qy h
    by (simp add: linkable_def Let_def dm um)
  show lkd: "linked m y"
    using lk by (simp add: linked_def dm um)
  have down': "down (nodes (unl y m) ! i) = (if i = p then int q else down (nodes m ! i))" for i
    by (simp add: unl_down[OF lk] um dm)
  have up': "up (nodes (unl y m) ! i) = (if i = q then int p else up (nodes m ! i))" for i
    by (simp add: unl_up[OF lk] um dm)
  have c1: "chain (\<lambda>i. down (nodes (unl y m) ! i)) h (a @ b) h"
  proof (rule chain_remove[where f = "\<lambda>i. down (nodes m ! i)" and y = y])
    show "chain (\<lambda>i. down (nodes m ! i)) h (a @ y # b) h" using chd by (simp add: ab)
    show "distinct (h # a @ y # b)" by (rule dst)
    show "down (nodes (unl y m) ! last (h # a)) = down (nodes m ! y)"
      unfolding p_def[symmetric] by (simp add: down' dm)
    show "\<And>i. i \<noteq> last (h # a) \<Longrightarrow> down (nodes (unl y m) ! i) = down (nodes m ! i)"
      unfolding p_def[symmetric] by (simp add: down')
  qed
  have c2: "chain (\<lambda>i. up (nodes (unl y m) ! i)) h (rev b @ rev a) h"
  proof (rule chain_remove[where f = "\<lambda>i. up (nodes m ! i)" and y = y])
    show "chain (\<lambda>i. up (nodes m ! i)) h (rev b @ y # rev a) h" using chu by (simp add: ab)
    show "distinct (h # rev b @ y # rev a)" using dst by auto
    show "up (nodes (unl y m) ! last (h # rev b)) = up (nodes m ! y)"
      unfolding last_rev_hd q_def[symmetric] by (simp add: up' um)
    show "\<And>i. i \<noteq> last (h # rev b) \<Longrightarrow> up (nodes (unl y m) ! i) = up (nodes m ! i)"
      unfolding last_rev_hd q_def[symmetric] by (simp add: up')
  qed
  have flt: "filter (\<lambda>z. z \<noteq> y) L = a @ b"
    using dL by (simp add: ab filter_neq_notin)
  have cy: "nat (column (nodes m ! y) - 1) = h - 1"
    using mem[OF y] h by simp
  have sz': "c_size (columns (unl y m) ! (h - 1)) = int (length (a @ b))"
    using h sz by (simp add: unl_size cy ab)
  show "vcol (unl y m) rows h (filter (\<lambda>z. z \<noteq> y) L)"
    unfolding flt vcol_def
    using c1 c2 dL mem sz' by (auto simp: ab)
  show "vcol (unl y m) rows h' L'"
    if h': "1 \<le> h'" "h' \<le> length (columns m)" "h' \<noteq> h" and v': "vcol m rows h' L'"
    for h' L'
  proof -
    have colh': "column (nodes m ! h') = int h'" using ar h' by (simp add: wf_arena_def)
    have mem': "\<And>x. x \<in> set L' \<Longrightarrow> column (nodes m ! x) = int h'"
      using v' by (simp add: vcol_def)
    have same: "nodes (unl y m) ! i = nodes m ! i" if "i \<in> set (h' # L')" for i
    proof -
      have "column (nodes m ! i) = int h'" using that colh' mem' by auto
      then have "column (nodes m ! i) \<noteq> column (nodes m ! y)"
        using mem[OF y] h'(3) by simp
      then show ?thesis by (rule unl_frame[OF lk])
    qed
    have d: "chain (\<lambda>i. down (nodes (unl y m) ! i)) h' L' h' = chain (\<lambda>i. down (nodes m ! i)) h' L' h'"
      by (rule chain_cong) (simp add: same)
    have u: "chain (\<lambda>i. up (nodes (unl y m) ! i)) h' (rev L') h' = chain (\<lambda>i. up (nodes m ! i)) h' (rev L') h'"
      by (rule chain_cong) (use same in auto)
    have "h' - 1 \<noteq> h - 1" using h h' by simp
    then have s: "c_size (columns (unl y m) ! (h' - 1)) = c_size (columns m ! (h' - 1))"
      using h' by (simp add: unl_size cy)
    show ?thesis using v' s by (simp add: vcol_def d u)
  qed
qed

lemma wf_arena_cong:
  assumes "wf_arena m" "length (nodes m') = length (nodes m)"
    "length (columns m') = length (columns m)" "num_columns m' = num_columns m"
    and "\<And>i. column (nodes m' ! i) = column (nodes m ! i)"
  shows "wf_arena m'"
  using assms by (simp add: wf_arena_def)

lemma wf_arena_unl: "wf_arena m \<Longrightarrow> wf_arena (unl y m)"
  by (erule wf_arena_cong) simp_all

lemma wf_rows_unl: "wf_rows m rows \<Longrightarrow> wf_rows (unl y m) rows"
  by (erule wf_rows_cong) simp_all

lemma wf_arena_fold_unl: "wf_arena m \<Longrightarrow> wf_arena (fold unl ys m)"
  by (erule wf_arena_cong) simp_all

lemma wf_rows_fold_unl: "wf_rows m rows \<Longrightarrow> wf_rows (fold unl ys m) rows"
  by (erule wf_rows_cong) simp_all

lemma vcols_fold_unl:
  assumes "wf_arena m" "wf_rows m rows"
    and "\<forall>h. 1 \<le> h \<and> h \<le> length (columns m) \<longrightarrow> vcol m rows h (vl h)"
    and "distinct ys"
    and "\<forall>y \<in> set ys. y \<in> set (concat rows) \<and> y \<in> set (vl (nat (column (nodes m ! y))))"
  shows "unl_ok ys m \<and>
         (\<forall>h. 1 \<le> h \<and> h \<le> length (columns m) \<longrightarrow>
            vcol (fold unl ys m) rows h (filter (\<lambda>z. z \<notin> set ys) (vl h)))"
  using assms
proof (induction ys arbitrary: m vl)
  case Nil
  then show ?case by simp
next
  case (Cons y ys)
  define hy where "hy = nat (column (nodes m ! y))"
  define vl1 where "vl1 = (\<lambda>h. filter (\<lambda>z. z \<noteq> y) (vl h))"
  have yr: "y \<in> set (concat rows)" and yv: "y \<in> set (vl hy)"
    using Cons.prems(5) by (simp_all add: hy_def)
  have cy: "1 \<le> column (nodes m ! y)" "column (nodes m ! y) \<le> int (length (columns m))"
    using wf_rows_bounds[OF Cons.prems(2) yr] by simp_all
  then have hy: "1 \<le> hy" "hy \<le> length (columns m)" "column (nodes m ! y) = int hy"
    by (simp_all add: hy_def)
  have vhy: "vcol m rows hy (vl hy)" using Cons.prems(3) hy by simp
  note st = vcol_unl[OF Cons.prems(1,2) hy(1,2) vhy yv]
  have v1: "vcol (unl y m) rows h (vl1 h)" if h: "1 \<le> h" "h \<le> length (columns m)" for h
  proof (cases "h = hy")
    case True
    then show ?thesis using st(2) by (simp add: vl1_def)
  next
    case False
    have vh: "vcol m rows h (vl h)" using Cons.prems(3) h by simp
    have "y \<notin> set (vl h)"
    proof
      assume "y \<in> set (vl h)"
      then have "column (nodes m ! y) = int h" using vh by (simp add: vcol_def)
      then show False using hy(3) False by simp
    qed
    then have "vl1 h = vl h" by (simp add: vl1_def filter_neq_notin)
    then show ?thesis using st(3)[OF h False vh] by simp
  qed
  have ih: "unl_ok ys (unl y m) \<and>
         (\<forall>h. 1 \<le> h \<and> h \<le> length (columns (unl y m)) \<longrightarrow>
            vcol (fold unl ys (unl y m)) rows h (filter (\<lambda>z. z \<notin> set ys) (vl1 h)))"
  proof (rule Cons.IH)
    show "wf_arena (unl y m)" using Cons.prems(1) by (rule wf_arena_unl)
    show "wf_rows (unl y m) rows" using Cons.prems(2) by (rule wf_rows_unl)
    show "\<forall>h. 1 \<le> h \<and> h \<le> length (columns (unl y m)) \<longrightarrow> vcol (unl y m) rows h (vl1 h)"
      using v1 by simp
    show "distinct ys" using Cons.prems(4) by simp
    show "\<forall>y' \<in> set ys. y' \<in> set (concat rows) \<and>
            y' \<in> set (vl1 (nat (column (nodes (unl y m) ! y'))))"
      using Cons.prems(4,5) by (auto simp: vl1_def)
  qed
  have flt: "filter (\<lambda>z. z \<notin> set ys) (vl1 h) = filter (\<lambda>z. z \<notin> set (y # ys)) (vl h)" for h
    by (auto simp: vl1_def intro: filter_cong)
  show ?case using st(1) ih by (simp add: flt del: set_simps)
qed

section \<open>Covering a column preserves the invariant\<close>

lemma hlist_unlh:
  assumes ar: "wf_arena m" and hl: "hlist m hs" and h: "h \<in> set hs"
  shows "hlinkable m h"
    and "right (nodes m ! nat (left (nodes m ! h))) = int h"
    and "left (nodes m ! nat (right (nodes m ! h))) = int h"
    and "nat (left (nodes m ! h)) \<le> length (columns m)"
    and "nat (right (nodes m ! h)) \<le> length (columns m)"
    and "hlist (unlh h m) (filter (\<lambda>z. z \<noteq> h) hs)"
proof -
  have chr: "chain (\<lambda>i. right (nodes m ! i)) 0 hs 0"
    and chl: "chain (\<lambda>i. left (nodes m ! i)) 0 (rev hs) 0"
    and srt: "sorted_wrt (<) hs"
    and bnd: "\<And>x. x \<in> set hs \<Longrightarrow> 1 \<le> x \<and> x \<le> length (columns m)"
    using hl by (simp_all add: hlist_def)
  have nN: "length (columns m) < length (nodes m)" using ar by (simp add: wf_arena_def)
  have dhs: "distinct hs" using srt by (simp add: strict_sorted_iff)
  obtain a b where ab: "hs = a @ h # b" using h by (meson split_list)
  define l where "l = last (0 # a)"
  define r where "r = hd (b @ [0])"
  have "right (nodes m ! last (0 # a)) = int h \<and> right (nodes m ! h) = int (hd (b @ [0]))"
    by (rule chain_mid[where f = "\<lambda>i. right (nodes m ! i)" and t = 0])
       (use chr in \<open>simp add: ab\<close>)
  then have rm: "right (nodes m ! l) = int h" "right (nodes m ! h) = int r"
    unfolding l_def r_def by blast+
  have "left (nodes m ! last (0 # rev b)) = int h \<and> left (nodes m ! h) = int (hd (rev a @ [0]))"
    by (rule chain_mid[where f = "\<lambda>i. left (nodes m ! i)" and t = 0])
       (use chl in \<open>simp add: ab\<close>)
  then have lm: "left (nodes m ! r) = int h" "left (nodes m ! h) = int l"
    unfolding last_rev_hd hd_rev_last l_def r_def by blast+
  have z: "0 \<notin> set hs"
  proof
    assume "0 \<in> set hs"
    from bnd[OF this] show False by simp
  qed
  have dst: "distinct (0 # a @ h # b)" using dhs z by (simp add: ab)
  have lin: "l \<in> set (0 # a)" unfolding l_def by (rule last_in_set) simp
  have rin: "r \<in> set (b @ [0])" unfolding r_def by (rule hd_in_set) simp
  have lh: "l \<noteq> h" using lin dst by auto
  have rh: "r \<noteq> h" using rin dst by auto
  have lb: "l \<le> length (columns m)" using lin bnd by (auto simp: ab)
  have rb: "r \<le> length (columns m)" using rin bnd by (auto simp: ab)
  have hb: "h < length (nodes m)" using bnd[OF h] nN by simp
  show lk: "hlinkable m h"
    using lh rh lb rb hb nN by (simp add: hlinkable_def Let_def lm rm)
  show "right (nodes m ! nat (left (nodes m ! h))) = int h" by (simp add: lm rm)
  show "left (nodes m ! nat (right (nodes m ! h))) = int h" by (simp add: lm rm)
  show "nat (left (nodes m ! h)) \<le> length (columns m)" using lb by (simp add: lm)
  show "nat (right (nodes m ! h)) \<le> length (columns m)" using rb by (simp add: rm)
  have right': "right (nodes (unlh h m) ! i) = (if i = l then int r else right (nodes m ! i))" for i
    by (simp add: unlh_right[OF lk] lm rm)
  have left': "left (nodes (unlh h m) ! i) = (if i = r then int l else left (nodes m ! i))" for i
    by (simp add: unlh_left[OF lk] lm rm)
  have c1: "chain (\<lambda>i. right (nodes (unlh h m) ! i)) 0 (a @ b) 0"
  proof (rule chain_remove[where f = "\<lambda>i. right (nodes m ! i)" and y = h])
    show "chain (\<lambda>i. right (nodes m ! i)) 0 (a @ h # b) 0" using chr by (simp add: ab)
    show "distinct (0 # a @ h # b)" by (rule dst)
    show "right (nodes (unlh h m) ! last (0 # a)) = right (nodes m ! h)"
      unfolding l_def[symmetric] by (simp add: right' rm)
    show "\<And>i. i \<noteq> last (0 # a) \<Longrightarrow> right (nodes (unlh h m) ! i) = right (nodes m ! i)"
      unfolding l_def[symmetric] by (simp add: right')
  qed
  have c2: "chain (\<lambda>i. left (nodes (unlh h m) ! i)) 0 (rev b @ rev a) 0"
  proof (rule chain_remove[where f = "\<lambda>i. left (nodes m ! i)" and y = h])
    show "chain (\<lambda>i. left (nodes m ! i)) 0 (rev b @ h # rev a) 0" using chl by (simp add: ab)
    show "distinct (0 # rev b @ h # rev a)" using dst by auto
    show "left (nodes (unlh h m) ! last (0 # rev b)) = left (nodes m ! h)"
      unfolding last_rev_hd r_def[symmetric] by (simp add: left' lm)
    show "\<And>i. i \<noteq> last (0 # rev b) \<Longrightarrow> left (nodes (unlh h m) ! i) = left (nodes m ! i)"
      unfolding last_rev_hd r_def[symmetric] by (simp add: left')
  qed
  have flt: "filter (\<lambda>z. z \<noteq> h) hs = a @ b"
    using dhs by (simp add: ab filter_neq_notin)
  have srt': "sorted_wrt (<) (a @ b)"
    using srt by (auto simp: ab sorted_wrt_append)
  show "hlist (unlh h m) (filter (\<lambda>z. z \<noteq> h) hs)"
    unfolding flt hlist_def using c1 c2 srt' bnd by (auto simp: ab)
qed

lemma wf_arena_unlh: "wf_arena m \<Longrightarrow> wf_arena (unlh h m)"
  by (erule wf_arena_cong) simp_all

lemma vcol_unlh: "vcol (unlh h m) rows h' L = vcol m rows h' L"
  by (simp add: vcol_def)

lemma wf_rows_unlh:
  assumes "wf_rows m rows" "hlinkable m h"
    "nat (left (nodes m ! h)) \<le> length (columns m)"
    "nat (right (nodes m ! h)) \<le> length (columns m)"
  shows "wf_rows (unlh h m) rows"
  using assms(1)
proof (rule wf_rows_cong)
  fix i assume "length (columns m) < i"
  then show "right (nodes (unlh h m) ! i) = right (nodes m ! i)"
    "left (nodes (unlh h m) ! i) = left (nodes m ! i)"
    using assms(3,4) by (simp_all add: unlh_right[OF assms(2)] unlh_left[OF assms(2)])
qed simp_all

lemma rows_disjoint:
  assumes "distinct (concat rows)" "R \<in> set rows" "R' \<in> set rows" "R \<noteq> R'"
  shows "set R \<inter> set R' = {}"
proof (rule ccontr)
  assume "set R \<inter> set R' \<noteq> {}"
  then obtain z where z: "z \<in> set R" "z \<in> set R'" by auto
  have "filter (\<lambda>R. z \<in> set R) rows = [R]" "filter (\<lambda>R. z \<in> set R) rows = [R']"
    using assms z by (auto intro: filter_rows_unique)
  then show False using assms(4) by simp
qed

lemma distinct_concat_map:
  assumes "distinct xs" "\<forall>x \<in> set xs. distinct (f x)"
    and "\<forall>x \<in> set xs. \<forall>x' \<in> set xs. x \<noteq> x' \<longrightarrow> set (f x) \<inter> set (f x') = {}"
  shows "distinct (concat (map f xs))"
  using assms by (induction xs) auto

lemma dlx_inv_header:
  assumes "dlx_inv m rows hs vl" "h \<in> set hs"
  shows "1 \<le> h" "h \<le> length (columns m)" "h < length (nodes m)" "vcol m rows h (vl h)"
  using assms by (auto simp: dlx_inv_def hlist_def wf_arena_def)

lemma live_row_of:
  assumes inv: "dlx_inv m rows hs vl" and h: "h \<in> set hs" and x: "x \<in> set (vl h)"
  shows "\<exists>R \<in> set rows. x \<in> set R \<and> row_live m hs vl R"
proof -
  have v: "vcol m rows h (vl h)" using dlx_inv_header[OF inv h] by simp
  have cx: "column (nodes m ! x) = int h" and xr: "x \<in> set (concat rows)"
    using v x by (simp_all add: vcol_def)
  obtain R where R: "R \<in> set rows" "x \<in> set R" using xr by auto
  have "nat (column (nodes m ! x)) \<in> set hs \<and> x \<in> set (vl (nat (column (nodes m ! x))))"
    using cx h x by simp
  then have "\<not> row_dead m hs vl R" using R(2) unfolding row_dead_def by blast
  then have "row_live m hs vl R" using inv R(1) by (auto simp: dlx_inv_def)
  then show ?thesis using R by blast
qed

lemma distinct_map_neq:
  "distinct (map f R) \<Longrightarrow> x \<in> set R \<Longrightarrow> y \<in> set R \<Longrightarrow> x \<noteq> y \<Longrightarrow> f x \<noteq> f y"
  by (auto simp: distinct_map inj_on_def)

lemma cover_nodes_mem:
  assumes inv: "dlx_inv m rows hs vl" and h: "h \<in> set hs"
  shows "y \<in> set (cover_nodes rows vl h) \<longleftrightarrow>
         (\<exists>R \<in> set rows. \<exists>x \<in> set (vl h). x \<in> set R \<and> y \<in> set R \<and> y \<noteq> x)"
proof
  have wr: "wf_rows m rows" using inv by (simp add: dlx_inv_def)
  {
    assume "y \<in> set (cover_nodes rows vl h)"
    then obtain x where x: "x \<in> set (vl h)" "y \<in> set (others rows x)"
      by (auto simp: cover_nodes_def)
    obtain R where R: "R \<in> set rows" "x \<in> set R" using live_row_of[OF inv h x(1)] by blast
    have "set (others rows x) = set R - {x}" using others_props(3)[OF wr R] .
    then show "\<exists>R \<in> set rows. \<exists>x \<in> set (vl h). x \<in> set R \<and> y \<in> set R \<and> y \<noteq> x"
      using x R by blast
  }
  {
    assume "\<exists>R \<in> set rows. \<exists>x \<in> set (vl h). x \<in> set R \<and> y \<in> set R \<and> y \<noteq> x"
    then obtain R x where R: "R \<in> set rows" "x \<in> set (vl h)" "x \<in> set R" "y \<in> set R" "y \<noteq> x"
      by blast
    have "set (others rows x) = set R - {x}" using others_props(3)[OF wr R(1,3)] .
    then show "y \<in> set (cover_nodes rows vl h)"
      using R by (auto simp: cover_nodes_def)
  }
qed

lemma cover_nodes_props:
  assumes inv: "dlx_inv m rows hs vl" and h: "h \<in> set hs" and y: "y \<in> set (cover_nodes rows vl h)"
  shows "y \<in> set (concat rows)" "y \<in> set (vl (nat (column (nodes m ! y))))"
    "nat (column (nodes m ! y)) \<in> set hs" "column (nodes m ! y) \<noteq> int h"
proof -
  have wr: "wf_rows m rows" using inv by (simp add: dlx_inv_def)
  obtain R x where R: "R \<in> set rows" "x \<in> set (vl h)" "x \<in> set R" "y \<in> set R" "y \<noteq> x"
    using y cover_nodes_mem[OF inv h] by blast
  obtain R' where R': "R' \<in> set rows" "x \<in> set R'" "row_live m hs vl R'"
    using live_row_of[OF inv h R(2)] by blast
  have "R' = R"
    using rows_disjoint[of rows R' R] wr R R' by (auto simp: wf_rows_def)
  then have live: "row_live m hs vl R" using R' by simp
  show "y \<in> set (concat rows)" using R by auto
  show "y \<in> set (vl (nat (column (nodes m ! y))))" "nat (column (nodes m ! y)) \<in> set hs"
    using live R(4) by (simp_all add: row_live_def)
  have cx: "column (nodes m ! x) = int h"
    using dlx_inv_header(4)[OF inv h] R(2) by (simp add: vcol_def)
  have "distinct (map (\<lambda>x. column (nodes m ! x)) R)" using wr R(1) by (simp add: wf_rows_def)
  from distinct_map_neq[OF this R(4,3,5)] show "column (nodes m ! y) \<noteq> int h"
    using cx by simp
qed

lemma cover_nodes_distinct:
  assumes inv: "dlx_inv m rows hs vl" and h: "h \<in> set hs"
  shows "distinct (cover_nodes rows vl h)"
  unfolding cover_nodes_def
proof (rule distinct_concat_map)
  have wr: "wf_rows m rows" using inv by (simp add: dlx_inv_def)
  have v: "vcol m rows h (vl h)" using dlx_inv_header[OF inv h] by simp
  show "distinct (vl h)" using v by (simp add: vcol_def)
  show "\<forall>x \<in> set (vl h). distinct (others rows x)"
  proof
    fix x assume x: "x \<in> set (vl h)"
    obtain R where R: "R \<in> set rows" "x \<in> set R" using live_row_of[OF inv h x] by blast
    show "distinct (others rows x)" using others_props(4)[OF wr R] .
  qed
  show "\<forall>x \<in> set (vl h). \<forall>x' \<in> set (vl h). x \<noteq> x' \<longrightarrow>
          set (others rows x) \<inter> set (others rows x') = {}"
  proof (intro ballI impI)
    fix x x' assume x: "x \<in> set (vl h)" and x': "x' \<in> set (vl h)" and ne: "x \<noteq> x'"
    obtain R where R: "R \<in> set rows" "x \<in> set R" using live_row_of[OF inv h x] by blast
    obtain R' where R': "R' \<in> set rows" "x' \<in> set R'" using live_row_of[OF inv h x'] by blast
    have cx: "column (nodes m ! x) = int h" "column (nodes m ! x') = int h"
      using v x x' by (simp_all add: vcol_def)
    have "R \<noteq> R'"
    proof
      assume "R = R'"
      then have "x' \<in> set R" using R' by simp
      moreover have "distinct (map (\<lambda>x. column (nodes m ! x)) R)"
        using wr R(1) by (simp add: wf_rows_def)
      ultimately show False using distinct_map_neq[of "\<lambda>x. column (nodes m ! x)" R x x'] R(2) ne cx
        by simp
    qed
    then have "set R \<inter> set R' = {}"
      using rows_disjoint[of rows R R'] wr R(1) R'(1) by (simp add: wf_rows_def)
    then show "set (others rows x) \<inter> set (others rows x') = {}"
      using others_props(3)[OF wr R] others_props(3)[OF wr R'] by auto
  qed
qed

lemma cover_unl_ok:
  assumes inv: "dlx_inv m rows hs vl" and h: "h \<in> set hs"
  shows "unl_ok (cover_nodes rows vl h) (unlh h m)"
    and "\<And>h'. 1 \<le> h' \<Longrightarrow> h' \<le> length (columns m) \<Longrightarrow>
           vcol (cover_m rows vl h m) rows h'
             (filter (\<lambda>z. z \<notin> set (cover_nodes rows vl h)) (vl h'))"
    and "wf_arena (unlh h m)" and "wf_rows (unlh h m) rows"
proof -
  have ar: "wf_arena m" and wr: "wf_rows m rows" and hl: "hlist m hs"
    and vc: "\<forall>h. 1 \<le> h \<and> h \<le> length (columns m) \<longrightarrow> vcol m rows h (vl h)"
    using inv by (simp_all add: dlx_inv_def)
  note H = hlist_unlh[OF ar hl h]
  show ar1: "wf_arena (unlh h m)" using ar by (rule wf_arena_unlh)
  show wr1: "wf_rows (unlh h m) rows" using wr H(1,4,5) by (rule wf_rows_unlh)
  have "unl_ok (cover_nodes rows vl h) (unlh h m) \<and>
         (\<forall>h'. 1 \<le> h' \<and> h' \<le> length (columns (unlh h m)) \<longrightarrow>
            vcol (fold unl (cover_nodes rows vl h) (unlh h m)) rows h'
              (filter (\<lambda>z. z \<notin> set (cover_nodes rows vl h)) (vl h')))"
  proof (rule vcols_fold_unl[OF ar1 wr1])
    show "\<forall>h'. 1 \<le> h' \<and> h' \<le> length (columns (unlh h m)) \<longrightarrow> vcol (unlh h m) rows h' (vl h')"
      using vc by (simp add: vcol_unlh)
    show "distinct (cover_nodes rows vl h)" using cover_nodes_distinct[OF inv h] .
    show "\<forall>y \<in> set (cover_nodes rows vl h). y \<in> set (concat rows) \<and>
            y \<in> set (vl (nat (column (nodes (unlh h m) ! y))))"
      using cover_nodes_props(1,2)[OF inv h] by simp
  qed
  then show "unl_ok (cover_nodes rows vl h) (unlh h m)"
    and "\<And>h'. 1 \<le> h' \<Longrightarrow> h' \<le> length (columns m) \<Longrightarrow>
           vcol (cover_m rows vl h m) rows h'
             (filter (\<lambda>z. z \<notin> set (cover_nodes rows vl h)) (vl h'))"
    by (simp_all add: cover_m_def)
qed

lemma vl_header_unchanged:
  assumes inv: "dlx_inv m rows hs vl" and h: "h \<in> set hs"
  shows "filter (\<lambda>z. z \<notin> set (cover_nodes rows vl h)) (vl h) = vl h"
proof -
  have v: "vcol m rows h (vl h)" using dlx_inv_header[OF inv h] by simp
  have "z \<notin> set (cover_nodes rows vl h)" if "z \<in> set (vl h)" for z
  proof
    assume "z \<in> set (cover_nodes rows vl h)"
    from cover_nodes_props(4)[OF inv h this] v that show False by (simp add: vcol_def)
  qed
  then show ?thesis by (simp add: filter_id_conv)
qed

lemma vl_not_header:
  assumes inv: "dlx_inv m rows hs vl" and h: "h \<in> set hs"
  shows "h \<notin> set (vl h)"
proof
  assume "h \<in> set (vl h)"
  then have "h \<in> set (concat rows)" using dlx_inv_header(4)[OF inv h] by (simp add: vcol_def)
  from wf_rows_bounds(1)[OF _ this, of m] inv dlx_inv_header(2)[OF inv h]
  show False by (simp add: dlx_inv_def)
qed

lemma cover_rows:
  assumes inv: "dlx_inv m rows hs vl" and h: "h \<in> set hs" and x: "x \<in> set (vl h)"
  shows "x < length (nodes m)"
    and "chain (\<lambda>i. right (nodes m ! i)) x (others rows x) x"
    and "chain (\<lambda>i. left (nodes m ! i)) x (rev (others rows x)) x"
    and "x \<notin> set (others rows x)"
    and "column (nodes m ! x) = int h"
proof -
  have wr: "wf_rows m rows" using inv by (simp add: dlx_inv_def)
  obtain R where R: "R \<in> set rows" "x \<in> set R" using live_row_of[OF inv h x] by blast
  show "x < length (nodes m)" using wr R by (auto simp: wf_rows_def)
  show "chain (\<lambda>i. right (nodes m ! i)) x (others rows x) x" using others_props(1)[OF wr R] .
  show "chain (\<lambda>i. left (nodes m ! i)) x (rev (others rows x)) x" using others_props(2)[OF wr R] .
  show "x \<notin> set (others rows x)" using others_props(3)[OF wr R] by simp
  show "column (nodes m ! x) = int h" using dlx_inv_header(4)[OF inv h] x by (simp add: vcol_def)
qed

lemma cover_run:
  assumes inv: "dlx_inv m rows hs vl" and h: "h \<in> set hs" and ms: "matrix s = m"
  shows "cover (int h - 1) s =
         Some (Inr (s\<lparr>matrix := cover_m rows vl h m,
                      operations := operations s + 1 + int (length (cover_nodes rows vl h))\<rparr>))"
proof -
  have ar: "wf_arena m" and wr: "wf_rows m rows" and hl: "hlist m hs"
    using inv by (simp_all add: dlx_inv_def)
  note H = hlist_unlh[OF ar hl h]
  note hb = dlx_inv_header[OF inv h]
  define m1 where "m1 = unlh h m"
  define s1 where "s1 = s\<lparr>operations := operations s + 1, matrix := m1\<rparr>"
  have wr1: "wf_rows m1 rows" unfolding m1_def using cover_unl_ok(4)[OF inv h] .
  have cg: "columns_get m (int h - 1) = Inr (columns m ! (h - 1))"
    using hb by (simp add: columns_get_nonneg nat_diff_distrib)
  have uh: "unlink_header h m = Inr m1"
    unfolding m1_def using H(1) by (rule unlink_header_hlinkable)
  have v1: "vcol m1 rows h (vl h)" using hb(4) by (simp add: m1_def vcol_unlh)
  have loop: "cover_col_loop (int h) (down (nodes (matrix s1) ! h)) s1 =
         Some (Inr (s1\<lparr>matrix := fold unl (concat (map (others rows) (vl h))) (matrix s1),
                      operations := operations s1 + int (length (concat (map (others rows) (vl h))))\<rparr>))"
  proof (rule cover_col_loop_fold)
    show "chain (\<lambda>i. down (nodes (matrix s1) ! i)) h (vl h) h"
      using v1 by (simp add: s1_def vcol_def)
    show "h \<notin> set (vl h)" using vl_not_header[OF inv h] .
    show "\<forall>x \<in> set (vl h). x < length (nodes (matrix s1)) \<and>
           chain (\<lambda>i. right (nodes (matrix s1) ! i)) x (others rows x) x \<and> x \<notin> set (others rows x)"
    proof
      fix x assume x: "x \<in> set (vl h)"
      obtain R where R: "R \<in> set rows" "x \<in> set R" using live_row_of[OF inv h x] by blast
      show "x < length (nodes (matrix s1)) \<and>
           chain (\<lambda>i. right (nodes (matrix s1) ! i)) x (others rows x) x \<and> x \<notin> set (others rows x)"
        using cover_rows(1,4)[OF inv h x] others_props(1)[OF wr1 R]
        by (simp add: s1_def m1_def)
    qed
    show "unl_ok (concat (map (others rows) (vl h))) (matrix s1)"
      using cover_unl_ok(1)[OF inv h] by (simp add: s1_def m1_def cover_nodes_def)
    show "\<forall>x \<in> set (vl h). \<forall>y \<in> set (concat (map (others rows) (vl h))).
           column (nodes (matrix s1) ! y) \<noteq> column (nodes (matrix s1) ! x)"
    proof (intro ballI)
      fix x y assume x: "x \<in> set (vl h)" and y: "y \<in> set (concat (map (others rows) (vl h)))"
      have "column (nodes m ! y) \<noteq> int h"
        using cover_nodes_props(4)[OF inv h, of y] y by (simp add: cover_nodes_def)
      then show "column (nodes (matrix s1) ! y) \<noteq> column (nodes (matrix s1) ! x)"
        using cover_rows(5)[OF inv h x] by (simp add: s1_def m1_def)
    qed
  qed
  have "cover (int h - 1) s = cover_col_loop (int h) (down (nodes m1 ! h)) s1"
    using hb by (simp add: cover_def Let_def ms cg uh s1_def)
  then show ?thesis
    using loop by (simp add: s1_def cover_m_def cover_nodes_def m1_def)
qed

lemma rev_concat_map: "rev (concat (map f xs)) = concat (map (\<lambda>x. rev (f x)) (rev xs))"
  by (induction xs) auto

lemma uncover_run:
  assumes inv: "dlx_inv m rows hs vl" and h: "h \<in> set hs"
    and ms: "matrix s = cover_m rows vl h m"
  shows "uncover (int h - 1) s =
         Some (Inr (s\<lparr>matrix := m,
                      operations := operations s + 1 + int (length (cover_nodes rows vl h))\<rparr>))"
proof -
  have ar: "wf_arena m" and wr: "wf_rows m rows" and hl: "hlist m hs"
    using inv by (simp_all add: dlx_inv_def)
  note H = hlist_unlh[OF ar hl h]
  note hb = dlx_inv_header[OF inv h]
  define ys where "ys = cover_nodes rows vl h"
  define m1 where "m1 = unlh h m"
  define m2 where "m2 = cover_m rows vl h m"
  define s1 where "s1 = s\<lparr>operations := operations s + 1\<rparr>"
  have m2: "m2 = fold unl ys m1" by (simp add: m2_def cover_m_def ys_def m1_def)
  have ok: "unl_ok ys m1" unfolding ys_def m1_def using cover_unl_ok(1)[OF inv h] .
  have bk: "rel_ok (rev ys) m2" "fold rel (rev ys) m2 = m1"
    using fold_rel_unl[OF ok] by (simp_all add: m2)
  have wr2: "wf_rows m2 rows"
    unfolding m2 m1_def using cover_unl_ok(4)[OF inv h] by (rule wf_rows_fold_unl)
  have v2: "vcol m2 rows h (vl h)"
    using cover_unl_ok(2)[OF inv h hb(1,2)] vl_header_unchanged[OF inv h] by (simp add: m2_def)
  have cg: "columns_get m2 (int h - 1) = Inr (columns m2 ! (h - 1))"
    using hb by (simp add: columns_get_nonneg nat_diff_distrib m2 m1_def)
  have hN: "h < length (nodes m2)" using hb by (simp add: m2 m1_def)
  have cat: "concat (map (\<lambda>x. rev (others rows x)) (rev (vl h))) = rev ys"
    by (simp add: ys_def cover_nodes_def rev_concat_map)
  have loop: "uncover_col_loop (int h) (up (nodes (matrix s1) ! h)) s1 =
         Some (Inr (s1\<lparr>matrix := fold rel (concat (map (\<lambda>x. rev (others rows x)) (rev (vl h)))) (matrix s1),
                      operations := operations s1 +
                        int (length (concat (map (\<lambda>x. rev (others rows x)) (rev (vl h)))))\<rparr>))"
  proof (rule uncover_col_loop_fold)
    show "chain (\<lambda>i. up (nodes (matrix s1) ! i)) h (rev (vl h)) h"
      using v2 by (simp add: s1_def ms m2_def vcol_def)
    show "h \<notin> set (rev (vl h))" using vl_not_header[OF inv h] by simp
    show "\<forall>x \<in> set (rev (vl h)). x < length (nodes (matrix s1)) \<and>
           chain (\<lambda>i. left (nodes (matrix s1) ! i)) x (rev (others rows x)) x \<and>
           x \<notin> set (rev (others rows x))"
    proof
      fix x assume "x \<in> set (rev (vl h))"
      then have x: "x \<in> set (vl h)" by simp
      obtain R where R: "R \<in> set rows" "x \<in> set R" using live_row_of[OF inv h x] by blast
      show "x < length (nodes (matrix s1)) \<and>
           chain (\<lambda>i. left (nodes (matrix s1) ! i)) x (rev (others rows x)) x \<and>
           x \<notin> set (rev (others rows x))"
        using cover_rows(1,4)[OF inv h x] others_props(2)[OF wr2 R]
        by (simp add: s1_def ms m2_def[symmetric]) (simp add: m2 m1_def)
    qed
    show "rel_ok (concat (map (\<lambda>x. rev (others rows x)) (rev (vl h)))) (matrix s1)"
      using bk(1) by (simp add: cat s1_def ms m2_def)
    show "\<forall>x \<in> set (rev (vl h)). \<forall>y \<in> set (concat (map (\<lambda>x. rev (others rows x)) (rev (vl h)))).
           column (nodes (matrix s1) ! y) \<noteq> column (nodes (matrix s1) ! x)"
    proof (intro ballI)
      fix x y assume "x \<in> set (rev (vl h))"
        and "y \<in> set (concat (map (\<lambda>x. rev (others rows x)) (rev (vl h))))"
      then have x: "x \<in> set (vl h)" and y: "y \<in> set (cover_nodes rows vl h)"
        by (simp_all add: cat ys_def)
      have "column (nodes m ! y) \<noteq> int h" using cover_nodes_props(4)[OF inv h y] .
      then show "column (nodes (matrix s1) ! y) \<noteq> column (nodes (matrix s1) ! x)"
        using cover_rows(5)[OF inv h x] by (simp add: s1_def ms cover_m_def)
    qed
  qed
  have loop': "uncover_col_loop (int h) (up (nodes m2 ! h)) s1 =
         Some (Inr (s1\<lparr>matrix := m1, operations := operations s1 + int (length ys)\<rparr>))"
    using loop by (simp add: cat bk s1_def ms m2_def[symmetric])
  have lk1: "hlinkable m1 h" unfolding m1_def using H(1) by (rule hlinkable_unlh)
  have rh: "relink_header (int h) h m1 = Inr m"
    using relink_header_hlinkable[OF lk1] relh_unlh[OF H(1,2,3)] by (simp add: m1_def)
  have ms1: "matrix s1 = m2" by (simp add: s1_def ms m2_def)
  have "uncover (int h - 1) s =
        Some (Inr ((s1\<lparr>matrix := m1, operations := operations s1 + int (length ys)\<rparr>)\<lparr>matrix := m\<rparr>))"
    unfolding uncover_def Let_def s1_def[symmetric]
    using hN by (simp add: ms1 cg loop' rh)
  then show ?thesis by (simp add: s1_def ys_def)
qed

lemma cover_m_static [simp]:
  "length (nodes (cover_m rows vl h m)) = length (nodes m)"
  "length (columns (cover_m rows vl h m)) = length (columns m)"
  "num_columns (cover_m rows vl h m) = num_columns m"
  "column (nodes (cover_m rows vl h m) ! i) = column (nodes m ! i)"
  "row (nodes (cover_m rows vl h m) ! i) = row (nodes m ! i)"
  by (simp_all add: cover_m_def)

lemma cover_inv:
  assumes inv: "dlx_inv m rows hs vl" and h: "h \<in> set hs"
  shows "dlx_inv (cover_m rows vl h m) rows (filter (\<lambda>z. z \<noteq> h) hs)
           (\<lambda>h'. filter (\<lambda>z. z \<notin> set (cover_nodes rows vl h)) (vl h'))"
proof -
  define ys where "ys = cover_nodes rows vl h"
  define m2 where "m2 = cover_m rows vl h m"
  define hs' where "hs' = filter (\<lambda>z. z \<noteq> h) hs"
  define vl' where "vl' = (\<lambda>h'. filter (\<lambda>z. z \<notin> set ys) (vl h'))"
  have ar: "wf_arena m" and wr: "wf_rows m rows" and hl: "hlist m hs"
    and rw: "\<And>R. R \<in> set rows \<Longrightarrow> row_live m hs vl R \<or> row_dead m hs vl R"
    using inv by (simp_all add: dlx_inv_def)
  note H = hlist_unlh[OF ar hl h]
  have ar2: "wf_arena m2"
    unfolding m2_def cover_m_def using cover_unl_ok(3)[OF inv h] by (rule wf_arena_fold_unl)
  have wr2: "wf_rows m2 rows"
    unfolding m2_def cover_m_def using cover_unl_ok(4)[OF inv h] by (rule wf_rows_fold_unl)
  have hl2: "hlist m2 hs'"
    using H(6) by (simp add: hlist_def m2_def cover_m_def hs'_def)
  have vc2: "\<forall>h'. 1 \<le> h' \<and> h' \<le> length (columns m2) \<longrightarrow> vcol m2 rows h' (vl' h')"
    using cover_unl_ok(2)[OF inv h] by (simp add: m2_def vl'_def ys_def)
  have col: "\<And>i. column (nodes m2 ! i) = column (nodes m ! i)" by (simp add: m2_def)
  have rows2: "row_live m2 hs' vl' R \<or> row_dead m2 hs' vl' R" if R: "R \<in> set rows" for R
  proof (cases "row_live m hs vl R")
    case live: True
    show ?thesis
    proof (cases "\<exists>z \<in> set R. z \<in> set (vl h)")
      case True
      then obtain z where z: "z \<in> set R" "z \<in> set (vl h)" by blast
      have cz: "column (nodes m ! z) = int h" using cover_rows(5)[OF inv h z(2)] .
      have "y \<notin> set (vl' (nat (column (nodes m ! y))))"
        if y: "y \<in> set R" and yh: "nat (column (nodes m ! y)) \<in> set hs'" for y
      proof (cases "y = z")
        case True
        then show ?thesis using yh cz by (simp add: hs'_def)
      next
        case False
        then have "y \<in> set ys"
          unfolding ys_def cover_nodes_mem[OF inv h] using R z y by blast
        then show ?thesis by (simp add: vl'_def)
      qed
      then have "row_dead m2 hs' vl' R" by (simp add: row_dead_def col)
      then show ?thesis ..
    next
      case False
      have "nat (column (nodes m ! y)) \<in> set hs' \<and> y \<in> set (vl' (nat (column (nodes m ! y))))"
        if y: "y \<in> set R" for y
      proof -
        have yl: "nat (column (nodes m ! y)) \<in> set hs" "y \<in> set (vl (nat (column (nodes m ! y))))"
          using live y by (simp_all add: row_live_def)
        have ne: "nat (column (nodes m ! y)) \<noteq> h"
        proof
          assume "nat (column (nodes m ! y)) = h"
          then have "y \<in> set (vl h)" using yl(2) by simp
          then show False using False y by blast
        qed
        have "y \<notin> set ys"
        proof
          assume "y \<in> set ys"
          then obtain R' x where R': "R' \<in> set rows" "x \<in> set (vl h)" "x \<in> set R'" "y \<in> set R'"
            unfolding ys_def cover_nodes_mem[OF inv h] by blast
          have "R' = R"
            using rows_disjoint[of rows R' R] wr R R'(1,4) y by (auto simp: wf_rows_def)
          then show False using False R'(2,3) by blast
        qed
        then show ?thesis using yl ne by (simp add: hs'_def vl'_def)
      qed
      then have "row_live m2 hs' vl' R" by (simp add: row_live_def col)
      then show ?thesis ..
    qed
  next
    case False
    then have dead: "row_dead m hs vl R" using rw[OF R] by simp
    have "row_dead m2 hs' vl' R"
      using dead by (auto simp: row_dead_def col hs'_def vl'_def)
    then show ?thesis ..
  qed
  show ?thesis
    using ar2 wr2 hl2 vc2 rows2
    unfolding dlx_inv_def m2_def[symmetric] hs'_def[symmetric] ys_def[symmetric] vl'_def[symmetric]
    by blast
qed

text \<open>What \<open>cover\<close> leaves untouched.\<close>

lemma cover_frame:
  assumes inv: "dlx_inv m rows hs vl" and h: "h \<in> set hs"
  shows "\<And>i. column (nodes m ! i) = int h \<Longrightarrow> nodes (cover_m rows vl h m) ! i = nodes m ! i"
    and "columns (cover_m rows vl h m) ! (h - 1) = columns m ! (h - 1)"
    and "\<And>i. i \<noteq> nat (left (nodes m ! h)) \<Longrightarrow>
           right (nodes (cover_m rows vl h m) ! i) = right (nodes m ! i)"
    and "\<And>i. i \<noteq> nat (right (nodes m ! h)) \<Longrightarrow>
           left (nodes (cover_m rows vl h m) ! i) = left (nodes m ! i)"
proof -
  have ar: "wf_arena m" and hl: "hlist m hs" using inv by (simp_all add: dlx_inv_def)
  note H = hlist_unlh[OF ar hl h]
  note hb = dlx_inv_header[OF inv h]
  have ok: "unl_ok (cover_nodes rows vl h) (unlh h m)" using cover_unl_ok(1)[OF inv h] .
  have hdr: "column (nodes m ! k) \<noteq> int h" if "k \<le> length (columns m)" "k \<noteq> h" for k
  proof (cases "k = 0")
    case True
    then show ?thesis using ar by (simp add: wf_arena_def)
  next
    case False
    then have "column (nodes m ! k) = int k" using ar that by (simp add: wf_arena_def)
    then show ?thesis using that by simp
  qed
  have lh: "nat (left (nodes m ! h)) \<noteq> h" "nat (right (nodes m ! h)) \<noteq> h"
    using H(1) by (simp_all add: hlinkable_def Let_def)
  show "nodes (cover_m rows vl h m) ! i = nodes m ! i" if ci: "column (nodes m ! i) = int h" for i
  proof -
    have "nodes (cover_m rows vl h m) ! i = nodes (unlh h m) ! i"
      unfolding cover_m_def
    proof (rule fold_unl_frame[OF ok])
      show "\<forall>y \<in> set (cover_nodes rows vl h).
              column (nodes (unlh h m) ! y) \<noteq> column (nodes (unlh h m) ! i)"
        using cover_nodes_props(4)[OF inv h] ci by simp
    qed
    also have "\<dots> = nodes m ! i"
    proof (rule unlh_frame)
      show "i \<noteq> nat (left (nodes m ! h))" using hdr[OF H(4) lh(1)] ci by auto
      show "i \<noteq> nat (right (nodes m ! h))" using hdr[OF H(5) lh(2)] ci by auto
    qed
    finally show ?thesis .
  qed
  have cn: "nat (column (nodes m ! y) - 1) \<noteq> h - 1" if "y \<in> set (cover_nodes rows vl h)" for y
  proof -
    have "column (nodes m ! y) \<noteq> int h" using cover_nodes_props(4)[OF inv h that] .
    moreover have "1 \<le> column (nodes m ! y)"
      using wf_rows_bounds(3)[OF _ cover_nodes_props(1)[OF inv h that], of m] inv
      by (simp add: dlx_inv_def)
    ultimately show ?thesis using hb(1) by auto
  qed
  have "columns (fold unl ys m') ! (h - 1) = columns m' ! (h - 1)"
    if "\<forall>y \<in> set ys. nat (column (nodes m' ! y) - 1) \<noteq> h - 1" for ys m'
    using that
  proof (induction ys arbitrary: m')
    case Nil
    then show ?case by simp
  next
    case (Cons y ys)
    have "columns (fold unl ys (unl y m')) ! (h - 1) = columns (unl y m') ! (h - 1)"
      using Cons.prems by (intro Cons.IH) simp
    also have "\<dots> = columns m' ! (h - 1)"
      using Cons.prems by (simp add: unl_columns)
    finally show ?case by simp
  qed
  from this[of "cover_nodes rows vl h" "unlh h m"] cn
  show "columns (cover_m rows vl h m) ! (h - 1) = columns m ! (h - 1)"
    by (simp add: cover_m_def)
  show "right (nodes (cover_m rows vl h m) ! i) = right (nodes m ! i)"
    if "i \<noteq> nat (left (nodes m ! h))" for i
    using that by (simp add: cover_m_def unlh_right[OF H(1)])
  show "left (nodes (cover_m rows vl h m) ! i) = left (nodes m ! i)"
    if "i \<noteq> nat (right (nodes m ! h))" for i
    using that by (simp add: cover_m_def unlh_left[OF H(1)])
qed

section \<open>Matrices built by create and valid add_row calls\<close>

lemma add_row_node_valid:
  assumes c: "0 \<le> c" "c < int (length (columns m))"
    and nN: "length (columns m) < length (nodes m)"
    and p: "up (nodes m ! (nat c + 1)) = int p" "p < length (nodes m)"
    and fp: "fp = None \<or> (\<exists>f pr. fp = Some (int f, int pr) \<and> pr < length (nodes m))"
  shows "\<exists>m'. add_row_node row_id c fp m =
            (Inr (Some (case fp of None \<Rightarrow> int (length (nodes m)) | Some (f, pr) \<Rightarrow> f,
                        int (length (nodes m)))), m') \<and>
          length (nodes m') = Suc (length (nodes m)) \<and>
          length (columns m') = length (columns m) \<and> num_columns m' = num_columns m \<and>
          (\<forall>j < length (columns m). c_size (columns m' ! j) =
              (if j = nat c then c_size (columns m ! j) + 1 else c_size (columns m ! j))) \<and>
          (\<forall>i \<le> length (nodes m).
             column (nodes m' ! i) = (if i = length (nodes m) then c + 1 else column (nodes m ! i)) \<and>
             row (nodes m' ! i) = (if i = length (nodes m) then row_id else row (nodes m ! i)) \<and>
             up (nodes m' ! i) = (if i = length (nodes m) then int p
                                 else if i = nat c + 1 then int (length (nodes m))
                                 else up (nodes m ! i)) \<and>
             down (nodes m' ! i) = (if i = length (nodes m) then c + 1
                                   else if i = p then int (length (nodes m))
                                   else down (nodes m ! i)) \<and>
             right (nodes m' ! i) =
               (case fp of None \<Rightarrow> (if i = length (nodes m) then -1 else right (nodes m ! i))
                | Some (f, pr) \<Rightarrow> (if i = nat pr then int (length (nodes m))
                                   else if i = length (nodes m) then -1 else right (nodes m ! i))) \<and>
             left (nodes m' ! i) =
               (if i = length (nodes m) then (case fp of None \<Rightarrow> -1 | Some (f, pr) \<Rightarrow> pr)
                else left (nodes m ! i)))"
proof -
  define N where "N = length (nodes m)"
  define h where "h = nat c + 1"
  have hN: "h < N" "int h = c + 1" using c nN by (simp_all add: h_def N_def)
  define m1 where "m1 = append_node row_id c m"
  have m1: "length (nodes m1) = Suc N" "columns m1 = columns m"
    by (simp_all add: m1_def append_node_def N_def)
  have ci: "py_index (columns m1) c = Some (nat c)"
    using c by (simp add: m1 py_index_nonneg)
  have hg: "nodes_get m1 (c + 1) = Inr (nodes m1 ! h)"
    using hN m1 c by (simp add: nodes_get_nonneg h_def nat_add_distrib)
  have uph: "up (nodes m1 ! h) = int p"
    using hN p by (simp add: m1_def append_node_def nth_append N_def h_def)
  define m2 where "m2 = m1\<lparr>nodes := (nodes m1)[N := (nodes m1 ! N)\<lparr>up := int p, down := c + 1\<rparr>]\<rparr>"
  define m3 where "m3 = m2\<lparr>nodes := (nodes m2)[p := (nodes m2 ! p)\<lparr>down := int N\<rparr>]\<rparr>"
  have s3: "nodes_set (int p) (\<lambda>x. x\<lparr>down := int N\<rparr>) m2 = Inr m3"
    using p by (simp add: nodes_set_nonneg m3_def m2_def m1 N_def)
  define m4 where "m4 = m3\<lparr>nodes := (nodes m3)[h := (nodes m3 ! h)\<lparr>up := int N\<rparr>]\<rparr>"
  have s4: "nodes_set (c + 1) (\<lambda>x. x\<lparr>up := int N\<rparr>) m3 = Inr m4"
    using hN c by (simp add: nodes_set_nonneg m4_def m3_def m2_def m1 h_def nat_add_distrib)
  define m5 where "m5 = m4\<lparr>columns := (columns m4)[nat c :=
       (columns m4 ! nat c)\<lparr>c_size := c_size (columns m4 ! nat c) + 1\<rparr>]\<rparr>"
  have unf: "add_row_node row_id c fp m =
     (case fp of
        None \<Rightarrow> (Inr (Some (int N, int N)), m5)
      | Some (first_node_idx, prev_node_idx) \<Rightarrow>
          (case nodes_set prev_node_idx (\<lambda>x. x\<lparr>right := int N\<rparr>) m5 of
             Inl e \<Rightarrow> (Inl e, m5)
           | Inr m6 \<Rightarrow>
               (Inr (Some (first_node_idx, int N)),
                m6\<lparr>nodes := (nodes m6)[N := (nodes m6 ! N)\<lparr>left := prev_node_idx\<rparr>]\<rparr>)))"
    unfolding add_row_node_def Let_def N_def[symmetric] append_node_def[symmetric]
      m1_def[symmetric] ci option.case hg sum.case uph m2_def[symmetric]
      s3 s4 m5_def[symmetric]
    by (rule refl)
  have n5: "nodes m5 = (((nodes m @ [new_node\<lparr>column := c + 1, row := row_id\<rparr>])
              [N := new_node\<lparr>column := c + 1, row := row_id, up := int p, down := c + 1\<rparr>])
              [p := ((nodes m @ [new_node\<lparr>column := c + 1, row := row_id\<rparr>])
                       [N := new_node\<lparr>column := c + 1, row := row_id, up := int p, down := c + 1\<rparr>] ! p)
                    \<lparr>down := int N\<rparr>])
              [h := (nodes m3 ! h)\<lparr>up := int N\<rparr>]"
    by (simp add: m5_def m4_def m3_def m2_def m1_def append_node_def N_def)
  have pN: "p < N" "p \<noteq> N" using p by (simp_all add: N_def)
  have hN': "h \<noteq> N" using hN by simp
  have f5: "column (nodes m5 ! i) = (if i = N then c + 1 else column (nodes m ! i)) \<and>
            row (nodes m5 ! i) = (if i = N then row_id else row (nodes m ! i)) \<and>
            up (nodes m5 ! i) = (if i = N then int p else if i = h then int N else up (nodes m ! i)) \<and>
            down (nodes m5 ! i) = (if i = N then c + 1 else if i = p then int N else down (nodes m ! i)) \<and>
            right (nodes m5 ! i) = (if i = N then -1 else right (nodes m ! i)) \<and>
            left (nodes m5 ! i) = (if i = N then -1 else left (nodes m ! i))"
    if "i \<le> N" for i
    using that pN hN hN'
    by (auto simp: m5_def m4_def m3_def m2_def m1_def append_node_def N_def[symmetric]
         nth_list_update nth_append new_node_def)
  have l5: "length (nodes m5) = Suc N" "length (columns m5) = length (columns m)"
    "num_columns m5 = num_columns m"
    by (simp_all add: m5_def m4_def m3_def m2_def m1_def append_node_def N_def)
  have z5: "c_size (columns m5 ! j) = (if j = nat c then c_size (columns m ! j) + 1 else c_size (columns m ! j))"
    if "j < length (columns m)" for j
    using that by (simp add: m5_def m4_def m3_def m2_def m1_def append_node_def nth_list_update)
  show ?thesis
  proof (cases fp)
    case None
    have "add_row_node row_id c fp m = (Inr (Some (int N, int N)), m5)"
      using unf None by simp
    then show ?thesis
      using None l5 z5 f5 by (simp add: N_def[symmetric] h_def)
  next
    case (Some a)
    then obtain f pr where a: "fp = Some (int f, int pr)" "pr < N"
      using fp by (auto simp: N_def)
    define m6 where "m6 = m5\<lparr>nodes := (nodes m5)[pr := (nodes m5 ! pr)\<lparr>right := int N\<rparr>]\<rparr>"
    define m7 where "m7 = m6\<lparr>nodes := (nodes m6)[N := (nodes m6 ! N)\<lparr>left := int pr\<rparr>]\<rparr>"
    have s6: "nodes_set (int pr) (\<lambda>x. x\<lparr>right := int N\<rparr>) m5 = Inr m6"
      using a l5 by (simp add: nodes_set_nonneg m6_def)
    have res: "add_row_node row_id c fp m = (Inr (Some (int f, int N)), m7)"
      using unf a s6 by (simp add: m7_def)
    have l7: "length (nodes m7) = Suc N" "columns m7 = columns m5" "num_columns m7 = num_columns m"
      using l5 by (simp_all add: m7_def m6_def)
    have f7: "column (nodes m7 ! i) = column (nodes m5 ! i) \<and>
            row (nodes m7 ! i) = row (nodes m5 ! i) \<and>
            up (nodes m7 ! i) = up (nodes m5 ! i) \<and>
            down (nodes m7 ! i) = down (nodes m5 ! i) \<and>
            right (nodes m7 ! i) = (if i = pr then int N else right (nodes m5 ! i)) \<and>
            left (nodes m7 ! i) = (if i = N then int pr else left (nodes m5 ! i))"
      if "i \<le> N" for i
      using that a(2) l5 by (auto simp: m7_def m6_def nth_list_update)
    show ?thesis
      using res a l7 l5 z5 f5 f7 by (simp add: N_def[symmetric] h_def)
  qed
qed

lemma chain_hd: "chain f a xs b \<Longrightarrow> f a = int (hd (xs @ [b]))"
  by (cases xs) auto

lemma wf_rows_grow:
  assumes "wf_rows m rows" "length (nodes m) \<le> length (nodes m')"
    "length (columns m') = length (columns m)"
    and "\<And>i. i \<in> set (concat rows) \<Longrightarrow>
           right (nodes m' ! i) = right (nodes m ! i) \<and> left (nodes m' ! i) = left (nodes m ! i) \<and>
           column (nodes m' ! i) = column (nodes m ! i)"
  shows "wf_rows m' rows"
proof -
  have "R \<noteq> [] \<and>
        chain (\<lambda>i. right (nodes m' ! i)) (hd R) (tl R) (hd R) \<and>
        chain (\<lambda>i. left (nodes m' ! i)) (hd R) (rev (tl R)) (hd R) \<and>
        distinct (map (\<lambda>x. column (nodes m' ! x)) R) \<and>
        (\<forall>x \<in> set R. length (columns m') < x \<and> x < length (nodes m') \<and>
           1 \<le> column (nodes m' ! x) \<and> column (nodes m' ! x) \<le> int (length (columns m')))"
    if R: "R \<in> set rows" for R
  proof -
    have old: "R \<noteq> []"
        "chain (\<lambda>i. right (nodes m ! i)) (hd R) (tl R) (hd R)"
        "chain (\<lambda>i. left (nodes m ! i)) (hd R) (rev (tl R)) (hd R)"
        "distinct (map (\<lambda>x. column (nodes m ! x)) R)"
        "\<forall>x \<in> set R. length (columns m) < x \<and> x < length (nodes m) \<and>
           1 \<le> column (nodes m ! x) \<and> column (nodes m ! x) \<le> int (length (columns m))"
      using assms(1) R by (simp_all add: wf_rows_def)
    have eq: "right (nodes m' ! i) = right (nodes m ! i) \<and> left (nodes m' ! i) = left (nodes m ! i) \<and>
           column (nodes m' ! i) = column (nodes m ! i)" if "i \<in> set R" for i
    proof -
      have "i \<in> set (concat rows)" using that R by auto
      then show ?thesis by (rule assms(4))
    qed
    have mem: "set (hd R # tl R) = set R" "set (hd R # rev (tl R)) = set R"
      using old(1) by (cases R; auto)+
    have c1: "chain (\<lambda>i. right (nodes m' ! i)) (hd R) (tl R) (hd R) =
        chain (\<lambda>i. right (nodes m ! i)) (hd R) (tl R) (hd R)"
    proof (rule chain_cong)
      fix i assume "i \<in> set (hd R # tl R)"
      then have "i \<in> set R" unfolding mem(1) .
      then show "right (nodes m' ! i) = right (nodes m ! i)" using eq by simp
    qed
    have c2: "chain (\<lambda>i. left (nodes m' ! i)) (hd R) (rev (tl R)) (hd R) =
        chain (\<lambda>i. left (nodes m ! i)) (hd R) (rev (tl R)) (hd R)"
    proof (rule chain_cong)
      fix i assume "i \<in> set (hd R # rev (tl R))"
      then have "i \<in> set R" unfolding mem(2) .
      then show "left (nodes m' ! i) = left (nodes m ! i)" using eq by simp
    qed
    have c3: "map (\<lambda>x. column (nodes m' ! x)) R = map (\<lambda>x. column (nodes m ! x)) R"
      using eq by (intro map_cong) auto
    have c4: "\<forall>x \<in> set R. length (columns m') < x \<and> x < length (nodes m') \<and>
           1 \<le> column (nodes m' ! x) \<and> column (nodes m' ! x) \<le> int (length (columns m'))"
    proof
      fix x assume x: "x \<in> set R"
      then show "length (columns m') < x \<and> x < length (nodes m') \<and>
           1 \<le> column (nodes m' ! x) \<and> column (nodes m' ! x) \<le> int (length (columns m'))"
        using old(5) eq[OF x] assms(2,3) by auto
    qed
    show ?thesis
      using old(1,2,3,4) c4 unfolding c1 c2 c3 by blast
  qed
  then show ?thesis using assms(1) by (simp add: wf_rows_def)
qed

lemma chain_upt:
  assumes "a \<le> b" "\<And>i. a \<le> i \<Longrightarrow> i < b \<Longrightarrow> f i = int (Suc i)" "f b = int t"
  shows "chain f a [Suc a ..< Suc b] t"
  using assms
proof (induction "b - a" arbitrary: a)
  case 0
  then show ?case by simp
next
  case (Suc d)
  then have ab: "a < b" by simp
  have "chain f (Suc a) [Suc (Suc a) ..< Suc b] t"
    using Suc.hyps(2) Suc.prems ab by (intro Suc.hyps(1)) auto
  moreover have "f a = int (Suc a)" using Suc.prems(2)[of a] ab by simp
  moreover have "[Suc a ..< Suc b] = Suc a # [Suc (Suc a) ..< Suc b]"
    using ab by (simp add: upt_conv_Cons)
  ultimately show ?case by simp
qed

lemma chain_rev_upt:
  assumes "f s = int (a + k)" "\<And>i. a < i \<Longrightarrow> i \<le> a + k \<Longrightarrow> f i = int (i - 1)"
  shows "chain f s (rev [Suc a ..< Suc (a + k)]) a"
  using assms
proof (induction k arbitrary: s)
  case 0
  then show ?case by simp
next
  case (Suc k)
  have "chain f (a + Suc k) (rev [Suc a ..< Suc (a + k)]) a"
    using Suc.prems(2)[of "a + Suc k"] Suc.prems(2) by (intro Suc.IH) auto
  then show ?case using Suc.prems(1) by simp
qed

lemma hlist_cong:
  assumes "hlist m hs" "length (columns m') = length (columns m)"
    and "\<And>i. i \<le> length (columns m) \<Longrightarrow>
           right (nodes m' ! i) = right (nodes m ! i) \<and> left (nodes m' ! i) = left (nodes m ! i)"
  shows "hlist m' hs"
proof -
  have b: "\<And>x. x \<in> set hs \<Longrightarrow> x \<le> length (columns m)" using assms(1) by (simp add: hlist_def)
  have c1: "chain (\<lambda>i. right (nodes m' ! i)) 0 hs 0 = chain (\<lambda>i. right (nodes m ! i)) 0 hs 0"
  proof (rule chain_cong)
    fix i assume "i \<in> set (0 # hs)"
    then have "i \<le> length (columns m)" using b by auto
    then show "right (nodes m' ! i) = right (nodes m ! i)" using assms(3) by simp
  qed
  have c2: "chain (\<lambda>i. left (nodes m' ! i)) 0 (rev hs) 0 = chain (\<lambda>i. left (nodes m ! i)) 0 (rev hs) 0"
  proof (rule chain_cong)
    fix i assume "i \<in> set (0 # rev hs)"
    then have "i \<le> length (columns m)" using b by auto
    then show "left (nodes m' ! i) = left (nodes m ! i)" using assms(3) by simp
  qed
  show ?thesis using assms(1,2) by (simp add: hlist_def c1 c2)
qed

lemma init_matrix_node:
  assumes "1 \<le> h" "h \<le> k"
  shows "nodes (init_matrix k) ! h =
     \<lparr>left = int h - 1, right = (if h = k then 0 else int h + 1),
      up = int h, down = int h, column = int h, row = -1\<rparr>"
proof -
  obtain j where j: "h = Suc j" using assms(1) by (cases h) auto
  then have "j < k" using assms(2) by simp
  from init_matrix_header[OF this] show ?thesis by (simp add: j)
qed

lemma building_init:
  assumes "0 < k"
  shows "building (init_matrix k) [] (\<lambda>h. []) row_id [] (Suc k)"
proof -
  let ?m = "init_matrix k"
  have ar: "wf_arena ?m"
    using assms by (simp add: wf_arena_def init_matrix_root init_matrix_node)
  have wr: "wf_rows ?m []" by (simp add: wf_rows_def)
  have r: "chain (\<lambda>i. right (nodes ?m ! i)) 0 [Suc 0 ..< Suc k] 0"
  proof (rule chain_upt)
    show "0 \<le> k" by simp
    show "right (nodes ?m ! i) = int (Suc i)" if "0 \<le> i" "i < k" for i
      using that assms by (cases "i = 0") (simp_all add: init_matrix_root init_matrix_node)
    show "right (nodes ?m ! k) = int 0" using assms by (simp add: init_matrix_node)
  qed
  have l: "chain (\<lambda>i. left (nodes ?m ! i)) 0 (rev [Suc 0 ..< Suc (0 + k)]) 0"
  proof (rule chain_rev_upt)
    show "left (nodes ?m ! 0) = int (0 + k)" using assms by (simp add: init_matrix_root)
    show "left (nodes ?m ! i) = int (i - 1)" if "0 < i" "i \<le> 0 + k" for i
      using that by (simp add: init_matrix_node)
  qed
  have hl: "hlist ?m [1 ..< length (columns ?m) + 1]"
    using r l by (simp add: hlist_def del: upt_Suc)
  have vc: "vcol ?m ([] @ [[Suc k ..< Suc k + length ([] :: int list)]]) h []"
    if "1 \<le> h" "h \<le> k" for h
    using that by (simp add: vcol_def init_matrix_node init_matrix_sizes)
  show ?thesis
    unfolding building_def using ar wr hl vc by simp
qed

lemma building_step:
  assumes b: "building m rows vl row_id cs N0"
    and c: "0 \<le> c" "c < int (length (columns m))" "c \<notin> set cs"
    and fp: "fp = (if cs = [] then None else Some (int N0, int (N0 + length cs - 1)))"
  shows "\<exists>m'. add_row_node row_id c fp m = (Inr (Some (int N0, int (N0 + length cs))), m') \<and>
           building m' rows ((vl)(nat c + 1 := vl (nat c + 1) @ [N0 + length cs])) row_id (cs @ [c]) N0 \<and>
           length (columns m') = length (columns m) \<and>
           (\<forall>i < N0. column (nodes m' ! i) = column (nodes m ! i) \<and>
                     row (nodes m' ! i) = row (nodes m ! i))"
proof -
  define n where "n = length (columns m)"
  define j where "j = length cs"
  define N where "N = N0 + j"
  define h where "h = nat c + 1"
  define L where "L = vl h"
  define p where "p = last (h # L)"
  define rowsj where "rowsj = rows @ [[N0 ..< N0 + j]]"
  define rowsj' where "rowsj' = rows @ [[N0 ..< N0 + Suc j]]"
  have lenN: "length (nodes m) = N" and ar: "wf_arena m" and wr: "wf_rows m rows"
    and old: "\<And>x. x \<in> set (concat rows) \<Longrightarrow> x < N0" and nN0: "n < N0"
    and hl: "hlist m [1 ..< n + 1]"
    and vc: "\<And>h. 1 \<le> h \<Longrightarrow> h \<le> n \<Longrightarrow> vcol m rowsj h (vl h)"
    and live: "\<And>R y. R \<in> set rows \<Longrightarrow> y \<in> set R \<Longrightarrow> y \<in> set (vl (nat (column (nodes m ! y))))"
    and new: "\<And>i. i < j \<Longrightarrow> column (nodes m ! (N0 + i)) = cs ! i + 1 \<and>
        row (nodes m ! (N0 + i)) = row_id \<and> N0 + i \<in> set (vl (nat (cs ! i + 1)))"
    and lnk: "\<And>i. i + 1 < j \<Longrightarrow> right (nodes m ! (N0 + i)) = int (N0 + i + 1) \<and>
        left (nodes m ! (N0 + i + 1)) = int (N0 + i)"
    and dcs: "distinct cs" and bcs: "\<And>c. c \<in> set cs \<Longrightarrow> 0 \<le> c \<and> c < int n"
    using b unfolding building_def n_def j_def N_def rowsj_def by blast+
  have h: "1 \<le> h" "h \<le> n" "int h = c + 1" "h - 1 = nat c"
    using c by (simp_all add: h_def n_def)
  have colhd: "\<And>k. 1 \<le> k \<Longrightarrow> k \<le> n \<Longrightarrow> column (nodes m ! k) = int k"
    using ar by (simp add: wf_arena_def n_def)
  have vh: "vcol m rowsj h L" unfolding L_def using vc h by simp
  have chd: "chain (\<lambda>i. down (nodes m ! i)) h L h"
    and chu: "chain (\<lambda>i. up (nodes m ! i)) h (rev L) h"
    and dL: "distinct L"
    and memL: "\<And>x. x \<in> set L \<Longrightarrow> column (nodes m ! x) = int h \<and> x \<in> set (concat rowsj)"
    and szL: "c_size (columns m ! (h - 1)) = int (length L)"
    using vh by (simp_all add: vcol_def)
  have inj: "x < N \<and> n < x" if "x \<in> set (concat rowsj)" for x
  proof -
    have "x \<in> set (concat rows) \<or> (N0 \<le> x \<and> x < N0 + j)" using that by (auto simp: rowsj_def)
    then show ?thesis
    proof
      assume xr: "x \<in> set (concat rows)"
      show ?thesis
        using old[OF xr] wf_rows_bounds(1)[OF wr xr] by (simp add: N_def n_def)
    next
      assume "N0 \<le> x \<and> x < N0 + j"
      then show ?thesis using nN0 by (simp add: N_def)
    qed
  qed
  have Lb: "\<And>x. x \<in> set L \<Longrightarrow> x < N \<and> n < x" using memL inj by blast
  have Lb': "\<forall>x \<in> set L. x < N \<and> n < x" using Lb by blast
  have nN: "n < N" using nN0 by (simp add: N_def)
  have hN: "h < N" "h \<noteq> N" using h nN by simp_all
  have hL: "h \<notin> set L"
  proof
    assume "h \<in> set L"
    from Lb[OF this] h show False by simp
  qed
  have NL: "N \<notin> set L"
  proof
    assume "N \<in> set L"
    from Lb[OF this] show False by simp
  qed
  have uph: "up (nodes m ! h) = int p"
    using chain_hd[OF chu] by (simp add: p_def hd_rev_last)
  have pin: "p \<in> set (h # L)" unfolding p_def by (rule last_in_set) simp
  have pN: "p < N" "p \<noteq> N" using pin hN Lb' by auto
  have colp: "column (nodes m ! p) = int h" using pin colhd[OF h(1,2)] memL by auto
  have fpc: "fp = None \<or> (\<exists>f pr. fp = Some (int f, int pr) \<and> pr < length (nodes m))"
    unfolding fp lenN N_def j_def by (cases "cs = []") auto
  obtain m' where res0: "add_row_node row_id c fp m =
            (Inr (Some (case fp of None \<Rightarrow> int (length (nodes m)) | Some (f, pr) \<Rightarrow> f,
                        int (length (nodes m)))), m')"
    and len': "length (nodes m') = Suc (length (nodes m))" "length (columns m') = length (columns m)"
      "num_columns m' = num_columns m"
    and sz': "\<forall>k < length (columns m). c_size (columns m' ! k) =
              (if k = nat c then c_size (columns m ! k) + 1 else c_size (columns m ! k))"
    and fld: "\<forall>i \<le> length (nodes m).
             column (nodes m' ! i) = (if i = length (nodes m) then c + 1 else column (nodes m ! i)) \<and>
             row (nodes m' ! i) = (if i = length (nodes m) then row_id else row (nodes m ! i)) \<and>
             up (nodes m' ! i) = (if i = length (nodes m) then int p
                                 else if i = nat c + 1 then int (length (nodes m))
                                 else up (nodes m ! i)) \<and>
             down (nodes m' ! i) = (if i = length (nodes m) then c + 1
                                   else if i = p then int (length (nodes m))
                                   else down (nodes m ! i)) \<and>
             right (nodes m' ! i) =
               (case fp of None \<Rightarrow> (if i = length (nodes m) then -1 else right (nodes m ! i))
                | Some (f, pr) \<Rightarrow> (if i = nat pr then int (length (nodes m))
                                   else if i = length (nodes m) then -1 else right (nodes m ! i))) \<and>
             left (nodes m' ! i) =
               (if i = length (nodes m) then (case fp of None \<Rightarrow> -1 | Some (f, pr) \<Rightarrow> pr)
                else left (nodes m ! i))"
    using add_row_node_valid[OF c(1,2) _ _ _ fpc, of p row_id] uph pN nN
    unfolding lenN n_def[symmetric] h_def[symmetric] by blast
  have col': "\<And>i. i \<le> N \<Longrightarrow> column (nodes m' ! i) = (if i = N then int h else column (nodes m ! i))"
    and row': "\<And>i. i \<le> N \<Longrightarrow> row (nodes m' ! i) = (if i = N then row_id else row (nodes m ! i))"
    and up': "\<And>i. i \<le> N \<Longrightarrow> up (nodes m' ! i) =
                (if i = N then int p else if i = h then int N else up (nodes m ! i))"
    and down': "\<And>i. i \<le> N \<Longrightarrow> down (nodes m' ! i) =
                (if i = N then int h else if i = p then int N else down (nodes m ! i))"
    using fld unfolding lenN h_def[symmetric] h(3)[symmetric] by blast+
  have right': "right (nodes m' ! i) =
        (if cs \<noteq> [] \<and> i = N0 + j - 1 then int N else if i = N then -1 else right (nodes m ! i))"
    and left': "left (nodes m' ! i) =
        (if i = N then (if cs = [] then -1 else int (N0 + j - 1)) else left (nodes m ! i))"
    if "i \<le> N" for i
    using fld that unfolding lenN fp j_def[symmetric] by (cases "cs = []"; simp)+
  have first: "(case fp of None \<Rightarrow> int N | Some (f, pr) \<Rightarrow> f) = int N0"
    unfolding fp by (cases "cs = []") (simp_all add: N_def j_def)
  have "add_row_node row_id c fp m = (Inr (Some (int N0, int N)), m')"
    using res0 unfolding lenN first .
  then have res: "add_row_node row_id c fp m = (Inr (Some (int N0, int (N0 + length cs))), m')"
    by (simp add: N_def j_def)
  have jpos: "cs \<noteq> [] \<Longrightarrow> 0 < j" by (simp add: j_def)
  define vl' where "vl' = (vl)(h := L @ [N])"
  have sub: "\<And>x. x \<in> set (concat rowsj) \<Longrightarrow> x \<in> set (concat rowsj')"
    by (auto simp: rowsj_def rowsj'_def)
  have Nin: "N \<in> set (concat rowsj')" by (simp add: rowsj'_def N_def)
  have b1: "length (nodes m') = N0 + length (cs @ [c])"
    using len'(1) by (simp add: lenN N_def j_def)
  have b2: "wf_arena m'"
    using ar nN col'
    by (simp add: wf_arena_def len' lenN n_def[symmetric])
  have b3: "wf_rows m' rows"
  proof (rule wf_rows_grow[OF wr])
    show "length (nodes m) \<le> length (nodes m')" by (simp add: len')
    show "length (columns m') = length (columns m)" by (simp add: len')
    fix i assume "i \<in> set (concat rows)"
    then have "i < N0" by (rule old)
    then show "right (nodes m' ! i) = right (nodes m ! i) \<and> left (nodes m' ! i) = left (nodes m ! i) \<and>
           column (nodes m' ! i) = column (nodes m ! i)"
      using right'[of i] left'[of i] col'[of i] jpos by (auto simp: N_def)
  qed
  have b5: "hlist m' [1 ..< length (columns m') + 1]"
    unfolding len'(2) n_def[symmetric]
  proof (rule hlist_cong[OF hl])
    show "length (columns m') = length (columns m)" by (simp add: len')
    fix i assume "i \<le> length (columns m)"
    then have "i < N0" using nN0 by (simp add: n_def)
    then show "right (nodes m' ! i) = right (nodes m ! i) \<and> left (nodes m' ! i) = left (nodes m ! i)"
      using right'[of i] left'[of i] jpos by (auto simp: N_def)
  qed
  have b6: "vcol m' rowsj' k (vl' k)" if k: "1 \<le> k" "k \<le> n" for k
  proof (cases "k = h")
    case True
    define f0 where "f0 = (\<lambda>i. if i = N then int h else down (nodes m ! i))"
    define g0 where "g0 = (\<lambda>i. if i = p then int N else f0 i)"
    have "chain f0 h (L @ []) h"
    proof -
      have "chain f0 h L h = chain (\<lambda>i. down (nodes m ! i)) h L h"
        by (rule chain_cong) (use hN NL in \<open>auto simp: f0_def\<close>)
      then show ?thesis using chd by simp
    qed
    then have "chain g0 h (L @ N # []) h"
    proof (rule chain_insert)
      show "distinct (h # L @ [N])" using dL hL NL hN by simp
      show "f0 N = int (hd ([] @ [h]))" by (simp add: f0_def)
      show "g0 (last (h # L)) = int N" by (simp add: g0_def p_def)
      show "\<And>i. i \<noteq> last (h # L) \<Longrightarrow> g0 i = f0 i" by (simp add: g0_def p_def)
    qed
    moreover have "chain (\<lambda>i. down (nodes m' ! i)) h (L @ [N]) h = chain g0 h (L @ [N]) h"
    proof (rule chain_cong)
      fix i assume "i \<in> set (h # L @ [N])"
      then have "i \<le> N" using hN Lb' by auto
      then show "down (nodes m' ! i) = g0 i" using pN by (simp add: down' g0_def f0_def)
    qed
    ultimately have c1: "chain (\<lambda>i. down (nodes m' ! i)) h (L @ [N]) h" by simp
    define f1 where "f1 = (\<lambda>i. if i = N then int p else up (nodes m ! i))"
    define g1 where "g1 = (\<lambda>i. if i = h then int N else f1 i)"
    have "chain f1 h ([] @ rev L) h"
    proof -
      have "chain f1 h (rev L) h = chain (\<lambda>i. up (nodes m ! i)) h (rev L) h"
        by (rule chain_cong) (use hN NL in \<open>auto simp: f1_def\<close>)
      then show ?thesis using chu by simp
    qed
    then have "chain g1 h ([] @ N # rev L) h"
    proof (rule chain_insert)
      show "distinct (h # [] @ N # rev L)" using dL hL NL hN by simp
      show "f1 N = int (hd (rev L @ [h]))" by (simp add: f1_def hd_rev_last p_def)
      show "g1 (last (h # [])) = int N" by (simp add: g1_def)
      show "\<And>i. i \<noteq> last (h # []) \<Longrightarrow> g1 i = f1 i" by (simp add: g1_def)
    qed
    moreover have "chain (\<lambda>i. up (nodes m' ! i)) h (N # rev L) h = chain g1 h (N # rev L) h"
    proof (rule chain_cong)
      fix i assume "i \<in> set (h # N # rev L)"
      then have "i \<le> N" using hN Lb' by auto
      then show "up (nodes m' ! i) = g1 i" using hN by (simp add: up' g1_def f1_def)
    qed
    ultimately have c2: "chain (\<lambda>i. up (nodes m' ! i)) h (rev (L @ [N])) h" by simp
    have c3: "distinct (L @ [N])" using dL NL by simp
    have c4: "column (nodes m' ! x) = int h \<and> x \<in> set (concat rowsj')" if "x \<in> set (L @ [N])" for x
    proof (cases "x = N")
      case True
      then show ?thesis using Nin by (simp add: col')
    next
      case False
      then have x: "x \<in> set L" using that by simp
      then show ?thesis using Lb[OF x] memL[OF x] sub by (simp add: col')
    qed
    have c5: "c_size (columns m' ! (h - 1)) = int (length (L @ [N]))"
      using sz' szL h c by (simp add: n_def)
    show ?thesis
      unfolding True vl'_def vcol_def using c1 c2 c3 c4 c5 by simp
  next
    case False
    have vk: "vcol m rowsj k (vl k)" using vc k by simp
    have memk: "\<And>x. x \<in> set (vl k) \<Longrightarrow> column (nodes m ! x) = int k \<and> x \<in> set (concat rowsj)"
      using vk by (simp add: vcol_def)
    have src: "i \<le> N \<and> i \<noteq> N \<and> i \<noteq> p \<and> i \<noteq> h" if "i \<in> set (k # vl k)" for i
    proof -
      have ci: "column (nodes m ! i) = int k" using that colhd[OF k] memk by auto
      have "i < N" using that k nN memk inj by auto
      moreover have "i \<noteq> p" using ci colp False by auto
      moreover have "i \<noteq> h" using ci colhd[OF h(1,2)] False by auto
      ultimately show ?thesis by simp
    qed
    have c1: "chain (\<lambda>i. down (nodes m' ! i)) k (vl k) k = chain (\<lambda>i. down (nodes m ! i)) k (vl k) k"
    proof (rule chain_cong)
      fix i assume "i \<in> set (k # vl k)"
      from src[OF this] show "down (nodes m' ! i) = down (nodes m ! i)" by (simp add: down')
    qed
    have c2: "chain (\<lambda>i. up (nodes m' ! i)) k (rev (vl k)) k = chain (\<lambda>i. up (nodes m ! i)) k (rev (vl k)) k"
    proof (rule chain_cong)
      fix i assume "i \<in> set (k # rev (vl k))"
      then have "i \<in> set (k # vl k)" by simp
      from src[OF this] show "up (nodes m' ! i) = up (nodes m ! i)" by (simp add: up')
    qed
    have c4: "column (nodes m' ! x) = int k \<and> x \<in> set (concat rowsj')" if "x \<in> set (vl k)" for x
      using memk[OF that] src[of x] that sub by (simp add: col')
    have "k - 1 \<noteq> nat c" using False k h by simp
    then have c5: "c_size (columns m' ! (k - 1)) = c_size (columns m ! (k - 1))"
      using sz' k by (simp add: n_def)
    have vlk: "vl' k = vl k" using False by (simp add: vl'_def)
    have "vcol m' rowsj' k (vl k)"
      using vk c4 unfolding vcol_def c1 c2 c5 by simp
    then show ?thesis unfolding vlk .
  qed
  have b7: "y \<in> set (vl' (nat (column (nodes m' ! y))))" if "R \<in> set rows" "y \<in> set R" for R y
  proof -
    have "y < N0" using old[of y] that by auto
    then have "column (nodes m' ! y) = column (nodes m ! y)" by (simp add: col' N_def)
    then show ?thesis using live[OF that] by (auto simp: vl'_def L_def)
  qed
  have b8: "column (nodes m' ! (N0 + i)) = (cs @ [c]) ! i + 1 \<and>
        row (nodes m' ! (N0 + i)) = row_id \<and> N0 + i \<in> set (vl' (nat ((cs @ [c]) ! i + 1)))"
    if "i < length (cs @ [c])" for i
  proof (cases "i < j")
    case True
    then show ?thesis
      using new[OF True] by (auto simp: col' row' N_def nth_append j_def vl'_def L_def)
  next
    case False
    then have ij: "i = j" using that by (simp add: j_def)
    have e1: "(cs @ [c]) ! i = c" using ij by (simp add: j_def)
    have e2: "nat (c + 1) = h" using c(1) by (simp add: h_def)
    have e3: "N0 + i = N" using ij by (simp add: N_def)
    show ?thesis
      unfolding e1 e2 e3 using h(3) by (simp add: col' row' vl'_def)
  qed
  have b9: "right (nodes m' ! (N0 + i)) = int (N0 + i + 1) \<and>
        left (nodes m' ! (N0 + i + 1)) = int (N0 + i)"
    if "i + 1 < length (cs @ [c])" for i
  proof (cases "i + 1 < j")
    case True
    then show ?thesis
      using lnk[OF True] True right'[of "N0 + i"] left'[of "N0 + i + 1"] by (auto simp: N_def)
  next
    case False
    then have ij: "i + 1 = j" using that by (simp add: j_def)
    then have ne: "cs \<noteq> []" by (auto simp: j_def)
    have "N0 + i = N0 + j - 1" "N0 + i + 1 = N" using ij by (simp_all add: N_def)
    then show ?thesis using ne right'[of "N0 + i"] left'[of N] by (simp add: N_def)
  qed
  have b10: "distinct (cs @ [c])" "\<forall>c' \<in> set (cs @ [c]). 0 \<le> c' \<and> c' < int (length (columns m'))"
    using dcs c bcs by (auto simp: len' n_def)
  have bld: "building m' rows vl' row_id (cs @ [c]) N0"
    unfolding building_def
    using b1 b2 b3 old nN0 b5 b6 b7 b8 b9 b10
    unfolding len'(2) n_def[symmetric] rowsj'_def j_def by (auto simp del: upt_Suc)
  have keep: "\<forall>i < N0. column (nodes m' ! i) = column (nodes m ! i) \<and>
                     row (nodes m' ! i) = row (nodes m ! i)"
    by (simp add: col' row' N_def)
  show ?thesis
    using res bld keep len'(2) unfolding vl'_def L_def h_def N_def j_def by blast
qed

lemma building_row_id:
  "building m rows vl r [] N \<Longrightarrow> building m rows vl r' [] N"
  by (simp add: building_def)

lemma add_row_loop_building:
  assumes "building m rows vl rid cs N0" "distinct (cs @ cols)"
    "\<forall>c \<in> set cols. 0 \<le> c \<and> c < int (length (columns m))"
  shows "\<exists>m' vl'. add_row_loop rid cols (fp_of N0 cs) m = (Inr (fp_of N0 (cs @ cols)), m') \<and>
           building m' rows vl' rid (cs @ cols) N0 \<and>
           length (columns m') = length (columns m) \<and>
           (\<forall>i < N0. column (nodes m' ! i) = column (nodes m ! i) \<and>
                     row (nodes m' ! i) = row (nodes m ! i))"
  using assms
proof (induction cols arbitrary: m vl cs)
  case Nil
  then show ?case by auto
next
  case (Cons c cols)
  have c: "0 \<le> c" "c < int (length (columns m))" "c \<notin> set cs"
    using Cons.prems(2,3) by auto
  from building_step[OF Cons.prems(1) c, of "fp_of N0 cs"]
  obtain m1 where
    st: "add_row_node rid c (fp_of N0 cs) m = (Inr (Some (int N0, int (N0 + length cs))), m1)"
    and b1: "building m1 rows ((vl)(nat c + 1 := vl (nat c + 1) @ [N0 + length cs])) rid (cs @ [c]) N0"
    and l1: "length (columns m1) = length (columns m)"
    and k1: "\<forall>i < N0. column (nodes m1 ! i) = column (nodes m ! i) \<and>
                     row (nodes m1 ! i) = row (nodes m ! i)"
    unfolding fp_of_def by blast
  have fp1: "Some (int N0, int (N0 + length cs)) = fp_of N0 (cs @ [c])"
    by (simp add: fp_of_def)
  have d1: "distinct ((cs @ [c]) @ cols)" using Cons.prems(2) by simp
  have r1: "\<forall>c \<in> set cols. 0 \<le> c \<and> c < int (length (columns m1))"
    using Cons.prems(3) l1 by simp
  from Cons.IH[OF b1 d1 r1]
  obtain m' vl' where
    lp: "add_row_loop rid cols (fp_of N0 (cs @ [c])) m1 = (Inr (fp_of N0 ((cs @ [c]) @ cols)), m')"
    and b': "building m' rows vl' rid ((cs @ [c]) @ cols) N0"
    and l': "length (columns m') = length (columns m1)"
    and k': "\<forall>i < N0. column (nodes m' ! i) = column (nodes m1 ! i) \<and>
                     row (nodes m' ! i) = row (nodes m1 ! i)"
    by blast
  have "add_row_loop rid (c # cols) (fp_of N0 cs) m = (Inr (fp_of N0 (cs @ c # cols)), m')"
    using lp unfolding add_row_loop.simps st fp1 by simp
  moreover have "building m' rows vl' rid (cs @ c # cols) N0" using b' by simp
  moreover have "length (columns m') = length (columns m)" using l' l1 by simp
  moreover have "\<forall>i < N0. column (nodes m' ! i) = column (nodes m ! i) \<and>
                     row (nodes m' ! i) = row (nodes m ! i)"
    using k' k1 by simp
  ultimately show ?case by blast
qed

lemma vcol_cong:
  assumes "vcol m rows h L"
    and "\<And>i. down (nodes m' ! i) = down (nodes m ! i)"
    and "\<And>i. up (nodes m' ! i) = up (nodes m ! i)"
    and "\<And>i. column (nodes m' ! i) = column (nodes m ! i)"
    and "columns m' = columns m" "set (concat rows') = set (concat rows)"
  shows "vcol m' rows' h L"
  using assms(1) unfolding vcol_def assms(2-6) .

lemma building_close:
  assumes b: "building m rows vl rid cs N0" and ne: "cs \<noteq> []"
    and P: "Suc P = N0 + length cs"
  shows "building (close_row N0 P m) (rows @ [[N0 ..< N0 + length cs]]) vl rid' [] (N0 + length cs)"
    and "map (\<lambda>x. column (nodes m ! x)) [N0 ..< N0 + length cs] = map (\<lambda>c. c + 1) cs"
    and "\<forall>x \<in> set [N0 ..< N0 + length cs]. row (nodes m ! x) = rid"
proof -
  define n where "n = length (columns m)"
  define k where "k = length cs"
  define m' where "m' = close_row N0 P m"
  define R0 where "R0 = [N0 ..< N0 + k]"
  have lenN: "length (nodes m) = N0 + k" and ar: "wf_arena m" and wr: "wf_rows m rows"
    and old: "\<And>x. x \<in> set (concat rows) \<Longrightarrow> x < N0" and nN0: "n < N0"
    and hl: "hlist m [1 ..< n + 1]"
    and vc: "\<And>h. 1 \<le> h \<Longrightarrow> h \<le> n \<Longrightarrow> vcol m (rows @ [R0]) h (vl h)"
    and live: "\<And>R y. R \<in> set rows \<Longrightarrow> y \<in> set R \<Longrightarrow> y \<in> set (vl (nat (column (nodes m ! y))))"
    and new: "\<And>i. i < k \<Longrightarrow> column (nodes m ! (N0 + i)) = cs ! i + 1 \<and>
        row (nodes m ! (N0 + i)) = rid \<and> N0 + i \<in> set (vl (nat (cs ! i + 1)))"
    and lnk: "\<And>i. i + 1 < k \<Longrightarrow> right (nodes m ! (N0 + i)) = int (N0 + i + 1) \<and>
        left (nodes m ! (N0 + i + 1)) = int (N0 + i)"
    and dcs: "distinct cs" and bcs: "\<And>c. c \<in> set cs \<Longrightarrow> 0 \<le> c \<and> c < int n"
    using b unfolding building_def n_def k_def R0_def by blast+
  have kpos: "0 < k" using ne by (simp add: k_def)
  have P': "Suc P = N0 + k" "P < length (nodes m)" "N0 < length (nodes m)" "N0 \<le> P"
    using P kpos unfolding k_def lenN by (cases cs; simp)+
  have len': "length (nodes m') = length (nodes m)" "columns m' = columns m"
    "num_columns m' = num_columns m"
    by (simp_all add: m'_def close_row_def Let_def)
  have right': "\<And>i. right (nodes m' ! i) = (if i = P then int N0 else right (nodes m ! i))"
    and left': "\<And>i. left (nodes m' ! i) = (if i = N0 then int P else left (nodes m ! i))"
    and up': "\<And>i. up (nodes m' ! i) = up (nodes m ! i)"
    and down': "\<And>i. down (nodes m' ! i) = down (nodes m ! i)"
    and col': "\<And>i. column (nodes m' ! i) = column (nodes m ! i)"
    and row': "\<And>i. row (nodes m' ! i) = row (nodes m ! i)"
    using P'(2,3) by (simp_all add: m'_def close_row_def Let_def nth_list_update)
  have colmap: "map (\<lambda>x. column (nodes m ! x)) [N0 ..< N0 + k] = map (\<lambda>c. c + 1) cs"
    using new by (intro nth_equalityI) (simp_all add: k_def)
  have rowall: "\<forall>x \<in> set [N0 ..< N0 + k]. row (nodes m ! x) = rid"
  proof
    fix x assume "x \<in> set [N0 ..< N0 + k]"
    then have "x - N0 < k" "x = N0 + (x - N0)" by auto
    then show "row (nodes m ! x) = rid" using new[of "x - N0"] by simp
  qed
  have b1: "length (nodes m') = (N0 + k) + length ([] :: int list)"
    by (simp add: len' lenN)
  have b2: "wf_arena m'"
    by (rule wf_arena_cong[OF ar]) (simp_all add: len' col')
  have oldrows: "wf_rows m' rows"
  proof (rule wf_rows_grow[OF wr])
    show "length (nodes m) \<le> length (nodes m')" by (simp add: len')
    show "length (columns m') = length (columns m)" by (simp add: len')
    fix i assume "i \<in> set (concat rows)"
    then have "i < N0" by (rule old)
    then show "right (nodes m' ! i) = right (nodes m ! i) \<and> left (nodes m' ! i) = left (nodes m ! i) \<and>
           column (nodes m' ! i) = column (nodes m ! i)"
      using P'(4) by (simp add: right' left' col')
  qed
  have hdtl: "R0 \<noteq> []" "hd R0 = N0" "tl R0 = [Suc N0 ..< Suc P]"
    using kpos P'(1) by (simp_all add: R0_def upt_conv_Cons)
  have r1: "chain (\<lambda>i. right (nodes m' ! i)) N0 [Suc N0 ..< Suc P] N0"
  proof (rule chain_upt)
    show "N0 \<le> P" by (rule P'(4))
    show "right (nodes m' ! i) = int (Suc i)" if "N0 \<le> i" "i < P" for i
    proof -
      have "(i - N0) + 1 < k" "N0 + (i - N0) = i" using that P'(1) by simp_all
      then show ?thesis using lnk[of "i - N0"] that by (simp add: right')
    qed
    show "right (nodes m' ! P) = int N0" by (simp add: right')
  qed
  have Pk: "P = N0 + (k - 1)" using P'(1) kpos by simp
  have r2: "chain (\<lambda>i. left (nodes m' ! i)) N0 (rev [Suc N0 ..< Suc (N0 + (k - 1))]) N0"
  proof (rule chain_rev_upt)
    show "left (nodes m' ! N0) = int (N0 + (k - 1))" by (simp add: left' Pk)
    show "left (nodes m' ! i) = int (i - 1)" if "N0 < i" "i \<le> N0 + (k - 1)" for i
    proof -
      have "(i - N0 - 1) + 1 < k" "N0 + (i - N0 - 1) + 1 = i" "N0 + (i - N0 - 1) = i - 1"
        using that kpos by simp_all
      then show ?thesis using lnk[of "i - N0 - 1"] that by (simp add: left')
    qed
  qed
  have r3: "distinct (map (\<lambda>x. column (nodes m' ! x)) R0)"
    unfolding col' R0_def colmap using dcs by (simp add: distinct_map)
  have r4: "\<forall>x \<in> set R0. length (columns m') < x \<and> x < length (nodes m') \<and>
           1 \<le> column (nodes m' ! x) \<and> column (nodes m' ! x) \<le> int (length (columns m'))"
  proof
    fix x assume "x \<in> set R0"
    then have x: "x - N0 < k" "x = N0 + (x - N0)" "N0 \<le> x" by (auto simp: R0_def)
    have "cs ! (x - N0) \<in> set cs" using x(1) by (simp add: k_def)
    from bcs[OF this] new[OF x(1)] x nN0
    show "length (columns m') < x \<and> x < length (nodes m') \<and>
           1 \<le> column (nodes m' ! x) \<and> column (nodes m' ! x) \<le> int (length (columns m'))"
      by (simp add: len' lenN col' n_def)
  qed
  have dall: "distinct (concat (rows @ [R0]))"
  proof -
    have "distinct (concat rows)" using wr by (simp add: wf_rows_def)
    moreover have "set (concat rows) \<inter> set R0 = {}" using old by (fastforce simp: R0_def)
    ultimately show ?thesis by (simp add: R0_def)
  qed
  have eachrow: "R \<noteq> [] \<and>
        chain (\<lambda>i. right (nodes m' ! i)) (hd R) (tl R) (hd R) \<and>
        chain (\<lambda>i. left (nodes m' ! i)) (hd R) (rev (tl R)) (hd R) \<and>
        distinct (map (\<lambda>x. column (nodes m' ! x)) R) \<and>
        (\<forall>x \<in> set R. length (columns m') < x \<and> x < length (nodes m') \<and>
           1 \<le> column (nodes m' ! x) \<and> column (nodes m' ! x) \<le> int (length (columns m')))"
    if "R \<in> set (rows @ [R0])" for R
  proof (cases "R = R0")
    case True
    show ?thesis unfolding True hdtl(2,3) using hdtl(1) r1 r2 r3 r4 by (simp add: Pk)
  next
    case False
    then have "R \<in> set rows" using that by simp
    then show ?thesis using oldrows by (simp add: wf_rows_def)
  qed
  have b3: "wf_rows m' (rows @ [R0])"
    unfolding wf_rows_def using dall eachrow by blast
  have b4: "\<forall>x \<in> set (concat (rows @ [R0])). x < N0 + k"
    using old by (fastforce simp: R0_def)
  have b5: "hlist m' [1 ..< length (columns m') + 1]"
    unfolding len'(2) n_def[symmetric]
  proof (rule hlist_cong[OF hl])
    show "length (columns m') = length (columns m)" by (simp add: len')
    fix i assume "i \<le> length (columns m)"
    then have "i < N0" using nN0 by (simp add: n_def)
    then show "right (nodes m' ! i) = right (nodes m ! i) \<and> left (nodes m' ! i) = left (nodes m ! i)"
      using P'(4) by (simp add: right' left')
  qed
  have b6: "vcol m' ((rows @ [R0]) @ [[N0 + k ..< N0 + k + length ([] :: int list)]]) h (vl h)"
    if "1 \<le> h" "h \<le> n" for h
    by (rule vcol_cong[OF vc[OF that]]) (simp_all add: up' down' col' len')
  have b7: "y \<in> set (vl (nat (column (nodes m' ! y))))" if "R \<in> set (rows @ [R0])" "y \<in> set R" for R y
  proof (cases "R = R0")
    case True
    then have y: "y - N0 < k" "y = N0 + (y - N0)" using that(2) by (auto simp: R0_def)
    show ?thesis using new[OF y(1)] y(2) by (simp add: col')
  next
    case False
    then have "R \<in> set rows" using that by simp
    from live[OF this that(2)] show ?thesis by (simp add: col')
  qed
  have "building m' (rows @ [R0]) vl rid' [] (N0 + k)"
    unfolding building_def
    using b1 b2 b3 b4 nN0 b5 b6 b7
    unfolding len'(2) n_def[symmetric] by (auto simp del: upt_Suc)
  then show "building (close_row N0 P m) (rows @ [[N0 ..< N0 + length cs]]) vl rid' [] (N0 + length cs)"
    unfolding m'_def R0_def k_def .
  show "map (\<lambda>x. column (nodes m ! x)) [N0 ..< N0 + length cs] = map (\<lambda>c. c + 1) cs"
    using colmap unfolding k_def .
  show "\<forall>x \<in> set [N0 ..< N0 + length cs]. row (nodes m ! x) = rid"
    using rowall unfolding k_def .
qed

lemma rows_match_cong:
  assumes "rows_match m rows rs"
    and "\<And>x. x \<in> set (concat rows) \<Longrightarrow>
           column (nodes m' ! x) = column (nodes m ! x) \<and> row (nodes m' ! x) = row (nodes m ! x)"
  shows "rows_match m' rows rs"
proof -
  define ys where "ys = filter (\<lambda>rc. snd rc \<noteq> []) rs"
  have a: "list_all2 (\<lambda>R rc. map (\<lambda>x. column (nodes m ! x)) R = map (\<lambda>c. c + 1) (snd rc) \<and>
                       (\<forall>x \<in> set R. row (nodes m ! x) = fst rc)) rows ys"
    using assms(1) by (simp add: rows_match_def ys_def)
  have "list_all2 (\<lambda>R rc. map (\<lambda>x. column (nodes m' ! x)) R = map (\<lambda>c. c + 1) (snd rc) \<and>
                       (\<forall>x \<in> set R. row (nodes m' ! x) = fst rc)) rows ys"
    unfolding list_all2_conv_all_nth
  proof (intro conjI allI impI)
    show "length rows = length ys" using a by (simp add: list_all2_lengthD)
  next
    fix i assume i: "i < length rows"
    have mem: "\<And>x. x \<in> set (rows ! i) \<Longrightarrow> x \<in> set (concat rows)" using i by auto
    have e: "map (\<lambda>x. column (nodes m' ! x)) (rows ! i) = map (\<lambda>x. column (nodes m ! x)) (rows ! i)"
      using assms(2) mem by (intro map_cong) auto
    show "map (\<lambda>x. column (nodes m' ! x)) (rows ! i) = map (\<lambda>c. c + 1) (snd (ys ! i))"
      unfolding e using a i by (simp add: list_all2_conv_all_nth)
    show "\<forall>x \<in> set (rows ! i). row (nodes m' ! x) = fst (ys ! i)"
    proof
      fix x assume x: "x \<in> set (rows ! i)"
      have "row (nodes m ! x) = fst (ys ! i)" using a i x by (simp add: list_all2_conv_all_nth)
      then show "row (nodes m' ! x) = fst (ys ! i)" using assms(2)[OF mem[OF x]] by simp
    qed
  qed
  then show ?thesis by (simp add: rows_match_def ys_def)
qed

lemma rows_match_snoc:
  assumes "rows_match m rows rs" "cols \<noteq> []"
    "map (\<lambda>x. column (nodes m ! x)) R = map (\<lambda>c. c + 1) cols"
    "\<forall>x \<in> set R. row (nodes m ! x) = rid"
  shows "rows_match m (rows @ [R]) (rs @ [(rid, cols)])"
  using assms by (simp add: rows_match_def list_all2_appendI)

lemma update_right_static:
  "column ((xs[j := (xs ! j)\<lparr>right := v\<rparr>]) ! i) = column (xs ! i)"
  "row ((xs[j := (xs ! j)\<lparr>right := v\<rparr>]) ! i) = row (xs ! i)"
proof -
  show "column ((xs[j := (xs ! j)\<lparr>right := v\<rparr>]) ! i) = column (xs ! i)"
    by (cases "j < length xs") (simp_all add: nth_list_update list_update_beyond)
  show "row ((xs[j := (xs ! j)\<lparr>right := v\<rparr>]) ! i) = row (xs ! i)"
    by (cases "j < length xs") (simp_all add: nth_list_update list_update_beyond)
qed

lemma update_left_static:
  "column ((xs[j := (xs ! j)\<lparr>left := v\<rparr>]) ! i) = column (xs ! i)"
  "row ((xs[j := (xs ! j)\<lparr>left := v\<rparr>]) ! i) = row (xs ! i)"
proof -
  show "column ((xs[j := (xs ! j)\<lparr>left := v\<rparr>]) ! i) = column (xs ! i)"
    by (cases "j < length xs") (simp_all add: nth_list_update list_update_beyond)
  show "row ((xs[j := (xs ! j)\<lparr>left := v\<rparr>]) ! i) = row (xs ! i)"
    by (cases "j < length xs") (simp_all add: nth_list_update list_update_beyond)
qed

lemma close_row_fields:
  "column (nodes (close_row N0 P m) ! i) = column (nodes m ! i)"
  "row (nodes (close_row N0 P m) ! i) = row (nodes m ! i)"
  "length (nodes (close_row N0 P m)) = length (nodes m)"
  "columns (close_row N0 P m) = columns m"
  unfolding close_row_def Let_def
  by (simp_all add: update_right_static update_left_static)

lemma add_row_built:
  assumes b: "building m rows vl r0 [] (length (nodes m))" and rm: "rows_match m rows rs"
    and d: "distinct cols" and rng: "\<forall>c \<in> set cols. 0 \<le> c \<and> c < int (length (columns m))"
  shows "\<exists>m' rows' vl'. add_row rid cols m = (None, m') \<and>
           building m' rows' vl' r0 [] (length (nodes m')) \<and>
           rows_match m' rows' (rs @ [(rid, cols)]) \<and>
           length (columns m') = length (columns m)"
proof (cases "cols = []")
  case True
  have "rows_match m rows (rs @ [(rid, cols)])" using rm True by (simp add: rows_match_def)
  then show ?thesis using b True by (auto simp: add_row_def)
next
  case False
  define N0 where "N0 = length (nodes m)"
  define k where "k = length cols"
  have kpos: "0 < k" using False by (simp add: k_def)
  obtain P where P: "Suc P = N0 + k" using kpos by (cases k) auto
  have b0: "building m rows vl rid [] N0" using b unfolding N0_def by (rule building_row_id)
  have old0: "\<forall>x \<in> set (concat rows). x < N0"
    using b0 unfolding building_def by (elim conjE) assumption
  have old: "x < N0" if "x \<in> set (concat rows)" for x
    using old0 that by (rule bspec)
  have d0: "distinct ([] @ cols)" using d by simp
  from add_row_loop_building[OF b0 d0 rng]
  obtain m1 vl1 where
    lp: "add_row_loop rid cols (fp_of N0 []) m = (Inr (fp_of N0 ([] @ cols)), m1)"
    and b1: "building m1 rows vl1 rid ([] @ cols) N0"
    and l1: "length (columns m1) = length (columns m)"
    and k1: "\<forall>i < N0. column (nodes m1 ! i) = column (nodes m ! i) \<and>
                     row (nodes m1 ! i) = row (nodes m ! i)"
    by blast
  have Pk: "N0 + k - 1 = P" using P by simp
  have lp': "add_row_loop rid cols None m = (Inr (Some (int N0, int P)), m1)"
    using lp False Pk by (simp add: fp_of_def k_def[symmetric])
  have b1': "building m1 rows vl1 rid cols N0" using b1 by simp
  have len1: "length (nodes m1) = N0 + k" using b1' by (simp add: building_def k_def)
  define m2 where "m2 = close_row N0 P m1"
  have s1: "nodes_set (int P) (\<lambda>x. x\<lparr>right := int N0\<rparr>) m1 =
      Inr (m1\<lparr>nodes := (nodes m1)[P := (nodes m1 ! P)\<lparr>right := int N0\<rparr>]\<rparr>)"
    using P by (simp add: nodes_set_nonneg len1)
  have s2: "nodes_set (int N0) (\<lambda>x. x\<lparr>left := int P\<rparr>)
               (m1\<lparr>nodes := (nodes m1)[P := (nodes m1 ! P)\<lparr>right := int N0\<rparr>]\<rparr>) = Inr m2"
    using kpos by (simp add: nodes_set_nonneg len1 m2_def close_row_def Let_def)
  have res: "add_row rid cols m = (None, m2)"
    unfolding add_row_def using False by (simp add: lp' s1 s2)
  have P': "Suc P = N0 + length cols" using P by (simp add: k_def)
  note cl = building_close(1)[OF b1' False P', of r0] building_close(2,3)[OF b1' False P']
  have len2: "length (nodes m2) = N0 + length cols"
    by (simp add: m2_def close_row_fields len1 k_def)
  have "building m2 (rows @ [[N0 ..< N0 + length cols]]) vl1 r0 [] (N0 + length cols)"
    unfolding m2_def by (rule cl(1))
  then have bb: "building m2 (rows @ [[N0 ..< N0 + length cols]]) vl1 r0 [] (length (nodes m2))"
    unfolding len2 .
  have rm1: "rows_match m1 rows rs"
  proof (rule rows_match_cong[OF rm])
    fix x assume "x \<in> set (concat rows)"
    then have "x < N0" by (rule old)
    then show "column (nodes m1 ! x) = column (nodes m ! x) \<and> row (nodes m1 ! x) = row (nodes m ! x)"
      using k1 by simp
  qed
  have rm1': "rows_match m1 (rows @ [[N0 ..< N0 + length cols]]) (rs @ [(rid, cols)])"
    by (rule rows_match_snoc[OF rm1 False cl(2) cl(3)])
  have rm2: "rows_match m2 (rows @ [[N0 ..< N0 + length cols]]) (rs @ [(rid, cols)])"
    by (rule rows_match_cong[OF rm1']) (simp add: m2_def close_row_fields)
  have lc: "length (columns m2) = length (columns m)"
    by (simp add: m2_def close_row_fields l1)
  have "add_row rid cols m = (None, m2) \<and>
           building m2 (rows @ [[N0 ..< N0 + length cols]]) vl1 r0 [] (length (nodes m2)) \<and>
           rows_match m2 (rows @ [[N0 ..< N0 + length cols]]) (rs @ [(rid, cols)]) \<and>
           length (columns m2) = length (columns m)"
    using res bb rm2 lc by simp
  then show ?thesis by (intro exI)
qed

lemma add_rows_built:
  assumes "building m rows vl r0 [] (length (nodes m))" "rows_match m rows rs0"
    "valid_rows (int (length (columns m))) rs"
  shows "\<exists>m' rows' vl'. add_rows rs m = Inr m' \<and>
           building m' rows' vl' r0 [] (length (nodes m')) \<and>
           rows_match m' rows' (rs0 @ rs) \<and>
           length (columns m') = length (columns m)"
  using assms
proof (induction rs arbitrary: m rows vl rs0)
  case Nil
  then show ?case by auto
next
  case (Cons rc rs)
  obtain rid cols where rc: "rc = (rid, cols)" by (cases rc)
  have v: "distinct cols" "\<forall>c \<in> set cols. 0 \<le> c \<and> c < int (length (columns m))"
    using Cons.prems(3) by (simp_all add: valid_rows_def rc)
  from add_row_built[OF Cons.prems(1,2) v, of rid]
  obtain m1 rows1 vl1 where
    r1: "add_row rid cols m = (None, m1)"
    and b1: "building m1 rows1 vl1 r0 [] (length (nodes m1))"
    and rm1: "rows_match m1 rows1 (rs0 @ [(rid, cols)])"
    and l1: "length (columns m1) = length (columns m)"
    by blast
  have v1: "valid_rows (int (length (columns m1))) rs"
    using Cons.prems(3) by (simp add: valid_rows_def l1)
  from Cons.IH[OF b1 rm1 v1]
  obtain m' rows' vl' where
    r': "add_rows rs m1 = Inr m'"
    and b': "building m' rows' vl' r0 [] (length (nodes m'))"
    and rm': "rows_match m' rows' ((rs0 @ [(rid, cols)]) @ rs)"
    and l': "length (columns m') = length (columns m1)"
    by blast
  have "add_rows (rc # rs) m = Inr m'" using r1 r' by (simp add: rc)
  moreover have "rows_match m' rows' (rs0 @ rc # rs)" using rm' by (simp add: rc)
  moreover have "length (columns m') = length (columns m)" using l' l1 by simp
  ultimately show ?case using b' by blast
qed

lemma building_dlx_inv:
  assumes b: "building m rows vl r0 [] N"
  shows "dlx_inv m rows [1 ..< length (columns m) + 1] vl"
proof -
  define n where "n = length (columns m)"
  have ar: "wf_arena m" and wr: "wf_rows m rows"
    and hl: "hlist m [1 ..< n + 1]"
    and vc: "\<And>h. 1 \<le> h \<Longrightarrow> h \<le> n \<Longrightarrow> vcol m (rows @ [[N ..< N + length ([] :: int list)]]) h (vl h)"
    and live: "\<And>R y. R \<in> set rows \<Longrightarrow> y \<in> set R \<Longrightarrow> y \<in> set (vl (nat (column (nodes m ! y))))"
    using b unfolding building_def n_def by blast+
  have v: "vcol m rows h (vl h)" if "1 \<le> h" "h \<le> n" for h
    by (rule vcol_cong[OF vc[OF that]]) simp_all
  have rl: "row_live m [1 ..< n + 1] vl R" if R: "R \<in> set rows" for R
    unfolding row_live_def
  proof
    fix y assume y: "y \<in> set R"
    then have yc: "y \<in> set (concat rows)" using R by auto
    have "1 \<le> column (nodes m ! y)" "column (nodes m ! y) \<le> int n"
      using wf_rows_bounds(3,4)[OF wr yc] by (simp_all add: n_def)
    then have "nat (column (nodes m ! y)) \<in> set [1 ..< n + 1]" by auto
    then show "nat (column (nodes m ! y)) \<in> set [1 ..< n + 1] \<and>
        y \<in> set (vl (nat (column (nodes m ! y))))"
      using live[OF R y] by simp
  qed
  show ?thesis
    unfolding dlx_inv_def n_def[symmetric] using ar wr hl v rl by (simp del: upt_Suc)
qed

lemma build_inv:
  assumes "build n rs = Inr m" "valid_rows n rs"
  shows "0 < n \<and> length (columns m) = nat n \<and>
         (\<exists>rows vl. dlx_inv m rows [1 ..< nat n + 1] vl \<and> rows_match m rows rs)"
proof -
  obtain m0 where c: "create n = Inr m0" and a: "add_rows rs m0 = Inr m"
    using assms(1) by (cases "create n") (simp_all add: build_def)
  from create_Inr[OF c] have n: "0 < n" and m0: "m0 = init_matrix (nat n)" by simp_all
  have k: "0 < nat n" using n by simp
  have b0: "building m0 [] (\<lambda>h. []) 0 [] (length (nodes m0))"
    using building_init[OF k, of 0] by (simp add: m0)
  have rm0: "rows_match m0 [] []" by (simp add: rows_match_def)
  have v0: "valid_rows (int (length (columns m0))) rs" using assms(2) n by (simp add: m0)
  from add_rows_built[OF b0 rm0 v0] a
  obtain rows vl where b: "building m rows vl 0 [] (length (nodes m))"
    and rm: "rows_match m rows rs" and l: "length (columns m) = length (columns m0)"
    by auto
  have ln: "length (columns m) = nat n" using l by (simp add: m0)
  have "dlx_inv m rows [1 ..< nat n + 1] vl"
    using building_dlx_inv[OF b] unfolding ln .
  then show ?thesis using n ln rm by blast
qed

lemma walk_chain:
  assumes "chain f a xs b" "b \<notin> set xs" "length xs \<le> fuel"
  shows "walk f (int b) fuel (f a) = map int xs"
  using assms
proof (induction xs arbitrary: a fuel)
  case Nil
  then show ?case by (cases fuel) simp_all
next
  case (Cons x xs)
  obtain g where f: "fuel = Suc g" using Cons.prems(3) by (cases fuel) auto
  have ra: "f a = int x" and ch: "chain f x xs b"
    using Cons.prems(1) by simp_all
  have xb: "x \<noteq> b" using Cons.prems(2) by auto
  have "walk f (int b) g (f x) = map int xs"
    using Cons.IH[OF ch] Cons.prems(2,3) f by simp
  then show ?case using xb by (simp add: f ra)
qed

lemma distinct_bounded_length:
  assumes "distinct xs" "\<forall>x \<in> set xs. x < (N :: nat)"
  shows "length xs \<le> N"
proof -
  have "set xs \<subseteq> {..< N}" using assms(2) by auto
  then have "card (set xs) \<le> card {..< N}" by (intro card_mono) auto
  then show ?thesis using assms(1) by (simp add: distinct_card)
qed

lemma hlist_distinct:
  assumes "hlist m hs"
  shows "distinct hs" "sorted hs"
proof -
  have s: "sorted_wrt (<) hs" using assms by (simp add: hlist_def)
  show "distinct hs" using s by (simp add: strict_sorted_iff)
  show "sorted hs" using s by (simp add: strict_sorted_iff)
qed

lemma header_list_inv:
  assumes inv: "dlx_inv m rows hs vl"
  shows "header_list m = map int hs"
proof -
  have hl: "hlist m hs" and ar: "wf_arena m" using inv by (simp_all add: dlx_inv_def)
  have ch: "chain (\<lambda>i. right (nodes m ! i)) 0 hs 0" using hl by (simp add: hlist_def)
  have b: "\<forall>h \<in> set hs. 1 \<le> h \<and> h \<le> length (columns m)" using hl by (simp add: hlist_def)
  have b': "\<forall>h \<in> set hs. h < length (nodes m)"
    using b ar by (auto simp: wf_arena_def)
  have len: "length hs \<le> length (nodes m)"
    using distinct_bounded_length[OF hlist_distinct(1)[OF hl] b'] .
  have z: "0 \<notin> set hs" using b by auto
  show ?thesis
    unfolding header_list_def using walk_chain[OF ch z len] by simp
qed


lemma uncovered_iff:
  assumes inv: "dlx_inv m rows hs vl"
  shows "uncovered m c \<longleftrightarrow> (0 \<le> c \<and> nat c + 1 \<in> set hs)"
proof -
  have hl: "hlist m hs" using inv by (simp add: dlx_inv_def)
  have pos: "\<forall>h \<in> set hs. 1 \<le> h" using hl by (simp add: hlist_def)
  show ?thesis
  proof
    assume "uncovered m c"
    then obtain h where h: "h \<in> set hs" "c + 1 = int h"
      by (auto simp: uncovered_def header_list_inv[OF inv])
    then have "1 \<le> h" using pos by simp
    then have "0 \<le> c" "nat c + 1 = h" using h(2) by simp_all
    then show "0 \<le> c \<and> nat c + 1 \<in> set hs" using h(1) by simp
  next
    assume a: "0 \<le> c \<and> nat c + 1 \<in> set hs"
    then have "c + 1 = int (nat c + 1)" by simp
    then show "uncovered m c"
      unfolding uncovered_def header_list_inv[OF inv] using a by (metis image_eqI set_map)
  qed
qed

lemma reachable_inv: "reachable m \<Longrightarrow> \<exists>rows hs vl. dlx_inv m rows hs vl"
proof (induction rule: reachable.induct)
  case (reachable_built n rs m)
  then show ?case using build_inv[of n rs m] by blast
next
  case (reachable_cover m c s s')
  then obtain rows hs vl where inv: "dlx_inv m rows hs vl" by blast
  define h where "h = nat c + 1"
  have h: "h \<in> set hs" and c: "c = int h - 1"
    using reachable_cover.hyps(2) uncovered_iff[OF inv, of c] by (simp_all add: h_def)
  have "cover c s = Some (Inr (s\<lparr>matrix := cover_m rows vl h m,
                      operations := operations s + 1 + int (length (cover_nodes rows vl h))\<rparr>))"
    unfolding c using inv h reachable_cover.hyps(3) by (rule cover_run)
  then have "matrix s' = cover_m rows vl h m" using reachable_cover.hyps(4) by auto
  then show ?case using cover_inv[OF inv h] by auto
qed





lemma choose_loop_chain:
  assumes "chain (\<lambda>i. right (nodes m ! i)) a xs 0"
    and "\<forall>x \<in> set xs. 1 \<le> x \<and> x \<le> length (columns m) \<and> x < length (nodes m)"
  shows "choose_loop m (right (nodes m ! a)) mb = Some (Inr (snd (fold (pick m) xs mb)))"
  using assms
proof (induction xs arbitrary: a mb)
  case Nil
  then have "right (nodes m ! a) = 0" by simp
  then show ?case by (simp add: choose_loop.simps)
next
  case (Cons x xs)
  have ra: "right (nodes m ! a) = int x" and ch: "chain (\<lambda>i. right (nodes m ! i)) x xs 0"
    using Cons.prems(1) by simp_all
  have x: "1 \<le> x" "x \<le> length (columns m)" "x < length (nodes m)"
    and rest: "\<forall>x \<in> set xs. 1 \<le> x \<and> x \<le> length (columns m) \<and> x < length (nodes m)"
    using Cons.prems(2) by simp_all
  define col where "col = columns m ! (x - 1)"
  have cg: "columns_get m (int x - 1) = Inr col"
    using x by (simp add: columns_get_nonneg nat_diff_distrib col_def)
  have ng: "nodes_get m (int x) = Inr (nodes m ! x)"
    using x by (simp add: nodes_get_nonneg)
  have lt: "int x - 1 < int (length (columns m))" "int x \<noteq> 0" using x by simp_all
  have pk: "pick m x mb =
     (if (case fst mb of None \<Rightarrow> True | Some ms \<Rightarrow> c_size col < ms)
      then (Some (c_size col), Some (int x - 1)) else mb)"
    unfolding pick_def col_def by (rule refl)
  have step: "choose_loop m (int x) mb = choose_loop m (right (nodes m ! x)) (pick m x mb)"
    unfolding pk by (subst choose_loop.simps) (use x(1) in \<open>simp add: lt cg ng Let_def\<close>)
  show ?case
    unfolding ra step using Cons.IH[OF ch rest, of "pick m x mb"] by simp
qed

lemma fold_pick_first_min:
  "(xs = [] \<and> fold (pick m) xs (None, None) = (None, None)) \<or>
   (\<exists>pre c post. xs = pre @ c # post \<and>
      fold (pick m) xs (None, None) = (Some (c_size (columns m ! (c - 1))), Some (int c - 1)) \<and>
      (\<forall>h \<in> set pre. c_size (columns m ! (c - 1)) < c_size (columns m ! (h - 1))) \<and>
      (\<forall>h \<in> set post. c_size (columns m ! (c - 1)) \<le> c_size (columns m ! (h - 1))))"
proof (induction xs rule: rev_induct)
  case Nil
  show ?case by simp
next
  case (snoc x xs)
  have f: "fold (pick m) (xs @ [x]) (None, None) = pick m x (fold (pick m) xs (None, None))"
    by simp
  from snoc.IH show ?case
  proof
    assume a: "xs = [] \<and> fold (pick m) xs (None, None) = (None, None)"
    have "xs @ [x] = [] @ x # []" using a by simp
    moreover have "fold (pick m) (xs @ [x]) (None, None) =
        (Some (c_size (columns m ! (x - 1))), Some (int x - 1))"
      unfolding f using a by (simp add: pick_def)
    ultimately show ?thesis by fastforce
  next
    assume "\<exists>pre c post. xs = pre @ c # post \<and>
      fold (pick m) xs (None, None) = (Some (c_size (columns m ! (c - 1))), Some (int c - 1)) \<and>
      (\<forall>h \<in> set pre. c_size (columns m ! (c - 1)) < c_size (columns m ! (h - 1))) \<and>
      (\<forall>h \<in> set post. c_size (columns m ! (c - 1)) \<le> c_size (columns m ! (h - 1)))"
    then obtain pre c post where xs: "xs = pre @ c # post"
      and fo: "fold (pick m) xs (None, None) = (Some (c_size (columns m ! (c - 1))), Some (int c - 1))"
      and pre: "\<forall>h \<in> set pre. c_size (columns m ! (c - 1)) < c_size (columns m ! (h - 1))"
      and post: "\<forall>h \<in> set post. c_size (columns m ! (c - 1)) \<le> c_size (columns m ! (h - 1))"
      by blast
    show ?thesis
    proof (cases "c_size (columns m ! (x - 1)) < c_size (columns m ! (c - 1))")
      case True
      have e: "xs @ [x] = xs @ x # []" by simp
      have r: "fold (pick m) (xs @ [x]) (None, None) =
          (Some (c_size (columns m ! (x - 1))), Some (int x - 1))"
        unfolding f fo using True by (simp add: pick_def)
      have all: "\<forall>h \<in> set xs. c_size (columns m ! (x - 1)) < c_size (columns m ! (h - 1))"
      proof
        fix h assume "h \<in> set xs"
        then have "h \<in> set pre \<or> h = c \<or> h \<in> set post" unfolding xs by auto
        then show "c_size (columns m ! (x - 1)) < c_size (columns m ! (h - 1))"
          using True pre post by fastforce
      qed
      have "\<exists>pre' c' post'. xs @ [x] = pre' @ c' # post' \<and>
          fold (pick m) (xs @ [x]) (None, None) =
            (Some (c_size (columns m ! (c' - 1))), Some (int c' - 1)) \<and>
          (\<forall>h \<in> set pre'. c_size (columns m ! (c' - 1)) < c_size (columns m ! (h - 1))) \<and>
          (\<forall>h \<in> set post'. c_size (columns m ! (c' - 1)) \<le> c_size (columns m ! (h - 1)))"
        apply (rule exI[of _ xs])
        apply (rule exI[of _ x])
        apply (rule exI[of _ "[]"])
        using e r all by simp
      then show ?thesis by (rule disjI2)
    next
      case False
      have e: "xs @ [x] = pre @ c # (post @ [x])" unfolding xs by simp
      have r: "fold (pick m) (xs @ [x]) (None, None) =
          (Some (c_size (columns m ! (c - 1))), Some (int c - 1))"
        unfolding f fo using False by (simp add: pick_def)
      have post': "\<forall>h \<in> set (post @ [x]). c_size (columns m ! (c - 1)) \<le> c_size (columns m ! (h - 1))"
        using post False by auto
      have "\<exists>pre' c' post'. xs @ [x] = pre' @ c' # post' \<and>
          fold (pick m) (xs @ [x]) (None, None) =
            (Some (c_size (columns m ! (c' - 1))), Some (int c' - 1)) \<and>
          (\<forall>h \<in> set pre'. c_size (columns m ! (c' - 1)) < c_size (columns m ! (h - 1))) \<and>
          (\<forall>h \<in> set post'. c_size (columns m ! (c' - 1)) \<le> c_size (columns m ! (h - 1)))"
        apply (rule exI[of _ pre])
        apply (rule exI[of _ c])
        apply (rule exI[of _ "post @ [x]"])
        using e r pre post' by simp
      then show ?thesis by (rule disjI2)
    qed
  qed
qed

lemma choose_column_inv:
  assumes inv: "dlx_inv m rows hs vl" and ms: "matrix s = m" and ne: "hs \<noteq> []"
  shows "\<exists>pre c post. hs = pre @ c # post \<and>
           choose_column s = Some (Inr (Some (int c - 1), s\<lparr>operations := operations s + 1\<rparr>)) \<and>
           (\<forall>h \<in> set pre. c_size (columns m ! (c - 1)) < c_size (columns m ! (h - 1))) \<and>
           (\<forall>h \<in> set post. c_size (columns m ! (c - 1)) \<le> c_size (columns m ! (h - 1)))"
proof -
  have hl: "hlist m hs" and ar: "wf_arena m" using inv by (simp_all add: dlx_inv_def)
  have ch: "chain (\<lambda>i. right (nodes m ! i)) 0 hs 0" using hl by (simp add: hlist_def)
  have b: "\<forall>x \<in> set hs. 1 \<le> x \<and> x \<le> length (columns m) \<and> x < length (nodes m)"
    using hl ar by (auto simp: hlist_def wf_arena_def)
  have n0: "0 < length (nodes m)" using ar unfolding wf_arena_def by linarith
  obtain x xs where hs: "hs = x # xs" using ne by (cases hs) auto
  have r0: "right (nodes m ! 0) = int x" "x \<noteq> 0" using ch b by (simp_all add: hs)
  have ng: "nodes_get m 0 = Inr (nodes m ! 0)" using n0 by (simp add: nodes_get_nonneg)
  have lp: "choose_loop m (right (nodes m ! 0)) (None, None) =
      Some (Inr (snd (fold (pick m) hs (None, None))))"
    using choose_loop_chain[OF ch b] .
  from fold_pick_first_min[of hs m] ne obtain pre c post where
    sp: "hs = pre @ c # post"
    and fo: "fold (pick m) hs (None, None) = (Some (c_size (columns m ! (c - 1))), Some (int c - 1))"
    and pre: "\<forall>h \<in> set pre. c_size (columns m ! (c - 1)) < c_size (columns m ! (h - 1))"
    and post: "\<forall>h \<in> set post. c_size (columns m ! (c - 1)) \<le> c_size (columns m ! (h - 1))"
    by blast
  have "choose_column s = Some (Inr (Some (int c - 1), s\<lparr>operations := operations s + 1\<rparr>))"
    unfolding choose_column_def Let_def using r0 lp[unfolded r0(1)] by (simp add: ms ng fo)
  then show ?thesis using sp pre post by blast
qed

text \<open>
  C7 (\<open>choose_column\<close> returns the first column of minimum size). In every reachable
  matrix state with at least one uncovered column, \<open>choose_column\<close> returns a column \<open>c\<close>
  whose header splits the header list into the headers before it, all of columns
  strictly larger than \<open>c\<close>, and the headers after it, all of columns at least as
  large. The header list is strictly increasing, so that scan order is the natural column
  order: \<open>c\<close> is uncovered, no uncovered column is smaller, and every uncovered
  column of the same size has a larger or equal index.
\<close>

theorem choose_column_first_minimum:
  assumes "reachable m" and "matrix s = m" and "header_list m \<noteq> []"
  shows "\<exists>c pre post.
           choose_column s = Some (Inr (Some c, s\<lparr>operations := operations s + 1\<rparr>)) \<and>
           header_list m = pre @ (c + 1) # post \<and>
           (\<forall>h \<in> set pre. c_size (columns m ! nat c) < c_size (columns m ! nat (h - 1))) \<and>
           (\<forall>h \<in> set post. c_size (columns m ! nat c) \<le> c_size (columns m ! nat (h - 1))) \<and>
           sorted (header_list m) \<and> distinct (header_list m) \<and> uncovered m c \<and>
           (\<forall>c'. uncovered m c' \<longrightarrow>
              c_size (columns m ! nat c) \<le> c_size (columns m ! nat c') \<and>
              (c_size (columns m ! nat c') = c_size (columns m ! nat c) \<longrightarrow> c \<le> c'))"
proof -
  obtain rows hs vl where inv: "dlx_inv m rows hs vl"
    using reachable_inv[OF assms(1)] by blast
  have hlm: "header_list m = map int hs" using header_list_inv[OF inv] .
  have ne: "hs \<noteq> []" using assms(3) unfolding hlm by simp
  have hl: "hlist m hs" using inv by (simp add: dlx_inv_def)
  have ss: "sorted_wrt (<) hs" and pos: "\<forall>h \<in> set hs. 1 \<le> h"
    using hl by (simp_all add: hlist_def)
  from choose_column_inv[OF inv assms(2) ne] obtain pre0 c0 post0 where
    sp: "hs = pre0 @ c0 # post0"
    and cc: "choose_column s = Some (Inr (Some (int c0 - 1), s\<lparr>operations := operations s + 1\<rparr>))"
    and pre: "\<forall>h \<in> set pre0. c_size (columns m ! (c0 - 1)) < c_size (columns m ! (h - 1))"
    and post: "\<forall>h \<in> set post0. c_size (columns m ! (c0 - 1)) \<le> c_size (columns m ! (h - 1))"
    by blast
  define c where "c = int c0 - 1"
  have c0: "1 \<le> c0" using pos sp by simp
  have nc: "nat c = c0 - 1" "c + 1 = int c0" "0 \<le> c" "nat c + 1 = c0"
    using c0 by (simp_all add: c_def)
  have aft: "\<forall>h \<in> set post0. c0 < h"
    using ss unfolding sp by (simp add: sorted_wrt_append)
  have a: "choose_column s = Some (Inr (Some c, s\<lparr>operations := operations s + 1\<rparr>))"
    using cc by (simp add: c_def)
  have b: "header_list m = map int pre0 @ (c + 1) # map int post0"
    unfolding hlm sp nc(2) by simp
  have nm: "nat (int h - 1) = h - 1" for h by arith
  have p1: "\<forall>h \<in> set (map int pre0). c_size (columns m ! nat c) < c_size (columns m ! nat (h - 1))"
    unfolding nc(1) using pre by (auto simp: nm)
  have p2: "\<forall>h \<in> set (map int post0). c_size (columns m ! nat c) \<le> c_size (columns m ! nat (h - 1))"
    unfolding nc(1) using post by (auto simp: nm)
  have sm: "sorted_wrt (<) (map int hs)" using ss by (simp add: sorted_wrt_map)
  have so: "sorted (header_list m)" "distinct (header_list m)"
    unfolding hlm using sm by (simp_all add: strict_sorted_iff)
  have un: "uncovered m c"
    unfolding uncovered_iff[OF inv] nc(4) using nc(3) sp by simp
  have mn: "c_size (columns m ! nat c) \<le> c_size (columns m ! nat c') \<and>
              (c_size (columns m ! nat c') = c_size (columns m ! nat c) \<longrightarrow> c \<le> c')"
    if u: "uncovered m c'" for c'
  proof -
    define h where "h = nat c' + 1"
    have h: "h \<in> set hs" "0 \<le> c'" using u unfolding uncovered_iff[OF inv] by (simp_all add: h_def)
    have nh: "nat c' = h - 1" by (simp add: h_def)
    have "h \<in> set pre0 \<or> h = c0 \<or> h \<in> set post0" using h(1) unfolding sp by auto
    then show ?thesis
    proof (elim disjE)
      assume "h \<in> set pre0"
      then have "c_size (columns m ! (c0 - 1)) < c_size (columns m ! (h - 1))" using pre by blast
      then show ?thesis unfolding nc(1) nh by simp
    next
      assume "h = c0"
      then have "c' = c" using h(2) by (simp add: h_def c_def)
      then show ?thesis by simp
    next
      assume hp: "h \<in> set post0"
      then have le: "c_size (columns m ! (c0 - 1)) \<le> c_size (columns m ! (h - 1))" using post by blast
      have "c0 < h" using aft hp by blast
      then have "c \<le> c'" using h(2) by (simp add: h_def c_def)
      then show ?thesis unfolding nc(1) nh using le by simp
    qed
  qed
  have "choose_column s = Some (Inr (Some c, s\<lparr>operations := operations s + 1\<rparr>)) \<and>
           header_list m = map int pre0 @ (c + 1) # map int post0 \<and>
           (\<forall>h \<in> set (map int pre0). c_size (columns m ! nat c) < c_size (columns m ! nat (h - 1))) \<and>
           (\<forall>h \<in> set (map int post0). c_size (columns m ! nat c) \<le> c_size (columns m ! nat (h - 1))) \<and>
           sorted (header_list m) \<and> distinct (header_list m) \<and> uncovered m c \<and>
           (\<forall>c'. uncovered m c' \<longrightarrow>
              c_size (columns m ! nat c) \<le> c_size (columns m ! nat c') \<and>
              (c_size (columns m ! nat c') = c_size (columns m ! nat c) \<longrightarrow> c \<le> c'))"
    using a b p1 p2 so un mn by (intro conjI allI impI) blast+
  then show ?thesis by (intro exI)
qed

theorem choose_column_first_minimum_witness:
  "build 3 [(0, [0, 1]), (1, [1, 2]), (2, [0])] = Inr example_matrix \<and>
   valid_rows 3 [(0, [0, 1]), (1, [1, 2]), (2, [0])] \<and>
   header_list example_matrix = [1, 2, 3] \<and>
   map c_size (columns example_matrix) = [2, 2, 1] \<and>
   (\<exists>c pre post.
      choose_column (new_solver example_matrix) =
        Some (Inr (Some c, (new_solver example_matrix)
                     \<lparr>operations := operations (new_solver example_matrix) + 1\<rparr>)) \<and>
      header_list example_matrix = pre @ (c + 1) # post \<and>
      (\<forall>h \<in> set pre. c_size (columns example_matrix ! nat c)
                        < c_size (columns example_matrix ! nat (h - 1))) \<and>
      (\<forall>h \<in> set post. c_size (columns example_matrix ! nat c)
                         \<le> c_size (columns example_matrix ! nat (h - 1))) \<and>
      uncovered example_matrix c)"
proof -
  have b: "build 3 [(0, [0, 1]), (1, [1, 2]), (2, [0])] = Inr example_matrix"
    by code_simp
  have v: "valid_rows 3 [(0, [0, 1]), (1, [1, 2]), (2, [0])]"
    by (simp add: valid_rows_def)
  have r: "reachable example_matrix" using b v by (rule reachable_built)
  have hl: "header_list example_matrix = [1, 2, 3]" by code_simp
  have sz: "map c_size (columns example_matrix) = [2, 2, 1]" by code_simp
  have ne: "header_list example_matrix \<noteq> []" unfolding hl by simp
  have ms: "matrix (new_solver example_matrix) = example_matrix"
    by (simp add: new_solver_def)
  from choose_column_first_minimum[OF r ms ne]
  have "\<exists>c pre post.
      choose_column (new_solver example_matrix) =
        Some (Inr (Some c, (new_solver example_matrix)
                     \<lparr>operations := operations (new_solver example_matrix) + 1\<rparr>)) \<and>
      header_list example_matrix = pre @ (c + 1) # post \<and>
      (\<forall>h \<in> set pre. c_size (columns example_matrix ! nat c)
                        < c_size (columns example_matrix ! nat (h - 1))) \<and>
      (\<forall>h \<in> set post. c_size (columns example_matrix ! nat c)
                         \<le> c_size (columns example_matrix ! nat (h - 1))) \<and>
      uncovered example_matrix c"
    by blast
  then show ?thesis using b v hl sz by (intro conjI)
qed

lemma row_columns_run:
  assumes R: "R \<in> set rows" "x \<in> set R"
  shows "dlx_inv m rows hs vl \<Longrightarrow> others rows x = dn @ js \<Longrightarrow>
     (\<forall>j \<in> set js. nat (column (nodes m ! j)) \<in> set hs) \<Longrightarrow>
     \<exists>m' vl'. dlx_inv m' rows (filter (\<lambda>h. h \<notin> (\<lambda>j. nat (column (nodes m ! j))) ` set js) hs) vl' \<and>
        (\<forall>i. column (nodes m' ! i) = column (nodes m ! i) \<and> row (nodes m' ! i) = row (nodes m ! i)) \<and>
        (\<forall>s. matrix s = m \<longrightarrow>
           (\<exists>k. cover_row_columns (int x) (int (hd (js @ [x]))) s =
                 Some (Inr (s\<lparr>matrix := m', operations := operations s + k\<rparr>)))) \<and>
        (\<forall>t. matrix t = m' \<longrightarrow>
           (\<exists>k. uncover_row_columns (int x) (int (last (x # dn @ js))) t =
                 uncover_row_columns (int x) (int (last (x # dn)))
                   (t\<lparr>matrix := m, operations := operations t + k\<rparr>)))"
proof (induction js arbitrary: m hs vl dn)
  case Nil
  have a: "dlx_inv m rows (filter (\<lambda>h. h \<notin> (\<lambda>j. nat (column (nodes m ! j))) ` set []) hs) vl"
    using Nil.prems(1) by simp
  have b: "\<forall>s. matrix s = m \<longrightarrow>
           (\<exists>k. cover_row_columns (int x) (int (hd ([] @ [x]))) s =
                 Some (Inr (s\<lparr>matrix := m, operations := operations s + k\<rparr>)))"
  proof (intro allI impI)
    fix s :: DLXSolver assume "matrix s = m"
    then have "cover_row_columns (int x) (int (hd ([] @ [x]))) s =
                 Some (Inr (s\<lparr>matrix := m, operations := operations s + 0\<rparr>))"
      by (subst cover_row_columns.simps) simp
    then show "\<exists>k. cover_row_columns (int x) (int (hd ([] @ [x]))) s =
                 Some (Inr (s\<lparr>matrix := m, operations := operations s + k\<rparr>))" ..
  qed
  have c: "\<forall>t. matrix t = m \<longrightarrow>
           (\<exists>k. uncover_row_columns (int x) (int (last (x # dn @ []))) t =
                 uncover_row_columns (int x) (int (last (x # dn)))
                   (t\<lparr>matrix := m, operations := operations t + k\<rparr>))"
  proof (intro allI impI)
    fix t :: DLXSolver assume "matrix t = m"
    then have "t\<lparr>matrix := m, operations := operations t + 0\<rparr> = t" by simp
    then have "uncover_row_columns (int x) (int (last (x # dn @ []))) t =
                 uncover_row_columns (int x) (int (last (x # dn)))
                   (t\<lparr>matrix := m, operations := operations t + 0\<rparr>)" by simp
    then show "\<exists>k. uncover_row_columns (int x) (int (last (x # dn @ []))) t =
                 uncover_row_columns (int x) (int (last (x # dn)))
                   (t\<lparr>matrix := m, operations := operations t + k\<rparr>)" ..
  qed
  show ?case
    apply (rule exI[of _ m])
    apply (rule exI[of _ vl])
    using a b c by simp
next
  case (Cons j js)
  note inv = Cons.prems(1)
  note sp = Cons.prems(2)
  have wr: "wf_rows m rows" using inv by (simp add: dlx_inv_def)
  have op: "set (others rows x) = set R - {x}" "distinct (others rows x)"
    using others_props(3,4)[OF wr R] .
  have jR: "j \<in> set R" "j \<noteq> x" using op(1) sp by auto
  have jc: "j \<in> set (concat rows)" using jR(1) R(1) by auto
  have jb: "j < length (nodes m)" "1 \<le> column (nodes m ! j)"
    using wf_rows_bounds(2,3)[OF wr jc] .
  define h where "h = nat (column (nodes m ! j))"
  have h: "h \<in> set hs" and ch: "column (nodes m ! j) = int h"
    using Cons.prems(3) jb(2) by (simp_all add: h_def)
  define m1 where "m1 = cover_m rows vl h m"
  define hs1 where "hs1 = filter (\<lambda>z. z \<noteq> h) hs"
  define vl1 where "vl1 = (\<lambda>h'. filter (\<lambda>z. z \<notin> set (cover_nodes rows vl h)) (vl h'))"
  define len where "len = 1 + int (length (cover_nodes rows vl h))"
  have inv1: "dlx_inv m1 rows hs1 vl1"
    unfolding m1_def hs1_def vl1_def using inv h by (rule cover_inv)
  have wr1: "wf_rows m1 rows" using inv1 by (simp add: dlx_inv_def)
  have st: "column (nodes m1 ! i) = column (nodes m ! i)" "row (nodes m1 ! i) = row (nodes m ! i)"
    "length (nodes m1) = length (nodes m)" for i
    by (simp_all add: m1_def)
  have sp1: "others rows x = (dn @ [j]) @ js" using sp by simp
  have dR: "distinct (map (\<lambda>x. column (nodes m ! x)) R)"
    using wr R(1) by (simp add: wf_rows_def)
  have cols1: "\<forall>j' \<in> set js. nat (column (nodes m1 ! j')) \<in> set hs1"
  proof
    fix j' assume j': "j' \<in> set js"
    then have j'R: "j' \<in> set R" using op(1) sp by auto
    have ne: "j' \<noteq> j" using op(2) j' unfolding sp by auto
    have j'c: "j' \<in> set (concat rows)" using j'R R(1) by auto
    have pos: "1 \<le> column (nodes m ! j')" using wf_rows_bounds(3)[OF wr j'c] .
    have "column (nodes m ! j') \<noteq> column (nodes m ! j)"
      using dR j'R jR(1) ne by (auto simp: distinct_map inj_on_def)
    then have "nat (column (nodes m ! j')) \<noteq> h" using pos jb(2) by (simp add: h_def)
    moreover have "nat (column (nodes m ! j')) \<in> set hs" using Cons.prems(3) j' by simp
    ultimately show "nat (column (nodes m1 ! j')) \<in> set hs1" by (simp add: st hs1_def)
  qed
  from Cons.IH[OF inv1 sp1 cols1] obtain m' vl' where
    inv': "dlx_inv m' rows (filter (\<lambda>h. h \<notin> (\<lambda>j. nat (column (nodes m1 ! j))) ` set js) hs1) vl'"
    and st': "\<forall>i. column (nodes m' ! i) = column (nodes m1 ! i) \<and> row (nodes m' ! i) = row (nodes m1 ! i)"
    and cv': "\<forall>s. matrix s = m1 \<longrightarrow>
           (\<exists>k. cover_row_columns (int x) (int (hd (js @ [x]))) s =
                 Some (Inr (s\<lparr>matrix := m', operations := operations s + k\<rparr>)))"
    and un': "\<forall>t. matrix t = m' \<longrightarrow>
           (\<exists>k. uncover_row_columns (int x) (int (last (x # (dn @ [j]) @ js))) t =
                 uncover_row_columns (int x) (int (last (x # dn @ [j])))
                   (t\<lparr>matrix := m1, operations := operations t + k\<rparr>))"
    by blast
  have fe: "filter (\<lambda>h. h \<notin> (\<lambda>j. nat (column (nodes m1 ! j))) ` set js) hs1 =
            filter (\<lambda>h. h \<notin> (\<lambda>j. nat (column (nodes m ! j))) ` set (j # js)) hs"
    unfolding hs1_def st by (auto simp: h_def intro: filter_cong)
  have a: "dlx_inv m' rows (filter (\<lambda>h. h \<notin> (\<lambda>j. nat (column (nodes m ! j))) ` set (j # js)) hs) vl'"
    using inv' unfolding fe .
  have b: "\<forall>i. column (nodes m' ! i) = column (nodes m ! i) \<and> row (nodes m' ! i) = row (nodes m ! i)"
    using st' st by simp
  have r1: "right (nodes m1 ! j) = int (hd (js @ [x]))"
    using chain_mid[of "\<lambda>i. right (nodes m1 ! i)" x dn j js x] others_props(1)[OF wr1 R]
    unfolding sp by simp
  have l0: "left (nodes m ! j) = int (last (x # dn))"
  proof -
    have "chain (\<lambda>i. left (nodes m ! i)) x (rev js @ j # rev dn) x"
      using others_props(2)[OF wr R] unfolding sp by simp
    from chain_mid[OF this] have "left (nodes m ! j) = int (hd (rev dn @ [x]))" by simp
    then show ?thesis by (simp add: last_rev_hd[of x "rev dn", simplified])
  qed
  have c: "\<forall>s. matrix s = m \<longrightarrow>
           (\<exists>k. cover_row_columns (int x) (int (hd ((j # js) @ [x]))) s =
                 Some (Inr (s\<lparr>matrix := m', operations := operations s + k\<rparr>)))"
  proof (intro allI impI)
    fix s :: DLXSolver assume ms: "matrix s = m"
    define s1 where "s1 = s\<lparr>matrix := m1, operations := operations s + len\<rparr>"
    have cr: "cover (int h - 1) s = Some (Inr s1)"
      using cover_run[OF inv h ms] by (simp add: s1_def m1_def len_def)
    have ms1: "matrix s1 = m1" by (simp add: s1_def)
    obtain k where k: "cover_row_columns (int x) (int (hd (js @ [x]))) s1 =
                 Some (Inr (s1\<lparr>matrix := m', operations := operations s1 + k\<rparr>))"
      using cv' ms1 by blast
    have "cover_row_columns (int x) (int j) s =
        cover_row_columns (int x) (right (nodes (matrix s1) ! j)) s1"
      by (subst cover_row_columns.simps) (use jR(2) jb(1) in \<open>simp add: ms ch cr\<close>)
    then have "cover_row_columns (int x) (int (hd ((j # js) @ [x]))) s =
        Some (Inr (s\<lparr>matrix := m', operations := operations s + (len + k)\<rparr>))"
      unfolding ms1 r1 k by (simp add: s1_def)
    then show "\<exists>k. cover_row_columns (int x) (int (hd ((j # js) @ [x]))) s =
                 Some (Inr (s\<lparr>matrix := m', operations := operations s + k\<rparr>))" ..
  qed
  have d: "\<forall>t. matrix t = m' \<longrightarrow>
           (\<exists>k. uncover_row_columns (int x) (int (last (x # dn @ j # js))) t =
                 uncover_row_columns (int x) (int (last (x # dn)))
                   (t\<lparr>matrix := m, operations := operations t + k\<rparr>))"
  proof (intro allI impI)
    fix t :: DLXSolver assume mt: "matrix t = m'"
    obtain k where k: "uncover_row_columns (int x) (int (last (x # (dn @ [j]) @ js))) t =
                 uncover_row_columns (int x) (int (last (x # dn @ [j])))
                   (t\<lparr>matrix := m1, operations := operations t + k\<rparr>)"
      using un' mt by blast
    define t1 where "t1 = t\<lparr>matrix := m1, operations := operations t + k\<rparr>"
    define t2 where "t2 = t1\<lparr>matrix := m, operations := operations t1 + len\<rparr>"
    have mt1: "matrix t1 = cover_m rows vl h m" by (simp add: t1_def m1_def)
    have ur: "uncover (int h - 1) t1 = Some (Inr t2)"
      using uncover_run[OF inv h mt1] by (simp add: t2_def len_def)
    have mt1': "matrix t1 = m1" by (simp add: t1_def)
    have "uncover_row_columns (int x) (int j) t1 =
        uncover_row_columns (int x) (left (nodes (matrix t2) ! j)) t2"
      by (subst uncover_row_columns.simps) (use jR(2) jb(1) in \<open>simp add: mt1' st ch ur\<close>)
    moreover have "matrix t2 = m" by (simp add: t2_def)
    ultimately have "uncover_row_columns (int x) (int j) t1 =
        uncover_row_columns (int x) (int (last (x # dn))) t2"
      by (simp add: l0)
    moreover have "t2 = t\<lparr>matrix := m, operations := operations t + (k + len)\<rparr>"
      by (simp add: t2_def t1_def)
    ultimately have "uncover_row_columns (int x) (int (last (x # dn @ j # js))) t =
                 uncover_row_columns (int x) (int (last (x # dn)))
                   (t\<lparr>matrix := m, operations := operations t + (k + len)\<rparr>)"
      using k by (simp add: t1_def)
    then show "\<exists>k. uncover_row_columns (int x) (int (last (x # dn @ j # js))) t =
                 uncover_row_columns (int x) (int (last (x # dn)))
                   (t\<lparr>matrix := m, operations := operations t + k\<rparr>)" ..
  qed
  show ?case
    apply (rule exI[of _ m'])
    apply (rule exI[of _ vl'])
    using a b c d by simp
qed

lemma exact_for_Nil: "exact_for m rows [] []"
  unfolding exact_for_def by (rule exI[of _ "[]"]) simp

lemma exact_for_cong:
  assumes "exact_for m' rows hs e"
    and "\<And>i. column (nodes m' ! i) = column (nodes m ! i)"
    and "\<And>i. row (nodes m' ! i) = row (nodes m ! i)"
  shows "exact_for m rows hs e"
  using assms(1) unfolding exact_for_def assms(2,3) .

lemma exact_for_extend:
  assumes inv: "dlx_inv m rows hs vl" and h: "h \<in> set hs" and r: "r \<in> set (vl h)"
    and e: "exact_for m rows
              (filter (\<lambda>z. z \<notin> (\<lambda>j. nat (column (nodes m ! j))) ` set (others rows r))
                 (filter (\<lambda>z. z \<noteq> h) hs)) e"
  shows "exact_for m rows hs (row (nodes m ! r) # e)"
proof -
  define cl where "cl = (\<lambda>x. column (nodes m ! x))"
  define C where "C = (\<lambda>j. nat (cl j)) ` set (others rows r)"
  define hs2 where "hs2 = filter (\<lambda>z. z \<notin> C) (filter (\<lambda>z. z \<noteq> h) hs)"
  have wr: "wf_rows m rows" using inv by (simp add: dlx_inv_def)
  obtain R where R: "R \<in> set rows" "r \<in> set R" and live: "row_live m hs vl R"
    using live_row_of[OF inv h r] by blast
  have cr: "cl r = int h" using cover_rows(5)[OF inv h r] by (simp add: cl_def)
  have op: "set (others rows r) = set R - {r}" using others_props(3)[OF wr R] .
  have dR: "distinct (map cl R)" using wr R(1) by (simp add: wf_rows_def cl_def)
  have pos: "1 \<le> cl y" if "y \<in> set R" for y
  proof -
    have "y \<in> set (concat rows)" using that R(1) by auto
    from wf_rows_bounds(3)[OF wr this] show ?thesis by (simp add: cl_def)
  qed
  have liveR: "nat (cl y) \<in> set hs" if "y \<in> set R" for y
    using live that by (simp add: row_live_def cl_def)
  have setR: "set (map cl R) = int ` ({h} \<union> C)"
  proof
    show "set (map cl R) \<subseteq> int ` ({h} \<union> C)"
    proof
      fix v assume "v \<in> set (map cl R)"
      then obtain y where y: "y \<in> set R" "v = cl y" by auto
      show "v \<in> int ` ({h} \<union> C)"
      proof (cases "y = r")
        case True
        then show ?thesis using y cr by simp
      next
        case False
        then have "y \<in> set (others rows r)" using op y by simp
        then have "nat (cl y) \<in> C" by (simp add: C_def)
        moreover have "v = int (nat (cl y))" using pos[OF y(1)] y(2) by simp
        ultimately show ?thesis by blast
      qed
    qed
    show "int ` ({h} \<union> C) \<subseteq> set (map cl R)"
    proof
      fix v assume "v \<in> int ` ({h} \<union> C)"
      then have "v = int h \<or> (\<exists>y \<in> set (others rows r). v = int (nat (cl y)))"
        by (auto simp: C_def)
      then show "v \<in> set (map cl R)"
      proof
        assume "v = int h"
        then show ?thesis using R(2) cr by force
      next
        assume "\<exists>y \<in> set (others rows r). v = int (nat (cl y))"
        then obtain y where y: "y \<in> set (others rows r)" "v = int (nat (cl y))" by blast
        then have yR: "y \<in> set R" using op by simp
        then have "v = cl y" using pos[OF yR] y(2) by simp
        then show ?thesis using yR by force
      qed
    qed
  qed
  have Csub: "C \<subseteq> set hs"
  proof
    fix v assume "v \<in> C"
    then obtain y where "y \<in> set (others rows r)" "v = nat (cl y)" by (auto simp: C_def)
    then show "v \<in> set hs" using liveR[of y] op by simp
  qed
  have hs2: "set hs2 = set hs - ({h} \<union> C)" by (auto simp: hs2_def)
  obtain Rs where Rs: "list_all2 (\<lambda>R rid. R \<in> set rows \<and> (\<exists>x \<in> set R. row (nodes m ! x) = rid)) Rs e"
    and dRs: "distinct (concat (map (map cl) Rs))"
    and sRs: "set (concat (map (map cl) Rs)) = int ` set hs2"
  proof -
    have e2: "exact_for m rows hs2 e" using e by (simp add: hs2_def C_def cl_def)
    show ?thesis using e2 that unfolding exact_for_def cl_def[symmetric] by blast
  qed
  have a: "list_all2 (\<lambda>R rid. R \<in> set rows \<and> (\<exists>x \<in> set R. row (nodes m ! x) = rid))
             (R # Rs) (row (nodes m ! r) # e)"
    using Rs R by auto
  have dj: "set (map cl R) \<inter> set (concat (map (map cl) Rs)) = {}"
    unfolding setR sRs hs2 by auto
  have b: "distinct (concat (map (map cl) (R # Rs)))"
    using dR dRs dj by simp
  have c: "set (concat (map (map cl) (R # Rs))) = int ` set hs"
  proof -
    have "set (concat (map (map cl) (R # Rs))) = int ` ({h} \<union> C) \<union> int ` (set hs - ({h} \<union> C))"
      using setR sRs hs2 by simp
    also have "\<dots> = int ` (({h} \<union> C) \<union> (set hs - ({h} \<union> C)))" by blast
    also have "({h} \<union> C) \<union> (set hs - ({h} \<union> C)) = set hs" using h Csub by blast
    finally show ?thesis .
  qed
  show ?thesis
    unfolding exact_for_def cl_def[symmetric]
    using a b c by (intro exI[of _ "R # Rs"]) simp
qed

lemma try_rows_run:
  assumes inv: "dlx_inv m rows hs vl" and h: "h \<in> set hs"
    and rec: "\<And>s2 hs2 vl2. dlx_inv (matrix s2) rows hs2 vl2 \<Longrightarrow> length hs2 < length hs \<Longrightarrow>
                search_post rows hs2 fa s2 (rec s2)"
  shows "vl h = dn @ rs \<Longrightarrow> matrix s = cover_m rows vl h m \<Longrightarrow>
     \<exists>ex s' new. try_rows rec fa (int h) (int (hd (rs @ [h]))) found s = Some (Inr (ex, s')) \<and>
        solutions s' = solutions s @ map (\<lambda>e. solution s @ e) new \<and>
        (\<forall>e \<in> set new. exact_for m rows hs e) \<and>
        (case ex of Return_True \<Rightarrow> \<not> fa
         | Loop_End f \<Rightarrow> matrix s' = cover_m rows vl h m \<and> solution s' = solution s)"
proof (induction rs arbitrary: dn s found)
  case Nil
  have "try_rows rec fa (int h) (int (hd ([] @ [h]))) found s = Some (Inr (Loop_End found, s))"
    by (subst try_rows.simps) simp
  moreover have "solutions s = solutions s @ map (\<lambda>e. solution s @ e) []" by simp
  ultimately show ?case using Nil.prems(2) by fastforce
next
  case (Cons r rs)
  define m1 where "m1 = cover_m rows vl h m"
  define hs1 where "hs1 = filter (\<lambda>z. z \<noteq> h) hs"
  define vl1 where "vl1 = (\<lambda>h'. filter (\<lambda>z. z \<notin> set (cover_nodes rows vl h)) (vl h'))"
  have ms: "matrix s = m1" using Cons.prems(2) by (simp add: m1_def)
  have inv1: "dlx_inv m1 rows hs1 vl1"
    unfolding m1_def hs1_def vl1_def using inv h by (rule cover_inv)
  have wr: "wf_rows m rows" using inv by (simp add: dlx_inv_def)
  have wr1: "wf_rows m1 rows" using inv1 by (simp add: dlx_inv_def)
  have st1: "column (nodes m1 ! i) = column (nodes m ! i)" "row (nodes m1 ! i) = row (nodes m ! i)"
    "length (nodes m1) = length (nodes m)" for i
    by (simp_all add: m1_def)
  have rin: "r \<in> set (vl h)" using Cons.prems(1) by simp
  have rlen: "r < length (nodes m)" and rcol: "column (nodes m ! r) = int h"
    using cover_rows(1,5)[OF inv h rin] .
  have rh: "r \<noteq> h" using vl_not_header[OF inv h] rin by auto
  obtain R where R: "R \<in> set rows" "r \<in> set R" and live: "row_live m hs vl R"
    using live_row_of[OF inv h rin] by blast
  have op: "set (others rows r) = set R - {r}" using others_props(3)[OF wr R] .
  have dR: "distinct (map (\<lambda>x. column (nodes m ! x)) R)"
    using wr R(1) by (simp add: wf_rows_def)
  have cols1: "\<forall>j \<in> set (others rows r). nat (column (nodes m1 ! j)) \<in> set hs1"
  proof
    fix j assume j: "j \<in> set (others rows r)"
    then have jR: "j \<in> set R" and ne: "j \<noteq> r" using op by simp_all
    have jc: "j \<in> set (concat rows)" using jR R(1) by auto
    have pos: "1 \<le> column (nodes m ! j)" using wf_rows_bounds(3)[OF wr jc] .
    have "column (nodes m ! j) \<noteq> column (nodes m ! r)"
      using dR jR R(2) ne by (auto simp: distinct_map inj_on_def)
    then have "nat (column (nodes m ! j)) \<noteq> h" using pos rcol by simp
    moreover have "nat (column (nodes m ! j)) \<in> set hs"
      using live jR by (simp add: row_live_def)
    ultimately show "nat (column (nodes m1 ! j)) \<in> set hs1" by (simp add: st1 hs1_def)
  qed
  define hs2 where "hs2 = filter (\<lambda>z. z \<notin> (\<lambda>j. nat (column (nodes m1 ! j))) ` set (others rows r)) hs1"
  have sp0: "others rows r = [] @ others rows r" by simp
  from row_columns_run[OF R inv1 sp0 cols1] obtain m2 vl2 where
    inv2: "dlx_inv m2 rows hs2 vl2"
    and st2: "\<forall>i. column (nodes m2 ! i) = column (nodes m1 ! i) \<and> row (nodes m2 ! i) = row (nodes m1 ! i)"
    and cv: "\<forall>s. matrix s = m1 \<longrightarrow>
           (\<exists>k. cover_row_columns (int r) (int (hd (others rows r @ [r]))) s =
                 Some (Inr (s\<lparr>matrix := m2, operations := operations s + k\<rparr>)))"
    and un: "\<forall>t. matrix t = m2 \<longrightarrow>
           (\<exists>k. uncover_row_columns (int r) (int (last (r # [] @ others rows r))) t =
                 uncover_row_columns (int r) (int (last (r # [])))
                   (t\<lparr>matrix := m1, operations := operations t + k\<rparr>))"
    unfolding hs2_def by blast
  have wr2: "wf_rows m2 rows" using inv2 by (simp add: dlx_inv_def)
  define rid where "rid = row (nodes m ! r)"
  define s1 where "s1 = s\<lparr>solution := solution s @ [rid]\<rparr>"
  have ms1: "matrix s1 = m1" by (simp add: s1_def ms)
  have r1: "right (nodes m1 ! r) = int (hd (others rows r @ [r]))"
    using chain_hd[OF others_props(1)[OF wr1 R]] .
  obtain k1 where k1: "cover_row_columns (int r) (int (hd (others rows r @ [r]))) s1 =
      Some (Inr (s1\<lparr>matrix := m2, operations := operations s1 + k1\<rparr>))"
    using cv ms1 by blast
  define s2 where "s2 = s1\<lparr>matrix := m2, operations := operations s1 + k1\<rparr>"
  have ms2: "matrix s2 = m2" by (simp add: s2_def)
  have lt: "length hs2 < length hs"
  proof -
    have "length hs2 \<le> length hs1" by (simp add: hs2_def)
    moreover have "length hs1 < length hs"
      unfolding hs1_def using h by (intro length_filter_less[of h]) simp_all
    ultimately show ?thesis by simp
  qed
  have "search_post rows hs2 fa s2 (rec s2)"
    using inv2 lt unfolding ms2[symmetric] by (rule rec)
  then obtain b s3 new2 where rs2: "rec s2 = Some (Inr (b, s3))"
    and sols3: "solutions s3 = solutions s2 @ map (\<lambda>e. solution s2 @ e) new2"
    and ex2: "\<forall>e \<in> set new2. exact_for m2 rows hs2 e"
    and rest: "\<not> (b \<and> \<not> fa) \<Longrightarrow> matrix s3 = m2 \<and> solution s3 = solution s2"
    unfolding search_post_def ms2 by blast
  have exn: "exact_for m rows hs (rid # e)" if e: "e \<in> set new2" for e
  proof -
    have "exact_for m2 rows hs2 e" using ex2 e by blast
    then have "exact_for m rows hs2 e"
      by (rule exact_for_cong) (simp_all add: st2 st1)
    then have "exact_for m rows
              (filter (\<lambda>z. z \<notin> (\<lambda>j. nat (column (nodes m ! j))) ` set (others rows r))
                 (filter (\<lambda>z. z \<noteq> h) hs)) e"
      by (simp add: hs2_def hs1_def st1)
    then show ?thesis unfolding rid_def by (rule exact_for_extend[OF inv h rin])
  qed
  have sols3': "solutions s3 = solutions s @ map (\<lambda>e. solution s @ e) (map ((#) rid) new2)"
    using sols3 by (simp add: s2_def s1_def comp_def)
  have tr: "try_rows rec fa (int h) (int r) found s =
     Option.bind (rec s2)
       (\<lambda>res. case res of
          Inl e \<Rightarrow> Some (Inl e)
        | Inr (b, s3) \<Rightarrow>
            (if b \<and> \<not> fa then Some (Inr (Return_True, s3))
             else if solution s3 = [] then Some (Inl IndexError)
             else
               (let s4 = s3\<lparr>solution := butlast (solution s3)\<rparr> in
                Option.bind
                  (uncover_row_columns (int r) (left (nodes (matrix s4) ! r)) s4)
                  (\<lambda>res. case res of
                     Inl e \<Rightarrow> Some (Inl e)
                   | Inr s5 \<Rightarrow>
                       try_rows rec fa (int h) (down (nodes (matrix s5) ! r)) (found \<or> b) s5))))"
    apply (subst try_rows.simps)
    using rh rlen k1
    by (simp add: ms st1 Let_def rid_def[symmetric] s1_def[symmetric] ms1 r1 s2_def[symmetric])
  show ?case
  proof (cases "b \<and> \<not> fa")
    case True
    have "try_rows rec fa (int h) (int (hd ((r # rs) @ [h]))) found s = Some (Inr (Return_True, s3))"
      using tr rs2 True by simp
    moreover have "\<forall>e \<in> set (map ((#) rid) new2). exact_for m rows hs e"
      using exn by auto
    ultimately show ?thesis using sols3' True by fastforce
  next
    case False
    have m3: "matrix s3 = m2" and so3: "solution s3 = solution s @ [rid]"
      using rest[OF False] by (simp_all add: s2_def s1_def)
    define s4 where "s4 = s3\<lparr>solution := butlast (solution s3)\<rparr>"
    have ms4: "matrix s4 = m2" "solution s4 = solution s" "solutions s4 = solutions s3"
      by (simp_all add: s4_def m3 so3)
    have l2: "left (nodes m2 ! r) = int (last (r # others rows r))"
      using chain_hd[OF others_props(2)[OF wr2 R]] by (simp add: hd_rev_last)
    obtain k2 where k2: "uncover_row_columns (int r) (int (last (r # [] @ others rows r))) s4 =
                 uncover_row_columns (int r) (int (last (r # [])))
                   (s4\<lparr>matrix := m1, operations := operations s4 + k2\<rparr>)"
      using un ms4(1) by blast
    define s5 where "s5 = s4\<lparr>matrix := m1, operations := operations s4 + k2\<rparr>"
    have u5: "uncover_row_columns (int r) (left (nodes (matrix s4) ! r)) s4 = Some (Inr s5)"
      unfolding ms4(1) l2 using k2 unfolding s5_def[symmetric]
      by (simp add: uncover_row_columns.simps[of "int r" "int r"])
    have ms5: "matrix s5 = cover_m rows vl h m" "solution s5 = solution s" "solutions s5 = solutions s3"
      by (simp_all add: s5_def ms4 m1_def)
    have d1: "down (nodes (matrix s5) ! r) = int (hd (rs @ [h]))"
    proof -
      have "nodes m1 ! r = nodes m ! r"
        unfolding m1_def using cover_frame(1)[OF inv h rcol] .
      moreover have "chain (\<lambda>i. down (nodes m ! i)) h (dn @ r # rs) h"
        using dlx_inv_header(4)[OF inv h] unfolding Cons.prems(1)[symmetric] by (simp add: vcol_def)
      ultimately show ?thesis using chain_mid[of "\<lambda>i. down (nodes m ! i)" h dn r rs h]
        by (simp add: s5_def)
    qed
    have sp': "vl h = (dn @ [r]) @ rs" using Cons.prems(1) by simp
    from Cons.IH[OF sp' ms5(1), of "found \<or> b"] obtain ex s' new' where
      t': "try_rows rec fa (int h) (int (hd (rs @ [h]))) (found \<or> b) s5 = Some (Inr (ex, s'))"
      and so': "solutions s' = solutions s5 @ map (\<lambda>e. solution s5 @ e) new'"
      and ex': "\<forall>e \<in> set new'. exact_for m rows hs e"
      and en': "case ex of Return_True \<Rightarrow> \<not> fa
         | Loop_End f \<Rightarrow> matrix s' = cover_m rows vl h m \<and> solution s' = solution s5"
      by blast
    have ne3: "solution s3 \<noteq> []" using so3 by simp
    have "try_rows rec fa (int h) (int (hd ((r # rs) @ [h]))) found s = Some (Inr (ex, s'))"
      using tr rs2 False ne3 u5 t' unfolding d1 by (simp add: s4_def[symmetric] Let_def d1)
    moreover have "solutions s' = solutions s @ map (\<lambda>e. solution s @ e) (map ((#) rid) new2 @ new')"
      using so' sols3' by (simp add: ms5)
    moreover have "\<forall>e \<in> set (map ((#) rid) new2 @ new'). exact_for m rows hs e"
      using exn ex' by auto
    moreover have "case ex of Return_True \<Rightarrow> \<not> fa
         | Loop_End f \<Rightarrow> matrix s' = cover_m rows vl h m \<and> solution s' = solution s"
      using en' by (simp add: ms5 split: loop_exit.splits)
    ultimately show ?thesis by blast
  qed
qed

end
